(* ===== verification/Prelude.thy ===== *)
theory Prelude
  imports Main "HOL-Library.List_Lexorder" "HOL-Library.Sublist" "HOL-Library.Word"
    "HOL-Library.Code_Target_Nat"
begin

text \<open>
  Shared vocabulary of the development.  A JavaScript string is the list of its UTF-16
  code units, each a 16-bit word, so that \<open>length\<close>, indexing and comparison are those of
  the language; an ASCII literal is written \<open>js ''abc''\<close>.  A call that may throw returns a
  value of the sum type \<open>js_error + 'a\<close>.  The theory holds the few string methods the
  sources use (\<open>substring\<close>, \<open>join\<close>, \<open>split\<close>, \<open>padStart\<close>, \<open>indexOf\<close>) and the generic lemmas
  on lists and slices that the component theories share.
\<close>

section \<open>Strings, errors\<close>

type_synonym code_unit = "16 word"
type_synonym jsstring = "code_unit list"

definition js :: "string \<Rightarrow> jsstring" where
  "js s = map of_char s"

datatype js_error =
    TypeError
  | JsError jsstring

fun bind_js :: "'e + 'a \<Rightarrow> ('a \<Rightarrow> 'e + 'b) \<Rightarrow> 'e + 'b" where
  "bind_js (Inl e) f = Inl e"
| "bind_js (Inr x) f = f x"

lemma bind_js_Inr: "bind_js m f = Inr y \<longleftrightarrow> (\<exists>x. m = Inr x \<and> f x = Inr y)"
  by (cases m) auto

lemma bind_js_Inl: "bind_js m f = Inl e \<longleftrightarrow> m = Inl e \<or> (\<exists>x. m = Inr x \<and> f x = Inl e)"
  by (cases m) auto

section \<open>Slices\<close>

text \<open>The code units of \<open>xs\<close> at the indices \<open>a, \<dots>, b - 1\<close>.\<close>

definition slice :: "'a list \<Rightarrow> nat \<Rightarrow> nat \<Rightarrow> 'a list" where
  "slice xs a b = take (b - a) (drop a xs)"

text \<open>\<open>String.prototype.substring\<close>: both arguments are clamped to the length and swapped
  when the first is the larger.\<close>

definition substring :: "jsstring \<Rightarrow> nat \<Rightarrow> nat \<Rightarrow> jsstring" where
  "substring s a b =
     (let a' = min a (length s); b' = min b (length s)
      in slice s (min a' b') (max a' b'))"

lemma length_slice: "b \<le> length xs \<Longrightarrow> length (slice xs a b) = b - a"
  by (simp add: slice_def)

lemma slice_refl [simp]: "slice xs a a = []"
  by (simp add: slice_def)

lemma slice_full: "slice xs 0 (length xs) = xs"
  by (simp add: slice_def)

lemma slice_Suc:
  "a \<le> b \<Longrightarrow> b < length xs \<Longrightarrow> slice xs a (Suc b) = slice xs a b @ [xs ! b]"
  by (simp add: slice_def Suc_diff_le take_Suc_conv_app_nth)

lemma slice_append: "a \<le> b \<Longrightarrow> b \<le> c \<Longrightarrow> slice xs a b @ slice xs b c = slice xs a c"
proof -
  assume ab: "a \<le> b" and bc: "b \<le> c"
  have "take (c - a) (drop a xs) =
      take (b - a) (drop a xs) @ take (c - b) (drop (b - a) (drop a xs))"
    using ab bc by (metis Nat.diff_add_assoc2 le_add_diff_inverse2 take_add add.commute)
  with ab show ?thesis by (simp add: slice_def)
qed

lemma nth_slice: "a + i < b \<Longrightarrow> b \<le> length xs \<Longrightarrow> slice xs a b ! i = xs ! (a + i)"
  by (simp add: slice_def)

lemma slice_eq_Nil_iff: "b \<le> length xs \<Longrightarrow> slice xs a b = [] \<longleftrightarrow> b \<le> a"
  by (auto simp: slice_def)

lemma substring_eq_slice:
  "a \<le> b \<Longrightarrow> b \<le> length s \<Longrightarrow> substring s a b = slice s a b"
  by (simp add: substring_def Let_def)

section \<open>Joining and splitting\<close>

text \<open>\<open>Array.prototype.join\<close> on strings.\<close>

fun join :: "jsstring list \<Rightarrow> jsstring \<Rightarrow> jsstring" where
  "join [] d = []"
| "join [x] d = x"
| "join (x # y # ys) d = x @ d @ join (y # ys) d"

lemma join_Nil [simp]: "join xs [] = concat xs"
  by (induction xs "[] :: jsstring" rule: join.induct) auto

text \<open>\<open>String.prototype.split\<close> with a separator of one code unit.\<close>

fun split_on :: "code_unit \<Rightarrow> jsstring \<Rightarrow> jsstring list" where
  "split_on c [] = [[]]"
| "split_on c (x # xs) =
     (if x = c then [] # split_on c xs
      else case split_on c xs of [] \<Rightarrow> [[x]] | w # ws \<Rightarrow> (x # w) # ws)"

lemma split_on_neq_Nil [simp]: "split_on c s \<noteq> []"
  by (induction s) (auto split: list.splits)

lemma split_on_no_sep: "w \<in> set (split_on c s) \<Longrightarrow> c \<notin> set w"
  by (induction s arbitrary: w) (auto split: list.splits if_splits)

lemma join_split_on: "join (split_on c s) [c] = s"
proof (induction s)
  case Nil
  then show ?case by simp
next
  case (Cons x xs)
  obtain w ws where w: "split_on c xs = w # ws" by (cases "split_on c xs") auto
  with Cons show ?case by (cases ws) auto
qed

lemma split_on_append_sep:
  "c \<notin> set w \<Longrightarrow> split_on c (w @ c # s) = w # split_on c s"
  by (induction w) auto

lemma split_on_single: "c \<notin> set w \<Longrightarrow> split_on c w = [w]"
  by (induction w) auto

lemma split_on_join:
  "ws \<noteq> [] \<Longrightarrow> (\<And>w. w \<in> set ws \<Longrightarrow> c \<notin> set w) \<Longrightarrow> split_on c (join ws [c]) = ws"
  by (induction ws "[c]" rule: join.induct) (auto simp: split_on_single split_on_append_sep)

section \<open>Searching lists\<close>

lemma find_append: "find P (xs @ ys) = (case find P xs of None \<Rightarrow> find P ys | Some x \<Rightarrow> Some x)"
  by (induction xs) auto

lemma find_None_if: "(\<And>x. x \<in> set xs \<Longrightarrow> \<not> P x) \<Longrightarrow> find P xs = None"
  by (auto simp: find_None_iff)

lemma find_upto_Some:
  "find P [l..r] = Some m \<longleftrightarrow> l \<le> m \<and> m \<le> r \<and> P m \<and> (\<forall>i. l \<le> i \<longrightarrow> i < m \<longrightarrow> \<not> P i)"
proof (induction l r rule: upto.induct)
  case (1 l r)
  show ?case
  proof (cases "l \<le> r")
    case True
    have eq: "[l..r] = l # [l + 1..r]" using True by (rule upto_rec1)
    show ?thesis
    proof (cases "P l")
      case True
      then show ?thesis using \<open>l \<le> r\<close> unfolding eq by (auto simp: order_le_less)
    next
      case False
      have "(\<forall>i. l \<le> i \<longrightarrow> i < m \<longrightarrow> \<not> P i) \<longleftrightarrow> (\<forall>i. l + 1 \<le> i \<longrightarrow> i < m \<longrightarrow> \<not> P i)"
        using False by (metis add1_zle_eq order_le_less)
      moreover have "l \<le> m \<and> P m \<longleftrightarrow> l + 1 \<le> m \<and> P m" using False by (metis add1_zle_eq order_le_less)
      ultimately show ?thesis using "1.IH" True False unfolding eq by auto
    qed
  next
    case False
    then show ?thesis by simp
  qed
qed

lemma find_rev_upto_Some:
  "find P (rev [l..r]) = Some m \<longleftrightarrow> l \<le> m \<and> m \<le> r \<and> P m \<and> (\<forall>i. m < i \<longrightarrow> i \<le> r \<longrightarrow> \<not> P i)"
proof -
  have eq: "rev [l..r] = map uminus [-r..-l]"
  proof (induction l r rule: upto.induct)
    case (1 l r)
    show ?case
    proof (cases "l \<le> r")
      case True
      then have "[-r..-l] = [-r..-(l + 1)] @ [-l]" by (simp add: upto_rec2)
      with True 1 show ?thesis by (subst upto_rec1) auto
    qed simp
  qed
  have fm: "find Q (map uminus xs) = map_option uminus (find (Q \<circ> uminus) xs)" for Q :: "int \<Rightarrow> bool" and xs
    by (induction xs) auto
  have "find P (rev [l..r]) = Some m \<longleftrightarrow> find (P \<circ> uminus) [-r..-l] = Some (- m)"
    unfolding eq fm by (cases "find (P \<circ> uminus) [-r..-l]") auto
  also have "\<dots> \<longleftrightarrow> l \<le> m \<and> m \<le> r \<and> P m \<and> (\<forall>i. - r \<le> i \<longrightarrow> i < - m \<longrightarrow> \<not> P (- i))"
    unfolding find_upto_Some by auto
  also have "(\<forall>i. - r \<le> i \<longrightarrow> i < - m \<longrightarrow> \<not> P (- i)) \<longleftrightarrow> (\<forall>i. m < i \<longrightarrow> i \<le> r \<longrightarrow> \<not> P i)"
    by (metis minus_less_iff neg_le_iff_le minus_minus)
  finally show ?thesis .
qed

lemma set_map_filter: "set (List.map_filter f xs) = {y. \<exists>x \<in> set xs. f x = Some y}"
  by (induction xs) (auto simp: List.map_filter_def split: option.splits)

section \<open>Sorted lists of strings\<close>

lemma prefix_imp_le: "prefix (p :: jsstring) x \<Longrightarrow> p \<le> x"
proof -
  assume "prefix p x"
  then obtain z where "x = p @ z" by (auto elim: prefixE)
  then show ?thesis by (cases z) (auto simp: list_le_def list_less_def lexord_append_rightI)
qed

lemma prefix_le_eq: "prefix (p :: jsstring) x \<Longrightarrow> x \<le> p \<Longrightarrow> x = p"
  using prefix_imp_le by (metis order_antisym)

lemma remdups_adj_snoc:
  "remdups_adj (xs @ [x]) = (if xs \<noteq> [] \<and> last xs = x then remdups_adj xs else remdups_adj xs @ [x])"
  by (induction xs rule: remdups_adj.induct) auto

lemma uniq_filter_eq:
  "map snd (filter (\<lambda>(pos, item). pos = 0 \<or> item \<noteq> xs ! (pos - 1)) (zip [0..<length xs] xs)) =
   remdups_adj xs"
proof (induction xs rule: rev_induct)
  case Nil
  then show ?case by simp
next
  case (snoc x xs)
  have "filter (\<lambda>(pos, item). pos = 0 \<or> item \<noteq> (xs @ [x]) ! (pos - 1)) (zip [0..<length xs] xs) =
      filter (\<lambda>(pos, item). pos = 0 \<or> item \<noteq> xs ! (pos - 1)) (zip [0..<length xs] xs)"
  proof (rule filter_cong [OF refl], clarify)
    fix pos item assume "(pos, item) \<in> set (zip [0..<length xs] xs)"
    then have "pos - 1 < length xs" by (auto simp: in_set_zip)
    then show "(pos = 0 \<or> item \<noteq> (xs @ [x]) ! (pos - 1)) = (pos = 0 \<or> item \<noteq> xs ! (pos - 1))"
      by (simp only: nth_append if_True)
  qed
  moreover have "(xs @ [x]) ! (length xs - 1) = last xs" if "xs \<noteq> []"
    using that by (simp add: nth_append last_conv_nth)
  ultimately show ?case
    using snoc by (cases "xs = []") (auto simp: remdups_adj_snoc)
qed

lemma distinct_remdups_adj_sorted: "sorted xs \<Longrightarrow> distinct (remdups_adj xs)"
  by (induction xs rule: remdups_adj.induct) auto

section \<open>Objects\<close>

text \<open>An object is the list of its own keys with their values, in the order in which the keys were
  added; an assignment keeps the place of a key that is there.\<close>

fun set_key :: "'k \<Rightarrow> 'v \<Rightarrow> ('k \<times> 'v) list \<Rightarrow> ('k \<times> 'v) list" where
  "set_key k v [] = [(k, v)]"
| "set_key k v ((j, w) # os) = (if j = k then (k, v) # os else (j, w) # set_key k v os)"

lemma map_of_set_key: "map_of (set_key k v os) = (map_of os)(k \<mapsto> v)"
  by (induction os) auto

lemma map_of_fold_set_key:
  "distinct (map fst a) \<Longrightarrow> map_of (fold (\<lambda>(k, v). set_key k v) a os) = map_of os ++ map_of a"
proof (induction a arbitrary: os)
  case (Cons x a)
  then have "fst x \<notin> dom (map_of a)" by (simp add: dom_map_of_conv_image_fst)
  with Cons show ?case by (cases x) (auto simp: map_of_set_key fun_eq_iff map_add_def split: option.split)
qed simp

end
