(* ===== verification/Wordcut_Types.thy ===== *)
theory Wordcut_Types
  imports Prelude
begin

text \<open>
  The data of the Thai word segmenter bundled with the documentation site's search
  (\<open>docs/site/assets/javascripts/lunr/wordcut.js\<close>).  An \<open>acceptor\<close> is the object a rule's
  \<open>createAcceptor\<close> returns: its common fields are a record, and what its \<open>transit\<close> closure
  captures (the dictionary range, the remaining patterns) is the field \<open>body\<close>.
\<close>

datatype rule_tag = INIT | UNK | DICT | WORD_RULE | NUMBER_RULE | SPACE_RULE | SINSYM
  | THAI_RULE | PART

datatype acc_body =
    Dict_acc "jsstring list" int int
  | Word_acc
  | Number_acc
  | Space_acc
  | Sinsym_acc
  | Rule0_acc
  | Part_acc "jsstring list"

record acceptor =
  strOffset :: nat
  isFinal :: bool
  isError :: bool
  tag :: rule_tag
  rtype :: rule_tag
  acc_w :: nat
  acc_mw :: "nat option"
  acc_unk :: "nat option"
  body :: acc_body

type_synonym tags = "rule_tag \<rightharpoonup> acceptor"

section \<open>The contract of a rule\<close>

text \<open>Feeding a string to an acceptor one code unit at a time, until it fails.\<close>

fun feed :: "(acceptor \<Rightarrow> code_unit \<Rightarrow> js_error + acceptor) \<Rightarrow> acceptor \<Rightarrow> jsstring
    \<Rightarrow> js_error + acceptor" where
  "feed step a [] = Inr a"
| "feed step a (ch # w) =
     (if isError a then Inr a else bind_js (step a ch) (\<lambda>a'. feed step a' w))"

lemma feed_error: "isError a \<Longrightarrow> feed step a w = Inr a"
  by (cases w) auto

text \<open>
  What the segmenter relies on in a rule.  \<open>tracks a u\<close> says that the acceptor \<open>a\<close> of the rule
  has read \<open>u\<close> without failing; \<open>live\<close> is the set of strings a match can begin with, and
  \<open>accepts\<close> the set of its matches.
\<close>

locale acceptor_rule =
  fixes create :: "tags \<Rightarrow> acceptor option"
    and step :: "acceptor \<Rightarrow> code_unit \<Rightarrow> js_error + acceptor"
    and tracks :: "acceptor \<Rightarrow> jsstring \<Rightarrow> bool"
    and live :: "jsstring \<Rightarrow> bool"
    and accepts :: "jsstring \<Rightarrow> bool"
    and kind :: rule_tag
  assumes create_tracks: "create t = Some a \<Longrightarrow> tracks a []"
    and step_tracks: "tracks a u \<Longrightarrow>
      \<exists>a'. step a ch = Inr a' \<and> (if live (u @ [ch]) then tracks a' (u @ [ch]) else isError a')"
    and tracks_offset: "tracks a u \<Longrightarrow> strOffset a = length u \<and> \<not> isError a \<and> rtype a = kind"
    and tracks_final: "tracks a u \<Longrightarrow> isFinal a \<longleftrightarrow> u \<noteq> [] \<and> accepts u"
    and live_prefix: "live (u @ v) \<Longrightarrow> live u"
begin

lemma feed_tracks:
  assumes "tracks a u"
  shows "\<exists>a'. feed step a w = Inr a' \<and>
    (if w = [] \<or> live (u @ w) then tracks a' (u @ w) else isError a')"
  using assms
proof (induction w arbitrary: a u)
  case Nil
  then show ?case by simp
next
  case (Cons ch w)
  have ne: "\<not> isError a" using Cons.prems tracks_offset by blast
  obtain a1 where a1: "step a ch = Inr a1"
    "if live (u @ [ch]) then tracks a1 (u @ [ch]) else isError a1"
    using step_tracks [OF Cons.prems] by blast
  show ?case
  proof (cases "live (u @ [ch])")
    case True
    then obtain a2 where "feed step a1 w = Inr a2"
      "if w = [] \<or> live ((u @ [ch]) @ w) then tracks a2 ((u @ [ch]) @ w) else isError a2"
      using Cons.IH [of a1 "u @ [ch]"] a1(2) by (metis (no_types, lifting))
    then show ?thesis using a1 ne True by (auto split: if_splits)
  next
    case False
    then have "\<not> live (u @ ch # w)"
      using live_prefix [of "u @ [ch]" w] by auto
    then show ?thesis using a1 ne False by (auto simp: feed_error)
  qed
qed

text \<open>A fresh acceptor recognises exactly the matches of its rule.\<close>

lemma feed_recognises:
  assumes "create t = Some a"
  shows "\<exists>a'. feed step a w = Inr a' \<and> (\<not> isError a' \<longleftrightarrow> w = [] \<or> live w) \<and>
    (isFinal a' \<and> \<not> isError a' \<longleftrightarrow> w \<noteq> [] \<and> (live w \<and> accepts w))"
proof -
  obtain a' where a': "feed step a w = Inr a'"
    "if w = [] \<or> live w then tracks a' w else isError a'"
    using feed_tracks [OF create_tracks [OF assms], of w] unfolding append_Nil by blast
  then show ?thesis
    using tracks_final [of a' w] tracks_offset [of a' w] by (auto split: if_splits)
qed

end

end
