(* ===== verification/Wordcut_Dict.thy ===== *)
theory Wordcut_Dict
  imports Wordcut_Types
begin

text \<open>
  The dictionary of the segmenter (module 2 of \<open>wordcut.js\<close>, object \<open>WordcutDict\<close>): a sorted
  array of words without repetition, searched by bisection on one code unit at a time.  The
  theory shows that the bisection equals a linear scan, that an acceptor fed with a string
  holds exactly the range of words that extend it, and that it is final exactly on the words
  of the dictionary.
\<close>

section \<open>Building the dictionary\<close>

text \<open>\<open>a.sort().filter(...)\<close>: the default sort compares code units; the filter keeps the
  items that differ from their left neighbour.\<close>

definition sortuniq :: "jsstring list \<Rightarrow> jsstring list" where
  "sortuniq a =
     (let arr = sort a
      in map snd (filter (\<lambda>(pos, item). pos = 0 \<or> item \<noteq> arr ! (pos - 1))
           (zip [0..<length arr] arr)))"

definition flatten :: "'a list list \<Rightarrow> 'a list" where
  "flatten a = fold (\<lambda>x acc. acc @ x) a []"

definition finalizeDict :: "jsstring list \<Rightarrow> jsstring list" where
  "finalizeDict dict = sortuniq dict"

text \<open>The argument \<open>finalize\<close> is \<open>None\<close> when the caller leaves it undefined.\<close>

definition addWords :: "jsstring list \<Rightarrow> jsstring list \<Rightarrow> bool option \<Rightarrow> jsstring list" where
  "addWords dict words finalize =
     (let finalize' = (finalize = None \<or> finalize = Some True);
          dict' = dict @ words
      in if finalize' then finalizeDict dict' else dict')"

text \<open>\<open>split(/[\r\n]+/)\<close>: maximal runs of line terminators separate the pieces.\<close>

definition line_end :: "code_unit \<Rightarrow> bool" where
  "line_end c \<longleftrightarrow> c = 10 \<or> c = 13"

fun split_lines :: "jsstring \<Rightarrow> jsstring list" where
  "split_lines [] = [[]]"
| "split_lines [c] = (if line_end c then [[], []] else [[c]])"
| "split_lines (c # d # s) =
     (if line_end c
      then (if line_end d then split_lines (d # s) else [] # split_lines (d # s))
      else (case split_lines (d # s) of [] \<Rightarrow> [[c]] | w # ws \<Rightarrow> (c # w) # ws))"

text \<open>The bundler replaced the read of each file by the text of the default word list, and
  the loop bound by 1: \<open>data\<close> is that literal, and \<open>files\<close> is not read.\<close>

definition addFiles ::
  "jsstring \<Rightarrow> jsstring list \<Rightarrow> jsstring list \<Rightarrow> bool option \<Rightarrow> jsstring list" where
  "addFiles data dict files finalize =
     (let finalize' = (finalize = None \<or> finalize = Some True);
          words = filter (\<lambda>w. 1 < length w) (split_lines data);
          dict' = addWords dict words (Some False)
      in if finalize' then finalizeDict dict' else dict')"

section \<open>Bisection\<close>

datatype side = LEFT | RIGHT

function dictSeek ::
  "jsstring list \<Rightarrow> int \<Rightarrow> int \<Rightarrow> code_unit \<Rightarrow> nat \<Rightarrow> side \<Rightarrow> int option
     \<Rightarrow> js_error + int option" where
  "dictSeek dict l r ch off pos ans =
     (if l \<le> r then
        let m = (l + r) div 2
        in if m < 0 \<or> int (length dict) \<le> m then Inl TypeError
           else let item = dict ! nat m
             in if length item \<le> off then dictSeek dict (m + 1) r ch off pos ans
                else if item ! off < ch then dictSeek dict (m + 1) r ch off pos ans
                else if ch < item ! off then dictSeek dict l (m - 1) ch off pos ans
                else if pos = LEFT then dictSeek dict l (m - 1) ch off pos (Some m)
                else dictSeek dict (m + 1) r ch off pos (Some m)
      else Inr ans)"
  by pat_completeness auto
termination
  by (relation "measure (\<lambda>(dict, l, r, ch, off, pos, ans). nat (r - l + 1))") auto

declare dictSeek.simps [simp del]

section \<open>The dictionary acceptor\<close>

definition dict_createAcceptor :: "jsstring list \<Rightarrow> acceptor" where
  "dict_createAcceptor dict =
     \<lparr>strOffset = 0, isFinal = False, isError = False, tag = DICT, rtype = DICT, acc_w = 1,
      acc_mw = None, acc_unk = None, body = Dict_acc dict 0 (int (length dict) - 1)\<rparr>"

text \<open>\<open>this.dict[acceptor.l].length == acceptor.strOffset\<close>.\<close>

definition dict_isFinal :: "jsstring list \<Rightarrow> int \<Rightarrow> nat \<Rightarrow> js_error + bool" where
  "dict_isFinal dict l off =
     (if l < 0 \<or> int (length dict) \<le> l then Inl TypeError
      else Inr (length (dict ! nat l) = off))"

text \<open>\<open>transit\<close> of the dictionary object, on the fields \<open>dict\<close>, \<open>l\<close> and \<open>r\<close> of the acceptor.  A
  \<open>null\<close> stored in \<open>r\<close> would act as 0 in the arithmetic of the next call.\<close>

definition dict_transit ::
  "jsstring list \<Rightarrow> int \<Rightarrow> int \<Rightarrow> acceptor \<Rightarrow> code_unit \<Rightarrow> js_error + acceptor" where
  "dict_transit dict al ar acceptor ch =
     bind_js (dictSeek dict al ar ch (strOffset acceptor) LEFT None) (\<lambda>lo.
       case lo of
         None \<Rightarrow> Inr (acceptor\<lparr>isError := True\<rparr>)
       | Some l \<Rightarrow>
           bind_js (dictSeek dict l ar ch (strOffset acceptor) RIGHT None) (\<lambda>ro.
             let r = (case ro of None \<Rightarrow> 0 | Some r \<Rightarrow> r);
                 off = Suc (strOffset acceptor)
             in bind_js (dict_isFinal dict l off) (\<lambda>fin.
                  Inr (acceptor\<lparr>body := Dict_acc dict l r, strOffset := off, isFinal := fin\<rparr>))))"

section \<open>The sorted dictionary\<close>

lemma sortuniq_remdups: "sortuniq a = remdups_adj (sort a)"
  unfolding sortuniq_def Let_def by (rule uniq_filter_eq)

lemma sorted_sortuniq: "sorted (sortuniq a)"
  by (simp add: sortuniq_remdups sorted_remdups_adj)

lemma set_sortuniq: "set (sortuniq a) = set a"
  by (simp add: sortuniq_remdups)

lemma distinct_sortuniq: "distinct (sortuniq a)"
  by (simp add: sortuniq_remdups distinct_remdups_adj_sorted)

lemma flatten_concat: "flatten a = concat a"
proof -
  have "fold (\<lambda>x acc. acc @ x) a b = b @ concat a" for b
    by (induction a arbitrary: b) auto
  then show ?thesis by (simp add: flatten_def)
qed

section \<open>The bisection equals a linear scan\<close>

text \<open>The order the bisection relies on: a word that ends before the offset comes first.\<close>
definition dict_key :: "jsstring list \<Rightarrow> nat \<Rightarrow> int \<Rightarrow> jsstring" where
  "dict_key dict off i = (let item = dict ! nat i in if length item \<le> off then [] else [item ! off])"

definition key_mono :: "jsstring list \<Rightarrow> nat \<Rightarrow> int \<Rightarrow> int \<Rightarrow> bool" where
  "key_mono dict off l r \<longleftrightarrow>
     (\<forall>i j. l \<le> i \<longrightarrow> i \<le> j \<longrightarrow> j \<le> r \<longrightarrow> dict_key dict off i \<le> dict_key dict off j)"

definition linear_seek :: "jsstring list \<Rightarrow> int \<Rightarrow> int \<Rightarrow> code_unit \<Rightarrow> nat \<Rightarrow> side \<Rightarrow> int option" where
  "linear_seek dict l r ch off pos =
     find (\<lambda>i. dict_key dict off i = [ch]) (if pos = LEFT then [l..r] else rev [l..r])"

lemma linear_seek_split:
  assumes "l \<le> m" "m \<le> r"
  shows "linear_seek dict l r ch off pos =
     (let a = linear_seek dict l (m - 1) ch off pos; b = linear_seek dict (m + 1) r ch off pos;
          c = (if dict_key dict off m = [ch] then Some m else None)
      in if pos = LEFT then (case a of Some x \<Rightarrow> Some x | None \<Rightarrow> (case c of Some x \<Rightarrow> Some x | None \<Rightarrow> b))
         else (case b of Some x \<Rightarrow> Some x | None \<Rightarrow> (case c of Some x \<Rightarrow> Some x | None \<Rightarrow> a)))"
proof -
  have "[l..r] = [l..m - 1] @ m # [m + 1..r]"
    using assms by (metis upto_split3)
  then show ?thesis
    by (auto simp: linear_seek_def find_append Let_def split: option.splits)
qed

lemma linear_seek_None:
  "(\<And>i. l \<le> i \<Longrightarrow> i \<le> r \<Longrightarrow> dict_key dict off i \<noteq> [ch]) \<Longrightarrow> linear_seek dict l r ch off pos = None"
  by (auto simp: linear_seek_def intro!: find_None_if)

lemma key_mono_sub: "key_mono dict off l r \<Longrightarrow> l \<le> l' \<Longrightarrow> r' \<le> r \<Longrightarrow> key_mono dict off l' r'"
  unfolding key_mono_def by (meson order_trans)

lemma seek_below:
  assumes "key_mono dict off l r" "m \<le> r" "dict_key dict off m < [ch]"
  shows "linear_seek dict l (m - 1) ch off pos = None"
proof (rule linear_seek_None)
  fix i assume "l \<le> i" "i \<le> m - 1"
  with assms(1,2) have "dict_key dict off i \<le> dict_key dict off m" by (auto simp: key_mono_def)
  with assms(3) show "dict_key dict off i \<noteq> [ch]" by auto
qed

lemma seek_above:
  assumes "key_mono dict off l r" "l \<le> m" "[ch] < dict_key dict off m"
  shows "linear_seek dict (m + 1) r ch off pos = None"
proof (rule linear_seek_None)
  fix i assume "m + 1 \<le> i" "i \<le> r"
  with assms(1,2) have "dict_key dict off m \<le> dict_key dict off i" by (auto simp: key_mono_def)
  with assms(3) show "dict_key dict off i \<noteq> [ch]" by auto
qed

lemma dictSeek_linear:
  assumes "0 \<le> l" "r < int (length dict)" "key_mono dict off l r"
  shows "dictSeek dict l r ch off pos ans =
     Inr (case linear_seek dict l r ch off pos of None \<Rightarrow> ans | Some i \<Rightarrow> Some i)"
  using assms
proof (induction dict l r ch off pos ans rule: dictSeek.induct)
  case (1 dict l r ch off pos ans)
  show ?case
  proof (cases "l \<le> r")
    case False
    then show ?thesis by (simp add: dictSeek.simps linear_seek_def)
  next
    case True
    define m where "m = (l + r) div 2"
    have m: "l \<le> m" "m \<le> r" using True by (auto simp: m_def)
    have rng: "\<not> (m < 0 \<or> int (length dict) \<le> m)" using m "1.prems" by linarith
    have mono: "key_mono dict off (m + 1) r" "key_mono dict off l (m - 1)"
      using "1.prems"(3) m by (auto intro: key_mono_sub)
    have bnd: "0 \<le> m + 1" "m - 1 < int (length dict)" using m "1.prems" by linarith+
    note IH = "1.IH"[OF True m_def rng refl]
    note unf = dictSeek.simps [of dict l r ch off pos ans]
    consider (lt) "dict_key dict off m < [ch]" | (eq) "dict_key dict off m = [ch]"
      | (gt) "[ch] < dict_key dict off m" using linorder_less_linear by blast
    then show ?thesis
    proof cases
      case lt
      have "dictSeek dict l r ch off pos ans = dictSeek dict (m + 1) r ch off pos ans"
        using lt True rng by (subst unf) (auto simp: m_def [symmetric] dict_key_def Let_def)
      then show ?thesis
        using lt True rng seek_below[OF "1.prems"(3) m(2) lt] IH(1,2) mono bnd "1.prems"
        by (subst linear_seek_split [OF m])
          (auto simp: dict_key_def Let_def m_def [symmetric] split: if_splits option.splits)
    next
      case gt
      have "dictSeek dict l r ch off pos ans = dictSeek dict l (m - 1) ch off pos ans"
        using gt True rng by (subst unf) (auto simp: m_def [symmetric] dict_key_def Let_def split: if_splits)
      then show ?thesis
        using gt True rng seek_above[OF "1.prems"(3) m(1) gt] IH(3) mono bnd "1.prems"
        by (subst linear_seek_split [OF m])
          (auto simp: dict_key_def Let_def m_def [symmetric] split: if_splits option.splits)
    next
      case eq
      have "dictSeek dict l r ch off pos ans =
          (if pos = LEFT then dictSeek dict l (m - 1) ch off pos (Some m)
           else dictSeek dict (m + 1) r ch off pos (Some m))"
        using eq True rng by (subst unf) (auto simp: m_def [symmetric] dict_key_def Let_def split: if_splits)
      then show ?thesis
        using eq True rng IH(4,5) mono bnd "1.prems"
        by (subst linear_seek_split [OF m])
          (auto simp: dict_key_def Let_def m_def [symmetric] split: if_splits option.splits)
    qed
  qed
qed

section \<open>Ranges of words with a common prefix\<close>

definition item_key :: "jsstring \<Rightarrow> nat \<Rightarrow> jsstring" where
  "item_key x off = (if length x \<le> off then [] else [x ! off])"

lemma le_item_key:
  assumes "x \<le> y" "prefix u x" "prefix u y"
  shows "item_key x (length u) \<le> item_key y (length u)"
proof -
  obtain x' y' where xy: "x = u @ x'" "y = u @ y'" using assms(2,3) by (auto elim!: prefixE)
  have "x' = y' \<or> (x', y') \<in> lexord {(a, b). a < b}"
    using assms(1) unfolding xy by (auto simp: list_le_def list_less_def lexord_same_pref_iff)
  then show ?thesis
    unfolding xy by (cases x'; cases y') (auto simp: item_key_def nth_append)
qed

lemma prefix_snoc_key:
  "prefix u x \<Longrightarrow> prefix (u @ [c]) x \<longleftrightarrow> item_key x (length u) = [c]"
  by (auto simp: item_key_def nth_append elim!: prefixE)
     (metis append_Nil2 append.assoc append_Cons append_Nil hd_append2 length_greater_0_conv list.exhaust_sel
       nth_Cons_0 prefixI)

definition dict_range :: "jsstring list \<Rightarrow> jsstring \<Rightarrow> int \<Rightarrow> int \<Rightarrow> bool" where
  "dict_range dict u l r \<longleftrightarrow> 0 \<le> l \<and> r < int (length dict) \<and>
     (\<forall>i. 0 \<le> i \<longrightarrow> i < int (length dict) \<longrightarrow> (l \<le> i \<and> i \<le> r \<longleftrightarrow> prefix u (dict ! nat i)))"

lemma dict_rangeD: "dict_range dict u l r \<Longrightarrow> l \<le> i \<Longrightarrow> i \<le> r \<Longrightarrow> prefix u (dict ! nat i)"
  unfolding dict_range_def by (metis order_trans order_le_less_trans)

lemma dict_key_item: "dict_key dict off i = item_key (dict ! nat i) off"
  by (simp add: dict_key_def item_key_def Let_def)

lemma dict_range_key_mono:
  assumes "sorted dict" "dict_range dict u l r"
  shows "key_mono dict (length u) l r"
  unfolding key_mono_def dict_key_item
proof (intro allI impI)
  fix i j assume ij: "l \<le> i" "i \<le> j" "j \<le> r"
  with assms(2) have b: "0 \<le> i" "j < int (length dict)" by (auto simp: dict_range_def)
  then have "dict ! nat i \<le> dict ! nat j"
    using assms(1) ij by (intro sorted_nth_mono) auto
  moreover have "prefix u (dict ! nat i)" "prefix u (dict ! nat j)"
    using assms(2) ij by (auto intro: dict_rangeD)
  ultimately show "item_key (dict ! nat i) (length u) \<le> item_key (dict ! nat j) (length u)"
    by (rule le_item_key)
qed

lemma linear_seek_None_iff:
  "linear_seek dict l r ch off pos = None \<longleftrightarrow> (\<forall>i. l \<le> i \<and> i \<le> r \<longrightarrow> dict_key dict off i \<noteq> [ch])"
  by (auto simp: linear_seek_def find_None_iff)

lemma linear_seek_LEFT: "linear_seek dict l r ch off LEFT = Some m \<longleftrightarrow>
   l \<le> m \<and> m \<le> r \<and> dict_key dict off m = [ch] \<and> (\<forall>i. l \<le> i \<longrightarrow> i < m \<longrightarrow> dict_key dict off i \<noteq> [ch])"
  by (simp add: linear_seek_def find_upto_Some)

lemma linear_seek_RIGHT: "linear_seek dict l r ch off RIGHT = Some m \<longleftrightarrow>
   l \<le> m \<and> m \<le> r \<and> dict_key dict off m = [ch] \<and> (\<forall>i. m < i \<longrightarrow> i \<le> r \<longrightarrow> dict_key dict off i \<noteq> [ch])"
  by (simp add: linear_seek_def find_rev_upto_Some)

lemma dict_range_step:
  assumes s: "sorted dict" and d: "dict_range dict u l r"
    and L: "linear_seek dict l r ch (length u) LEFT = Some l'"
    and R: "linear_seek dict l' r ch (length u) RIGHT = Some r'"
  shows "dict_range dict (u @ [ch]) l' r'"
proof -
  note mono = dict_range_key_mono [OF s d, unfolded key_mono_def, rule_format]
  have b: "l \<le> l'" "l' \<le> r'" "r' \<le> r" and k: "dict_key dict (length u) l' = [ch]" "dict_key dict (length u) r' = [ch]"
    using L R by (auto simp: linear_seek_LEFT linear_seek_RIGHT)
  have "l' \<le> i \<and> i \<le> r' \<longleftrightarrow> prefix (u @ [ch]) (dict ! nat i)" if i: "0 \<le> i" "i < int (length dict)" for i
  proof
    assume h: "l' \<le> i \<and> i \<le> r'"
    then have "dict_key dict (length u) i = [ch]"
      using mono[of l' i] mono[of i r'] b k by auto
    moreover have "prefix u (dict ! nat i)" using d h b by (auto intro: dict_rangeD)
    ultimately show "prefix (u @ [ch]) (dict ! nat i)" by (simp add: prefix_snoc_key dict_key_item)
  next
    assume h: "prefix (u @ [ch]) (dict ! nat i)"
    then have p: "prefix u (dict ! nat i)" by (rule append_prefixD)
    then have lr: "l \<le> i" "i \<le> r" using d i p unfolding dict_range_def by blast+
    have "dict_key dict (length u) i = [ch]" using h p by (simp add: prefix_snoc_key dict_key_item)
    then show "l' \<le> i \<and> i \<le> r'"
      using L R lr unfolding linear_seek_LEFT linear_seek_RIGHT by (meson linorder_not_le)
  qed
  then show ?thesis using d b unfolding dict_range_def by auto
qed

section \<open>What a dictionary acceptor has read\<close>

definition dict_tracks :: "jsstring list \<Rightarrow> acceptor \<Rightarrow> jsstring \<Rightarrow> bool" where
  "dict_tracks dict a u \<longleftrightarrow>
     (\<exists>l r. body a = Dict_acc dict l r \<and> dict_range dict u l r) \<and> strOffset a = length u \<and>
     \<not> isError a \<and> rtype a = DICT \<and>
     acc_w a = 1 \<and> acc_mw a = None \<and> acc_unk a = None \<and> (isFinal a \<longleftrightarrow> u \<noteq> [] \<and> u \<in> set dict)"

lemma dict_range_Nil: "dict_range dict [] 0 (int (length dict) - 1)"
  by (auto simp: dict_range_def)

lemma dict_tracks_create: "dict_tracks dict (dict_createAcceptor dict) []"
  by (simp add: dict_tracks_def dict_createAcceptor_def dict_range_Nil)

lemma dict_range_final:
  assumes s: "sorted dict" and d: "dict_range dict u l r" and ne: "l \<le> r"
  shows "length (dict ! nat l) = length u \<longleftrightarrow> u \<in> set dict"
proof
  have pl: "prefix u (dict ! nat l)" using dict_rangeD[OF d] ne by simp
  have lb: "0 \<le> l" "l < int (length dict)" using d ne by (auto simp: dict_range_def)
  {
    assume "length (dict ! nat l) = length u"
    with pl have "dict ! nat l = u" by (auto elim!: prefixE)
    then show "u \<in> set dict" using lb by (metis nat_less_iff nth_mem)
  next
    assume "u \<in> set dict"
    then obtain k where k: "k < length dict" "dict ! k = u" by (auto simp: in_set_conv_nth)
    then have "l \<le> int k" using d by (auto simp: dict_range_def dest!: spec[of _ "int k"])
    then have "dict ! nat l \<le> u" using s k lb by (metis nat_le_iff sorted_nth_mono)
    then show "length (dict ! nat l) = length u" using prefix_le_eq [OF pl] by simp
  }
qed

lemma dict_transit_tracks:
  assumes s: "sorted dict" and t: "dict_tracks dict a u" and bd: "body a = Dict_acc dict l r"
  shows "\<exists>a'. dict_transit dict l r a ch = Inr a' \<and>
     (if \<exists>w \<in> set dict. prefix (u @ [ch]) w then dict_tracks dict a' (u @ [ch])
      else isError a')"
proof -
  from t bd have d: "dict_range dict u l r" and off: "strOffset a = length u"
    and err: "\<not> isError a" "rtype a = DICT" "acc_w a = 1" "acc_mw a = None" "acc_unk a = None"
    by (auto simp: dict_tracks_def)
  note mono = dict_range_key_mono [OF s d]
  have rng: "0 \<le> l" "r < int (length dict)" using d by (auto simp: dict_range_def)
  show ?thesis
  proof (cases "linear_seek dict l r ch (length u) LEFT")
    case None
    then have "dict_transit dict l r a ch = Inr (a\<lparr>isError := True\<rparr>)"
      by (simp add: dict_transit_def off dictSeek_linear [OF rng mono])
    moreover have "\<not> prefix (u @ [ch]) w" if w: "w \<in> set dict" for w
    proof
      assume p: "prefix (u @ [ch]) w"
      obtain k where k: "k < length dict" "dict ! k = w" using w by (auto simp: in_set_conv_nth)
      have pu: "prefix u w" using p by (rule append_prefixD)
      then have "l \<le> int k \<and> int k \<le> r" using d k by (auto simp: dict_range_def dest!: spec[of _ "int k"])
      with None have "dict_key dict (length u) (int k) \<noteq> [ch]" by (simp add: linear_seek_None_iff)
      with p pu k show False by (simp add: dict_key_item prefix_snoc_key)
    qed
    ultimately show ?thesis by auto
  next
    case (Some l')
    then have L: "l \<le> l'" "l' \<le> r" "dict_key dict (length u) l' = [ch]" by (auto simp: linear_seek_LEFT)
    have mono': "key_mono dict (length u) l' r" by (rule key_mono_sub [OF mono L(1) order_refl])
    have rng': "0 \<le> l'" using rng L by simp
    have "linear_seek dict l' r ch (length u) RIGHT \<noteq> None" using L by (auto simp: linear_seek_None_iff)
    then obtain r' where R: "linear_seek dict l' r ch (length u) RIGHT = Some r'" by blast
    have d': "dict_range dict (u @ [ch]) l' r'" by (rule dict_range_step [OF s d Some R])
    have lr': "l' \<le> r'" using R by (simp add: linear_seek_RIGHT)
    have ex: "\<exists>w \<in> set dict. prefix (u @ [ch]) w"
      using dict_rangeD[OF d' order_refl lr'] L(2) rng rng' by (metis nat_less_iff nth_mem order_le_less_trans)
    have "dict_transit dict l r a ch = Inr (a\<lparr>body := Dict_acc dict l' r', strOffset := Suc (length u),
        isFinal := (length (dict ! nat l') = Suc (length u))\<rparr>)"
      using rng' L(2) rng
      by (simp add: dict_transit_def off dictSeek_linear [OF rng mono] dictSeek_linear [OF rng' rng(2) mono']
          Some R dict_isFinal_def)
    moreover have "length (dict ! nat l') = Suc (length u) \<longleftrightarrow> u @ [ch] \<in> set dict"
      using dict_range_final [OF s d' lr'] by simp
    ultimately show ?thesis using ex d' err by (simp add: dict_tracks_def)
  qed
qed

section \<open>The dictionary as a rule\<close>

definition dict_step :: "acceptor \<Rightarrow> code_unit \<Rightarrow> js_error + acceptor" where
  "dict_step a ch = (case body a of Dict_acc dict l r \<Rightarrow> dict_transit dict l r a ch | _ \<Rightarrow> Inl TypeError)"

lemma dict_step_tracks:
  assumes "sorted dict" "dict_tracks dict a u"
  shows "\<exists>a'. dict_step a ch = Inr a' \<and>
     (if \<exists>w \<in> set dict. prefix (u @ [ch]) w then dict_tracks dict a' (u @ [ch]) else isError a')"
proof -
  obtain l r where "body a = Dict_acc dict l r" using assms(2) by (auto simp: dict_tracks_def)
  then show ?thesis
    using dict_transit_tracks [OF assms, of l r ch] by (simp add: dict_step_def)
qed

interpretation dict_rule: acceptor_rule "\<lambda>_. Some (dict_createAcceptor (sortuniq words))" dict_step
  "dict_tracks (sortuniq words)" "\<lambda>u. \<exists>w \<in> set (sortuniq words). prefix u w"
  "\<lambda>u. u \<in> set (sortuniq words)" DICT for words
proof (unfold_locales, goal_cases)
  case 1 then show ?case using dict_tracks_create [of "sortuniq words"] by auto
next
  case 2 then show ?case using dict_step_tracks [OF sorted_sortuniq] by blast
next
  case 3 then show ?case by (simp add: dict_tracks_def)
next
  case 4 then show ?case by (simp add: dict_tracks_def)
next
  case 5 then show ?case using append_prefixD by blast
qed

text \<open>Claim C4: whatever list of words the dictionary is built from, feeding a string to its
  acceptor never throws; the acceptor survives exactly while some word extends what was read,
  and it is final exactly when what was read is itself a word of the list.\<close>

theorem dict_acceptor_recognises:
  "\<exists>a. feed dict_step (dict_createAcceptor (sortuniq words)) w = Inr a \<and>
     (\<not> isError a \<longleftrightarrow> w = [] \<or> (\<exists>x \<in> set words. prefix w x)) \<and>
     (isFinal a \<and> \<not> isError a \<longleftrightarrow> w \<noteq> [] \<and> w \<in> set words)"
proof -
  have "w \<in> set words \<Longrightarrow> \<exists>x \<in> set words. prefix w x" by blast
  then show ?thesis
    using dict_rule.feed_recognises [of words "dict_createAcceptor (sortuniq words)" w]
    unfolding set_sortuniq by blast
qed

text \<open>Claim C5: on a sorted dictionary and a range of words with a common prefix, the
  bisection of \<open>dictSeek\<close> finds what a linear scan from the left (or from the right) finds.\<close>

theorem dictSeek_is_linear_scan:
  assumes "sorted dict" "dict_range dict u l r"
  shows "dictSeek dict l r ch (length u) pos None = Inr (linear_seek dict l r ch (length u) pos)"
  using dictSeek_linear [of l r dict "length u" ch pos None] dict_range_key_mono [OF assms] assms(2)
  by (auto simp: dict_range_def split: option.splits)
lemma dictSeek_is_linear_scan_witness:
  "sorted [js ''ab'', js ''ac'', js ''b''] \<and>
   dictSeek [js ''ab'', js ''ac'', js ''b''] 0 2 97 0 RIGHT None = Inr (Some 1)"
proof -
  have s: "sorted [js ''ab'', js ''ac'', js ''b'']"
    by (simp add: js_def of_char_def list_le_def list_less_def)
  have r: "dict_range [js ''ab'', js ''ac'', js ''b''] [] 0 2"
    using dict_range_Nil [of "[js ''ab'', js ''ac'', js ''b'']"] by simp
  have "linear_seek [js ''ab'', js ''ac'', js ''b''] 0 2 97 0 RIGHT = Some 1"
    by (code_simp)
  then show ?thesis
    using s dictSeek_is_linear_scan [OF s r, of 97 RIGHT] by simp
qed

end
