(* ===== verification/Wordcut_Rules.thy ===== *)
theory Wordcut_Rules
  imports Wordcut_Dict
begin

text \<open>
  The rules of the segmenter that need no dictionary: \<open>LatinRules\<close> (module 3: runs of Latin
  letters, digits, spaces, and single symbols) and \<open>ThaiRules\<close> (module 6: the pattern of
  \<open>Rule0\<close> and the partial patterns of \<open>PartRule\<close>).  Each is an interpretation of the contract
  \<open>acceptor_rule\<close>, with the language it recognises written out.
\<close>

section \<open>Latin rules\<close>

definition new_acceptor :: "rule_tag \<Rightarrow> acc_body \<Rightarrow> acceptor" where
  "new_acceptor t b =
     \<lparr>strOffset = 0, isFinal = False, isError = False, tag = t, rtype = t, acc_w = 1,
      acc_mw = None, acc_unk = None, body = b\<rparr>"

text \<open>
  \<open>lch = ch.toLowerCase()\<close> with \<open>lch >= "a" && lch <= "z"\<close>.  The code units whose lower case lies
  in that range are the ASCII letters, U+0130 (which lower-cases to \<open>i\<close> and a combining dot)
  and U+212A (the Kelvin sign, which lower-cases to \<open>k\<close>).
\<close>

definition latin_letter :: "code_unit \<Rightarrow> bool" where
  "latin_letter ch \<longleftrightarrow> (65 \<le> ch \<and> ch \<le> 90) \<or> (97 \<le> ch \<and> ch \<le> 122) \<or> ch = 0x130 \<or> ch = 0x212A"

definition digit :: "code_unit \<Rightarrow> bool" where
  "digit ch \<longleftrightarrow> 48 \<le> ch \<and> ch \<le> 57"

definition space_unit :: "code_unit \<Rightarrow> bool" where
  "space_unit ch \<longleftrightarrow> ch = 32 \<or> ch = 9 \<or> ch = 13 \<or> ch = 10 \<or> ch = 0xA0 \<or> ch = 0x2003"

definition single_symbol :: "code_unit \<Rightarrow> bool" where
  "single_symbol ch \<longleftrightarrow> ch \<in> set (js ''@()/,-.'' @ [34, 96])"

text \<open>The common shape of the \<open>transit\<close> closures: on success the acceptor advances and
  becomes final or not, otherwise it fails and keeps its other fields.\<close>

definition advance :: "bool \<Rightarrow> bool \<Rightarrow> acceptor \<Rightarrow> acceptor" where
  "advance ok fin a =
     (if ok then a\<lparr>isFinal := fin, strOffset := Suc (strOffset a)\<rparr> else a\<lparr>isError := True\<rparr>)"

definition WordRule_createAcceptor :: "tags \<Rightarrow> acceptor option" where
  "WordRule_createAcceptor t =
     (if t WORD_RULE \<noteq> None then None else Some (new_acceptor WORD_RULE Word_acc))"

definition WordRule_transit :: "acceptor \<Rightarrow> code_unit \<Rightarrow> acceptor" where
  "WordRule_transit a ch = advance (latin_letter ch) True a"

definition NumberRule_createAcceptor :: "tags \<Rightarrow> acceptor option" where
  "NumberRule_createAcceptor t =
     (if t NUMBER_RULE \<noteq> None then None else Some (new_acceptor NUMBER_RULE Number_acc))"

definition NumberRule_transit :: "acceptor \<Rightarrow> code_unit \<Rightarrow> acceptor" where
  "NumberRule_transit a ch = advance (digit ch) True a"

definition SpaceRule_createAcceptor :: "tags \<Rightarrow> acceptor option" where
  "SpaceRule_createAcceptor t =
     (if t SPACE_RULE \<noteq> None then None else Some (new_acceptor SPACE_RULE Space_acc))"

definition SpaceRule_transit :: "acceptor \<Rightarrow> code_unit \<Rightarrow> acceptor" where
  "SpaceRule_transit a ch = advance (space_unit ch) True a"

definition SingleSymbolRule_createAcceptor :: "tags \<Rightarrow> acceptor option" where
  "SingleSymbolRule_createAcceptor t = Some (new_acceptor SINSYM Sinsym_acc)"

definition SingleSymbolRule_transit :: "acceptor \<Rightarrow> code_unit \<Rightarrow> acceptor" where
  "SingleSymbolRule_transit a ch = advance (strOffset a = 0 \<and> single_symbol ch) True a"

section \<open>Thai rules\<close>

text \<open>The classes of \<open>isMatch\<close>: U+0E01 and U+0E02, or U+0E21 and U+0E1A, stand for any
  consonant U+0E01 to U+0E2E; the tone mark U+0E49 stands for U+0E48 to U+0E4B.\<close>

definition isMatch :: "jsstring \<Rightarrow> nat \<Rightarrow> code_unit \<Rightarrow> bool" where
  "isMatch pat offset ch =
     (if length pat \<le> offset then False
      else let c = pat ! offset
        in c = ch
         \<or> ((c = 0xE01 \<or> c = 0xE02) \<and> 0xE01 \<le> ch \<and> ch \<le> 0xE2E)
         \<or> ((c = 0xE21 \<or> c = 0xE1A) \<and> 0xE01 \<le> ch \<and> ch \<le> 0xE2E)
         \<or> (c = 0xE49 \<and> 0xE48 \<le> ch \<and> ch \<le> 0xE4B))"

definition Rule0_pat :: jsstring where
  "Rule0_pat = [0xE40, 0xE2B, 0xE01, 0xE47, 0xE21]"

definition Rule0_createAcceptor :: "tags \<Rightarrow> acceptor option" where
  "Rule0_createAcceptor t = Some (new_acceptor THAI_RULE Rule0_acc)"

definition Rule0_transit :: "acceptor \<Rightarrow> code_unit \<Rightarrow> acceptor" where
  "Rule0_transit a ch =
     advance (isMatch Rule0_pat (strOffset a) ch) (strOffset a + 1 = length Rule0_pat) a"

definition PartRule_patterns :: "jsstring list" where
  "PartRule_patterns =
     [[0xE41, 0xE01], [0xE40, 0xE01], [0xE01, 0xE49], [0xE01, 0xE01, 0xE4C], [0xE01, 0xE32],
      [0xE01, 0xE35], [0xE01, 0xE34], [0xE01, 0xE37, 0xE01]]"

definition PartRule_createAcceptor :: "tags \<Rightarrow> acceptor option" where
  "PartRule_createAcceptor t =
     Some ((new_acceptor PART (Part_acc PartRule_patterns))\<lparr>acc_unk := Some 1\<rparr>)"

definition PartRule_transit :: "jsstring list \<Rightarrow> acceptor \<Rightarrow> code_unit \<Rightarrow> acceptor" where
  "PartRule_transit patterns a ch =
     (let offset = strOffset a;
          patterns' = filter (\<lambda>pat. isMatch pat offset ch) patterns;
          a' = a\<lparr>body := Part_acc patterns'\<rparr>
      in if 0 < length patterns'
         then a'\<lparr>isFinal := list_ex (\<lambda>pat. length pat = 1 + offset) patterns',
                 strOffset := Suc offset\<rparr>
         else a'\<lparr>isError := True\<rparr>)"

section \<open>Dispatch\<close>

text \<open>The objects the segmenter keeps in \<open>creators\<close>, and the calls \<open>creator.createAcceptor(tag)\<close>
  and \<open>acceptor.transit(ch)\<close>.\<close>

datatype creator = WordRule | SpaceRule | SingleSymbolRule | NumberRule | Rule0 | PartRule
  | DictCreator "jsstring list"

definition LatinRules :: "creator list" where
  "LatinRules = [WordRule, SpaceRule, SingleSymbolRule, NumberRule]"

definition ThaiRules :: "creator list" where
  "ThaiRules = [Rule0, PartRule]"

fun createAcceptor :: "creator \<Rightarrow> tags \<Rightarrow> acceptor option" where
  "createAcceptor WordRule t = WordRule_createAcceptor t"
| "createAcceptor SpaceRule t = SpaceRule_createAcceptor t"
| "createAcceptor SingleSymbolRule t = SingleSymbolRule_createAcceptor t"
| "createAcceptor NumberRule t = NumberRule_createAcceptor t"
| "createAcceptor Rule0 t = Rule0_createAcceptor t"
| "createAcceptor PartRule t = PartRule_createAcceptor t"
| "createAcceptor (DictCreator dict) t = Some (dict_createAcceptor dict)"

definition acceptor_transit :: "acceptor \<Rightarrow> code_unit \<Rightarrow> js_error + acceptor" where
  "acceptor_transit a ch =
     (case body a of
        Dict_acc dict l r \<Rightarrow> dict_transit dict l r a ch
      | Word_acc \<Rightarrow> Inr (WordRule_transit a ch)
      | Number_acc \<Rightarrow> Inr (NumberRule_transit a ch)
      | Space_acc \<Rightarrow> Inr (SpaceRule_transit a ch)
      | Sinsym_acc \<Rightarrow> Inr (SingleSymbolRule_transit a ch)
      | Rule0_acc \<Rightarrow> Inr (Rule0_transit a ch)
      | Part_acc ps \<Rightarrow> Inr (PartRule_transit ps a ch))"

section \<open>The languages of the rules\<close>

definition pat_begins :: "jsstring \<Rightarrow> jsstring \<Rightarrow> bool" where
  "pat_begins pat u \<longleftrightarrow> (\<forall>i < length u. isMatch pat i (u ! i))"

fun rule_live :: "creator \<Rightarrow> jsstring \<Rightarrow> bool" where
  "rule_live WordRule u = list_all latin_letter u"
| "rule_live SpaceRule u = list_all space_unit u"
| "rule_live SingleSymbolRule u = (length u \<le> 1 \<and> list_all single_symbol u)"
| "rule_live NumberRule u = list_all digit u"
| "rule_live Rule0 u = pat_begins Rule0_pat u"
| "rule_live PartRule u = (\<exists>pat \<in> set PartRule_patterns. pat_begins pat u)"
| "rule_live (DictCreator dict) u = (\<exists>w \<in> set dict. prefix u w)"

fun rule_accepts :: "creator \<Rightarrow> jsstring \<Rightarrow> bool" where
  "rule_accepts Rule0 u = (pat_begins Rule0_pat u \<and> length u = length Rule0_pat)"
| "rule_accepts PartRule u =
     (\<exists>pat \<in> set PartRule_patterns. pat_begins pat u \<and> length u = length pat)"
| "rule_accepts (DictCreator dict) u = (u \<in> set dict)"
| "rule_accepts c u = rule_live c u"

fun rule_kind :: "creator \<Rightarrow> rule_tag" where
  "rule_kind WordRule = WORD_RULE"
| "rule_kind SpaceRule = SPACE_RULE"
| "rule_kind SingleSymbolRule = SINSYM"
| "rule_kind NumberRule = NUMBER_RULE"
| "rule_kind Rule0 = THAI_RULE"
| "rule_kind PartRule = PART"
| "rule_kind (DictCreator dict) = DICT"

definition rule_body :: "creator \<Rightarrow> jsstring \<Rightarrow> acc_body \<Rightarrow> bool" where
  "rule_body c u b =
     (case c of
        WordRule \<Rightarrow> b = Word_acc
      | SpaceRule \<Rightarrow> b = Space_acc
      | SingleSymbolRule \<Rightarrow> b = Sinsym_acc
      | NumberRule \<Rightarrow> b = Number_acc
      | Rule0 \<Rightarrow> b = Rule0_acc
      | PartRule \<Rightarrow> b = Part_acc (filter (\<lambda>pat. pat_begins pat u) PartRule_patterns)
      | DictCreator dict \<Rightarrow> (\<exists>l r. b = Dict_acc dict l r \<and> dict_range dict u l r))"

text \<open>What an acceptor of a rule that has read \<open>u\<close> looks like.\<close>

definition rule_tracks :: "creator \<Rightarrow> acceptor \<Rightarrow> jsstring \<Rightarrow> bool" where
  "rule_tracks c a u \<longleftrightarrow>
     strOffset a = length u \<and> \<not> isError a \<and> rtype a = rule_kind c \<and> rule_body c u (body a) \<and>
     acc_w a = 1 \<and> acc_mw a = None \<and> acc_unk a = (if c = PartRule then Some 1 else None) \<and>
     (u = [] \<or> rule_live c u) \<and> (isFinal a \<longleftrightarrow> u \<noteq> [] \<and> rule_accepts c u)"

section \<open>Every rule meets the contract\<close>

definition rule_ok :: "creator \<Rightarrow> bool" where
  "rule_ok c = (case c of DictCreator dict \<Rightarrow> sorted dict | _ \<Rightarrow> True)"

lemma pat_begins_Nil [simp]: "pat_begins pat []"
  by (simp add: pat_begins_def)

lemma pat_begins_snoc [simp]:
  "pat_begins pat (u @ [ch]) \<longleftrightarrow> pat_begins pat u \<and> isMatch pat (length u) ch"
  by (auto simp: pat_begins_def nth_append less_Suc_eq)

lemma pat_begins_length: "pat_begins pat u \<Longrightarrow> length u \<le> length pat"
  by (cases u rule: rev_cases) (auto simp: isMatch_def split: if_splits)

lemma pat_begins_prefix: "pat_begins pat (u @ v) \<Longrightarrow> pat_begins pat u"
  by (auto simp: pat_begins_def nth_append split: if_splits)

lemma rule_live_prefix: "rule_live c (u @ v) \<Longrightarrow> rule_live c u"
  by (cases c) (auto dest: pat_begins_prefix append_prefixD)

lemma rule_create_tracks: "createAcceptor c t = Some a \<Longrightarrow> rule_tracks c a []"
  by (cases c)
    (auto simp: rule_tracks_def rule_body_def new_acceptor_def dict_createAcceptor_def dict_range_Nil
      WordRule_createAcceptor_def SpaceRule_createAcceptor_def NumberRule_createAcceptor_def
      SingleSymbolRule_createAcceptor_def Rule0_createAcceptor_def PartRule_createAcceptor_def
      split: if_splits)

lemmas rule_transit_defs = acceptor_transit_def advance_def WordRule_transit_def
  SpaceRule_transit_def NumberRule_transit_def SingleSymbolRule_transit_def Rule0_transit_def

lemma part_step:
  assumes "rule_tracks PartRule a u"
  shows "\<exists>a'. acceptor_transit a ch = Inr a' \<and>
    (if rule_live PartRule (u @ [ch]) then rule_tracks PartRule a' (u @ [ch]) else isError a')"
proof -
  let ?ps = "filter (\<lambda>pat. pat_begins pat (u @ [ch])) PartRule_patterns"
  have "acceptor_transit a ch =
      Inr (if ?ps \<noteq> [] then a\<lparr>body := Part_acc ?ps, isFinal := list_ex (\<lambda>pat. length pat = 1 + length u) ?ps,
        strOffset := Suc (length u)\<rparr> else a\<lparr>body := Part_acc [], isError := True\<rparr>)"
    using assms by (auto simp: acceptor_transit_def PartRule_transit_def rule_tracks_def rule_body_def Let_def
        intro!: filter_cong arg_cong [of _ _ "list_ex _"])
  moreover have "?ps \<noteq> [] \<longleftrightarrow> rule_live PartRule (u @ [ch])"
    by (auto simp: filter_empty_conv)
  moreover have "list_ex (\<lambda>pat. length pat = 1 + length u) ?ps \<longleftrightarrow> rule_accepts PartRule (u @ [ch])"
    by (auto simp: list_ex_iff)
  ultimately show ?thesis
    using assms by (auto simp: rule_tracks_def rule_body_def simp del: rule_accepts.simps)
qed

lemma rule_step_tracks:
  assumes "rule_ok c" "rule_tracks c a u"
  shows "\<exists>a'. acceptor_transit a ch = Inr a' \<and>
    (if rule_live c (u @ [ch]) then rule_tracks c a' (u @ [ch]) else isError a')"
proof (cases c)
  case PartRule
  then show ?thesis using part_step [of a u ch] assms(2) by blast
next
  case (DictCreator dict)
  then have s: "sorted dict" and t: "dict_tracks dict a u"
    using assms by (auto simp: rule_ok_def rule_tracks_def rule_body_def dict_tracks_def)
  then have "acceptor_transit a ch = dict_step a ch"
    by (auto simp: acceptor_transit_def dict_step_def dict_tracks_def)
  moreover have "dict_tracks dict a' (u @ [ch]) \<Longrightarrow> \<exists>w \<in> set dict. prefix (u @ [ch]) w \<Longrightarrow>
      rule_tracks c a' (u @ [ch])" for a'
    using DictCreator by (auto simp: rule_tracks_def rule_body_def dict_tracks_def)
  ultimately show ?thesis
    using dict_step_tracks [OF s t, of ch] DictCreator by (auto split: if_splits)
qed (use assms(2) in \<open>auto simp: rule_transit_defs rule_tracks_def rule_body_def\<close>)

lemma acceptor_rule_rule:
  assumes "rule_ok c"
  shows "acceptor_rule (createAcceptor c) acceptor_transit (rule_tracks c) (rule_live c)
    (rule_accepts c) (rule_kind c)"
proof (unfold_locales, goal_cases)
  case 1 then show ?case by (rule rule_create_tracks)
next
  case 2 then show ?case by (rule rule_step_tracks [OF assms])
next
  case 3 then show ?case by (simp add: rule_tracks_def)
next
  case 4 then show ?case by (simp add: rule_tracks_def)
next
  case 5 then show ?case by (rule rule_live_prefix)
qed

text \<open>The creators in the order \<open>Wordcut.init\<close> pushes them, over a finalized dictionary.\<close>

definition wordcut_creators :: "jsstring list \<Rightarrow> creator list" where
  "wordcut_creators words = LatinRules @ ThaiRules @ [DictCreator words]"

lemma wordcut_creators_ok: "c \<in> set (wordcut_creators (sortuniq words)) \<Longrightarrow> rule_ok c"
  by (auto simp: wordcut_creators_def LatinRules_def ThaiRules_def rule_ok_def sorted_sortuniq)

interpretation word_rule: acceptor_rule "createAcceptor WordRule" acceptor_transit
  "rule_tracks WordRule" "rule_live WordRule" "rule_accepts WordRule" WORD_RULE
  using acceptor_rule_rule [of WordRule] by (simp add: rule_ok_def)

interpretation part_rule: acceptor_rule "createAcceptor PartRule" acceptor_transit
  "rule_tracks PartRule" "rule_live PartRule" "rule_accepts PartRule" PART
  using acceptor_rule_rule [of PartRule] by (simp add: rule_ok_def)

text \<open>Claim C9: every rule the segmenter installs recognises its own language.  Fed with a
  string, an acceptor fresh from \<open>createAcceptor\<close> never throws, is alive exactly while the
  string begins a match, and is final exactly on the matches: runs of Latin letters, of
  digits, of spaces, one symbol, the Thai patterns, the words of the dictionary.\<close>

theorem rule_recognises:
  assumes "c \<in> set (wordcut_creators (sortuniq words))" and "createAcceptor c t = Some a"
  shows "\<exists>a'. feed acceptor_transit a w = Inr a' \<and>
    (\<not> isError a' \<longleftrightarrow> w = [] \<or> rule_live c w) \<and>
    (isFinal a' \<and> \<not> isError a' \<longleftrightarrow> w \<noteq> [] \<and> (rule_live c w \<and> rule_accepts c w))"
  by (rule acceptor_rule.feed_recognises
      [OF acceptor_rule_rule [OF wordcut_creators_ok [OF assms(1)]] assms(2)])

lemma rule_recognises_witness:
  "\<exists>a'. feed acceptor_transit (new_acceptor NUMBER_RULE Number_acc) (js ''42'') = Inr a' \<and>
    isFinal a' \<and> \<not> isError a'"
proof -
  have c: "NumberRule \<in> set (wordcut_creators (sortuniq []))"
    by (simp add: wordcut_creators_def LatinRules_def)
  have a: "createAcceptor NumberRule Map.empty = Some (new_acceptor NUMBER_RULE Number_acc)"
    by (simp add: NumberRule_createAcceptor_def)
  have "rule_live NumberRule (js ''42'')"
    by (simp add: js_def of_char_def digit_def)
  then show ?thesis
    using rule_recognises [OF c a, of "js ''42''"] by (auto simp: js_def)
qed

end
