(* ===== verification/Wordcut_Core.thy ===== *)
theory Wordcut_Core
  imports Wordcut_Rules
begin

text \<open>
  The segmenter itself: the set of running acceptors (module 1, \<open>Acceptors\<close>), the path
  records (modules 4 and 5, \<open>PathInfoBuilder\<close> and \<open>PathSelector\<close>) and the loops of
  \<open>WordcutCore\<close> (module 8).  The path has one record per position of the text; the record at
  \<open>j\<close> points back to the start \<open>p\<close> of the segment that ends at \<open>j\<close>.
\<close>

section \<open>Running acceptors\<close>

record acceptors =
  creators :: "creator list"
  current :: "acceptor list"
  tag_map :: tags

definition acceptors_init :: acceptors where
  "acceptors_init = \<lparr>creators = [], current = [], tag_map = Map.empty\<rparr>"

definition acceptors_reset :: "acceptors \<Rightarrow> acceptors" where
  "acceptors_reset s = s\<lparr>current := [], tag_map := Map.empty\<rparr>"

fun transit_loop ::
  "acceptor list \<Rightarrow> code_unit \<Rightarrow> acceptor list \<Rightarrow> tags \<Rightarrow> js_error + acceptor list \<times> tags" where
  "transit_loop [] ch cur t = Inr (cur, t)"
| "transit_loop (a # as) ch cur t =
     bind_js (acceptor_transit a ch) (\<lambda>a'.
       if \<not> isError a' then transit_loop as ch (cur @ [a']) (t(tag a' \<mapsto> a'))
       else transit_loop as ch cur t)"

definition acceptors_transit :: "acceptors \<Rightarrow> code_unit \<Rightarrow> js_error + acceptors" where
  "acceptors_transit s ch =
     (let cur = current s @ List.map_filter (\<lambda>c. createAcceptor c (tag_map s)) (creators s)
      in bind_js (transit_loop cur ch [] Map.empty) (\<lambda>(cur', t').
           Inr (s\<lparr>current := cur', tag_map := t'\<rparr>)))"

definition getFinalAcceptors :: "acceptors \<Rightarrow> acceptor list" where
  "getFinalAcceptors s = filter isFinal (current s)"

section \<open>Path records\<close>

record path_info =
  pi_p :: "nat option"
  pi_mw :: nat
  pi_w :: nat
  pi_unk :: nat
  pi_type :: rule_tag
  pi_merge :: "nat option"

type_synonym path = "path_info list"

text \<open>\<open>for (j = p + 1; j <= i; j++) path[j].merge = p\<close>.\<close>

definition set_merge :: "path \<Rightarrow> nat \<Rightarrow> nat \<Rightarrow> js_error + path" where
  "set_merge path p i =
     (if p < i \<and> length path \<le> i then Inl TypeError
      else Inr (fold (\<lambda>j ps. ps[j := (ps ! j)\<lparr>pi_merge := Some p\<rparr>]) [Suc p..<Suc i] path))"

definition acceptor_info :: "acceptor \<Rightarrow> nat \<Rightarrow> path_info \<Rightarrow> path_info" where
  "acceptor_info a p info =
     \<lparr>pi_p = Some p,
      pi_mw = pi_mw info + (case acc_mw a of None \<Rightarrow> 0 | Some n \<Rightarrow> n),
      pi_w = acc_w a + pi_w info,
      pi_unk = (case acc_unk a of None \<Rightarrow> 0 | Some n \<Rightarrow> n) + pi_unk info,
      pi_type = rtype a,
      pi_merge = None\<rparr>"

text \<open>The callback of \<open>map\<close> updates the path in place, so the path is threaded through.  The
  final \<open>filter\<close> of the source drops falsy entries; an object is never falsy.\<close>

fun buildByAcceptors ::
  "path \<Rightarrow> acceptor list \<Rightarrow> nat \<Rightarrow> js_error + path \<times> path_info list" where
  "buildByAcceptors path [] i = Inr (path, [])"
| "buildByAcceptors path (a # as) i =
     (if i + 1 < strOffset a \<or> length path \<le> i + 1 - strOffset a then Inl TypeError
      else let p = i + 1 - strOffset a;
               info = acceptor_info a p (path ! p)
        in if rtype a = PART
           then bind_js (set_merge path p i) (\<lambda>path'.
                  bind_js (buildByAcceptors path' as i) (\<lambda>(path'', infos).
                    Inr (path'', info\<lparr>pi_merge := Some p\<rparr> # infos)))
           else bind_js (buildByAcceptors path as i) (\<lambda>(path'', infos).
                  Inr (path'', info # infos)))"

text \<open>The class tested on \<open>text[i]\<close>, U+0E48 to U+0E4E: a tone mark or another mark above the
  consonant.\<close>

definition above_mark :: "code_unit \<Rightarrow> bool" where
  "above_mark c \<longleftrightarrow> 0xE48 \<le> c \<and> c \<le> 0xE4E"

definition fallback :: "path \<Rightarrow> nat \<Rightarrow> jsstring \<Rightarrow> nat \<Rightarrow> js_error + path_info" where
  "fallback path leftBoundary text i =
     (if length text \<le> i \<or> length path \<le> leftBoundary then Inl TypeError
      else let info = path ! leftBoundary
        in if above_mark (text ! i)
           then Inr \<lparr>pi_p = (if leftBoundary \<noteq> 0 then pi_p (path ! leftBoundary)
                              else Some leftBoundary),
                     pi_mw = 0, pi_w = 1 + pi_w info, pi_unk = 1 + pi_unk info,
                     pi_type = UNK, pi_merge = None\<rparr>
           else Inr \<lparr>pi_p = Some leftBoundary, pi_mw = pi_mw info, pi_w = 1 + pi_w info,
                     pi_unk = 1 + pi_unk info, pi_type = UNK, pi_merge = None\<rparr>)"

definition build ::
  "path \<Rightarrow> acceptor list \<Rightarrow> nat \<Rightarrow> nat \<Rightarrow> jsstring \<Rightarrow> js_error + path \<times> path_info list" where
  "build path finals i leftBoundary text =
     bind_js (buildByAcceptors path finals i) (\<lambda>(path', infos).
       if 0 < length infos then Inr (path', infos)
       else bind_js (fallback path' leftBoundary text i) (\<lambda>info. Inr (path', [info])))"

definition select_step :: "path_info option \<Rightarrow> path_info \<Rightarrow> path_info option" where
  "select_step sel q =
     (case sel of
        None \<Rightarrow> Some q
      | Some s \<Rightarrow>
          if pi_unk q < pi_unk s then Some q
          else if pi_unk q = pi_unk s \<and> pi_mw q < pi_mw s then Some q
          else if pi_unk q = pi_unk s \<and> pi_mw q = pi_mw s \<and> pi_w q < pi_w s then Some q
          else sel)"

definition selectPath :: "path_info list \<Rightarrow> path_info option" where
  "selectPath paths = foldl select_step None paths"

definition createPath :: path where
  "createPath =
     [\<lparr>pi_p = None, pi_mw = 0, pi_w = 0, pi_unk = 0, pi_type = INIT, pi_merge = None\<rparr>]"

section \<open>The main loops\<close>

record build_state =
  bs_acc :: acceptors
  bs_path :: path
  bs_left :: nat

text \<open>One pass of the loop of \<open>buildPath\<close>, at index \<open>i\<close>.\<close>

definition buildPath_step :: "jsstring \<Rightarrow> nat \<Rightarrow> build_state \<Rightarrow> js_error + build_state" where
  "buildPath_step text i s =
     bind_js (acceptors_transit (bs_acc s) (text ! i)) (\<lambda>acc.
       bind_js (build (bs_path s) (getFinalAcceptors acc) i (bs_left s) text) (\<lambda>(path, infos).
         case selectPath infos of
           None \<Rightarrow> Inl TypeError
         | Some info \<Rightarrow>
             Inr \<lparr>bs_acc = acc, bs_path = path @ [info],
                  bs_left = (if pi_type info \<noteq> UNK then i else bs_left s)\<rparr>))"

fun buildPath_loop :: "jsstring \<Rightarrow> nat list \<Rightarrow> build_state \<Rightarrow> js_error + build_state" where
  "buildPath_loop text [] s = Inr s"
| "buildPath_loop text (i # is) s =
     bind_js (buildPath_step text i s) (\<lambda>s'. buildPath_loop text is s')"

definition buildPath :: "acceptors \<Rightarrow> jsstring \<Rightarrow> js_error + acceptors \<times> path" where
  "buildPath accs text =
     bind_js (buildPath_loop text [0..<length text]
        \<lparr>bs_acc = acceptors_reset accs, bs_path = createPath, bs_left = 0\<rparr>) (\<lambda>s.
       Inr (bs_acc s, bs_path s))"

record range =
  r_s :: "nat option"
  r_e :: nat

text \<open>\<open>null\<close> is \<open>None\<close>; as an index and in \<open>e > 0\<close> it counts as 0.\<close>

definition null_index :: "nat option \<Rightarrow> nat" where
  "null_index s = (case s of None \<Rightarrow> 0 | Some n \<Rightarrow> n)"

text \<open>The \<open>while (e > 0)\<close> loop.  It ends only if the back pointers descend, so that not
  returning is the value \<open>None\<close>.\<close>

partial_function (option) ranges_loop ::
  "path \<Rightarrow> nat \<Rightarrow> range list \<Rightarrow> (js_error + range list) option" where
  "ranges_loop path e ranges =
     (if 0 < e then
        if length path \<le> e then Some (Inl TypeError)
        else let info = path ! e
          in case (pi_merge info, ranges) of
               (Some q, _ # _) \<Rightarrow>
                 ranges_loop path q (butlast ranges @ [(last ranges)\<lparr>r_s := Some q\<rparr>])
             | _ \<Rightarrow> ranges_loop path (null_index (pi_p info))
                     (ranges @ [\<lparr>r_s = pi_p info, r_e = e\<rparr>])
      else Some (Inr (rev ranges)))"

declare ranges_loop.simps [code]

definition pathToRanges :: "path \<Rightarrow> (js_error + range list) option" where
  "pathToRanges path = ranges_loop path (length path - 1) []"

definition range_text :: "jsstring \<Rightarrow> range \<Rightarrow> jsstring" where
  "range_text text r = substring text (null_index (r_s r)) (r_e r)"

definition rangesToText :: "jsstring \<Rightarrow> range list \<Rightarrow> jsstring \<Rightarrow> jsstring" where
  "rangesToText text ranges delimiter = join (map (range_text text) ranges) delimiter"

text \<open>The three entry points share the computation of the ranges.\<close>

definition cut_ranges ::
  "acceptors \<Rightarrow> jsstring \<Rightarrow> (js_error + acceptors \<times> range list) option" where
  "cut_ranges accs text =
     (case buildPath accs text of
        Inl e \<Rightarrow> Some (Inl e)
      | Inr (accs', path) \<Rightarrow>
          map_option (\<lambda>res. bind_js res (\<lambda>ranges. Inr (accs', ranges))) (pathToRanges path))"

definition cut ::
  "acceptors \<Rightarrow> jsstring \<Rightarrow> jsstring option \<Rightarrow> (js_error + acceptors \<times> jsstring) option" where
  "cut accs text delimiter =
     map_option (\<lambda>res. bind_js res (\<lambda>(accs', ranges).
         Inr (accs', rangesToText text ranges
           (case delimiter of None \<Rightarrow> js ''|'' | Some d \<Rightarrow> d))))
       (cut_ranges accs text)"

definition cutIntoRanges ::
  "acceptors \<Rightarrow> jsstring \<Rightarrow> bool
     \<Rightarrow> (js_error + acceptors \<times> (range \<times> jsstring option) list) option" where
  "cutIntoRanges accs text noText =
     map_option (\<lambda>res. bind_js res (\<lambda>(accs', ranges).
         Inr (accs', map (\<lambda>r. (r, if noText then None else Some (range_text text r))) ranges)))
       (cut_ranges accs text)"

definition cutIntoArray ::
  "acceptors \<Rightarrow> jsstring \<Rightarrow> (js_error + acceptors \<times> jsstring list) option" where
  "cutIntoArray accs text =
     map_option (\<lambda>res. bind_js res (\<lambda>(accs', ranges).
         Inr (accs', map (range_text text) ranges)))
       (cut_ranges accs text)"

end
