(* ===== verification/Wordcut_Correct.thy ===== *)
theory Wordcut_Correct
  imports Wordcut_Core
begin

text \<open>
  Correctness of the segmenter.  The locale \<open>rule_set\<close> states what the main loop needs of a
  list of rules (each meets \<open>acceptor_rule\<close>) and carries the invariant of the loop: every
  running acceptor has read a suffix of the text, no match of an eager rule is missed, every
  path record is justified, and the cost at each position is minimal over dictionary
  segmentations.  It is interpreted on the rules \<open>Wordcut.init\<close> installs.  The back pointers
  descend, so \<open>pathToRanges\<close> ends and its ranges partition the text.
\<close>

section \<open>Choosing the best record\<close>

text \<open>The lexicographic order the selector minimises.\<close>
definition cost_le :: "path_info \<Rightarrow> path_info \<Rightarrow> bool" where
  "cost_le a b \<longleftrightarrow> pi_unk a < pi_unk b \<or> (pi_unk a = pi_unk b \<and>
     (pi_mw a < pi_mw b \<or> (pi_mw a = pi_mw b \<and> pi_w a \<le> pi_w b)))"

lemma cost_le_refl [simp]: "cost_le a a"
  by (simp add: cost_le_def)

lemma cost_le_trans: "cost_le a b \<Longrightarrow> cost_le b c \<Longrightarrow> cost_le a c"
  by (auto simp: cost_le_def)

lemma select_step_Some:
  "\<exists>t. select_step (Some s) q = Some t \<and> (t = s \<or> t = q) \<and> cost_le t s \<and> cost_le t q"
  by (auto simp: select_step_def cost_le_def)

lemma foldl_select:
  "\<exists>t. foldl select_step (Some s) qs = Some t \<and> t \<in> insert s (set qs) \<and> cost_le t s \<and>
     (\<forall>q \<in> set qs. cost_le t q)"
proof (induction qs arbitrary: s)
  case Nil
  then show ?case by simp
next
  case (Cons q qs)
  obtain t where t: "select_step (Some s) q = Some t" "t = s \<or> t = q" "cost_le t s" "cost_le t q"
    using select_step_Some by blast
  obtain t' where t': "foldl select_step (Some t) qs = Some t'" "t' \<in> insert t (set qs)"
    "cost_le t' t" "\<forall>q \<in> set qs. cost_le t' q"
    using Cons by blast
  then show ?case using t by (auto intro: cost_le_trans)
qed

lemma selectPath_minimal:
  assumes "paths \<noteq> []"
  shows "\<exists>t. selectPath paths = Some t \<and> t \<in> set paths \<and> (\<forall>q \<in> set paths. cost_le t q)"
proof -
  obtain q qs where "paths = q # qs" using assms by (cases paths) auto
  then show ?thesis
    using foldl_select [of q qs] by (auto simp: selectPath_def select_step_def)
qed

section \<open>Running acceptors\<close>

lemma transit_loop_total:
  assumes "\<forall>a \<in> set as. \<exists>a'. acceptor_transit a ch = Inr a'"
  shows "\<exists>t'. transit_loop as ch cur t =
    Inr (cur @ filter (\<lambda>a. \<not> isError a) (map (\<lambda>a. projr (acceptor_transit a ch)) as), t')"
  using assms
proof (induction as arbitrary: cur t)
  case Nil
  then show ?case by simp
next
  case (Cons a as)
  then obtain a' where "acceptor_transit a ch = Inr a'" by auto
  moreover have IH: "\<exists>t'. transit_loop as ch cur' u =
      Inr (cur' @ filter (\<lambda>a. \<not> isError a) (map (\<lambda>a. projr (acceptor_transit a ch)) as), t')" for cur' u
    using Cons by simp
  ultimately show ?case
    using IH [of cur t] IH [of "cur @ [a']" "t(tag a' \<mapsto> a')"]
    by (cases "isError a'") simp_all
qed

locale rule_set =
  fixes rules :: "creator list"
    and tracks :: "creator \<Rightarrow> acceptor \<Rightarrow> jsstring \<Rightarrow> bool"
    and live :: "creator \<Rightarrow> jsstring \<Rightarrow> bool"
    and accepts :: "creator \<Rightarrow> jsstring \<Rightarrow> bool"
    and kind :: "creator \<Rightarrow> rule_tag"
  assumes rules_ok: "c \<in> set rules \<Longrightarrow>
      acceptor_rule (createAcceptor c) acceptor_transit (tracks c) (live c) (accepts c) (kind c)"
    and kind_not_UNK: "c \<in> set rules \<Longrightarrow> kind c \<noteq> UNK"
begin

text \<open>Every running acceptor has read a suffix of the text read so far.\<close>

definition reads :: "jsstring \<Rightarrow> nat \<Rightarrow> acceptor \<Rightarrow> bool" where
  "reads text k a \<longleftrightarrow>
     (\<exists>c \<in> set rules. \<exists>p \<le> k. tracks c a (slice text p k))"

definition all_read :: "jsstring \<Rightarrow> nat \<Rightarrow> acceptors \<Rightarrow> bool" where
  "all_read text k s \<longleftrightarrow> creators s = rules \<and> (\<forall>a \<in> set (current s). reads text k a)"

text \<open>A rule that never declines has an acceptor for every match in progress.\<close>

definition eager :: "creator \<Rightarrow> bool" where
  "eager c \<longleftrightarrow> (\<forall>t. createAcceptor c t \<noteq> None)"

definition none_missed :: "jsstring \<Rightarrow> nat \<Rightarrow> acceptors \<Rightarrow> bool" where
  "none_missed text k s \<longleftrightarrow>
     (\<forall>c \<in> set rules. eager c \<longrightarrow>
       (\<forall>p < k. live c (slice text p k) \<longrightarrow> (\<exists>a \<in> set (current s). tracks c a (slice text p k))))"

lemma reads_step:
  assumes "reads text k a" "k < length text"
  shows "\<exists>a'. acceptor_transit a (text ! k) = Inr a' \<and> (\<not> isError a' \<longrightarrow> reads text (Suc k) a')"
proof -
  obtain c p where c: "c \<in> set rules" "p \<le> k" "tracks c a (slice text p k)"
    using assms(1) by (auto simp: reads_def)
  then show ?thesis
    using acceptor_rule.step_tracks [OF rules_ok [OF c(1)] c(3), of "text ! k"] assms(2)
    by (auto simp: reads_def slice_Suc split: if_splits) (metis le_SucI slice_Suc)+
qed

lemma created_reads:
  assumes "c \<in> set rules" "createAcceptor c t = Some a"
  shows "tracks c a (slice text k k)"
  using acceptor_rule.create_tracks [OF rules_ok [OF assms(1)] assms(2)] by simp

lemma acceptors_transit_ok:
  assumes "all_read text k s" "k < length text"
  shows "\<exists>s'. acceptors_transit s (text ! k) = Inr s' \<and> all_read text (Suc k) s' \<and>
    (none_missed text k s \<longrightarrow> none_missed text (Suc k) s')"
proof -
  let ?new = "List.map_filter (\<lambda>c. createAcceptor c (tag_map s)) (creators s)"
  let ?cur = "current s @ ?new"
  have cur: "\<forall>a \<in> set ?cur. reads text k a"
    using assms(1) created_reads [of _ "tag_map s"]
    by (auto simp: all_read_def set_map_filter reads_def) (metis le_refl slice_refl)
  then have total: "\<forall>a \<in> set ?cur. \<exists>a'. acceptor_transit a (text ! k) = Inr a'"
    using reads_step assms(2) by blast
  let ?cur' = "filter (\<lambda>a. \<not> isError a) (map (\<lambda>a. projr (acceptor_transit a (text ! k))) ?cur)"
  obtain t' where t': "transit_loop ?cur (text ! k) [] Map.empty = Inr (?cur', t')"
    using transit_loop_total [OF total, of "[]" Map.empty] by auto
  let ?s = "s\<lparr>current := ?cur', tag_map := t'\<rparr>"
  have eq: "acceptors_transit s (text ! k) = Inr ?s"
    by (simp add: acceptors_transit_def Let_def t' del: map_append filter_append)
  have "all_read text (Suc k) ?s"
    using assms(1) cur reads_step [OF _ assms(2)] by (fastforce simp: all_read_def)
  moreover have "none_missed text (Suc k) ?s" if nm: "none_missed text k s"
    unfolding none_missed_def
  proof (intro ballI impI allI)
    fix c p
    assume c: "c \<in> set rules" "eager c" and p: "p < Suc k" and l: "live c (slice text p (Suc k))"
    have sl: "slice text p (Suc k) = slice text p k @ [text ! k]"
      using p assms(2) by (simp add: slice_Suc)
    have "\<exists>a \<in> set ?cur. tracks c a (slice text p k)"
    proof (cases "p = k")
      case True
      obtain a where a: "createAcceptor c (tag_map s) = Some a" using c(2) by (auto simp: eager_def)
      then have "a \<in> set ?new" using c(1) assms(1) by (auto simp: all_read_def set_map_filter)
      then show ?thesis using created_reads [OF c(1) a, of "text" k] True by auto
    next
      case False
      have "p < k" using p False by simp
      moreover have "live c (slice text p k)"
        using acceptor_rule.live_prefix [OF rules_ok [OF c(1)]] l unfolding sl by blast
      ultimately obtain a where "a \<in> set (current s)" "tracks c a (slice text p k)"
        using nm c unfolding none_missed_def by blast
      then show ?thesis by auto
    qed
    then obtain a where a: "a \<in> set ?cur" "tracks c a (slice text p k)" by blast
    obtain a' where a': "acceptor_transit a (text ! k) = Inr a'" "tracks c a' (slice text p (Suc k))"
      using acceptor_rule.step_tracks [OF rules_ok [OF c(1)] a(2), of "text ! k"] l sl by auto
    have "\<not> isError a'" using acceptor_rule.tracks_offset [OF rules_ok [OF c(1)] a'(2)] by blast
    then have "a' \<in> set ?cur'" using a(1) a'(1) by force
    then show "\<exists>a \<in> set (current ?s). tracks c a (slice text p (Suc k))" using a'(2) by auto
  qed
  ultimately show ?thesis using eq by blast
qed
end

section \<open>Path records\<close>

text \<open>A record without its \<open>merge\<close> mark, which \<open>buildByAcceptors\<close> may write later.\<close>

definition strip :: "path_info \<Rightarrow> path_info" where
  "strip info = info\<lparr>pi_merge := None\<rparr>"

lemma strip_simps [simp]:
  "pi_p (strip q) = pi_p q" "pi_mw (strip q) = pi_mw q" "pi_w (strip q) = pi_w q"
  "pi_unk (strip q) = pi_unk q" "pi_type (strip q) = pi_type q"
  "strip (q\<lparr>pi_merge := m\<rparr>) = strip q" "strip (strip q) = strip q"
  by (simp_all add: strip_def)

lemma strip_acceptor_info [simp]: "strip (acceptor_info a p q) = acceptor_info a p q"
  by (simp add: strip_def acceptor_info_def)

lemma acceptor_info_strip [simp]: "acceptor_info a p (strip q) = acceptor_info a p q"
  by (simp add: acceptor_info_def)

lemma cost_le_strip [simp]: "cost_le (strip a) b = cost_le a b" "cost_le a (strip b) = cost_le a b"
  by (simp_all add: cost_le_def)

lemma set_merge_fold:
  "length (fold (\<lambda>j ps. ps[j := (ps ! j)\<lparr>pi_merge := Some p\<rparr>]) [a..<b] path) = length path \<and>
   (\<forall>j < length path. fold (\<lambda>j ps. ps[j := (ps ! j)\<lparr>pi_merge := Some p\<rparr>]) [a..<b] path ! j =
     (if a \<le> j \<and> j < b then (path ! j)\<lparr>pi_merge := Some p\<rparr> else path ! j))"
proof (induction b)
  case 0
  then show ?case by simp
next
  case (Suc b)
  then show ?case by (cases "a \<le> b") (auto simp: nth_list_update less_Suc_eq)
qed

context rule_set
begin

definition entry_ok :: "jsstring \<Rightarrow> nat \<Rightarrow> path_info \<Rightarrow> bool" where
  "entry_ok text j info \<longleftrightarrow>
     (\<exists>p < j. pi_p info = Some p \<and>
        (pi_type info = UNK \<or> (\<exists>c \<in> set rules. pi_type info = kind c \<and> accepts c (slice text p j)))) \<and>
     (\<forall>q. pi_merge info = Some q \<longrightarrow> q < j)"

definition path_ok :: "jsstring \<Rightarrow> nat \<Rightarrow> path \<Rightarrow> bool" where
  "path_ok text k path \<longleftrightarrow>
     length path = Suc k \<and> (\<forall>j. 0 < j \<longrightarrow> j \<le> k \<longrightarrow> entry_ok text j (path ! j))"

definition candidate :: "path \<Rightarrow> nat \<Rightarrow> acceptor \<Rightarrow> path_info" where
  "candidate path k a = acceptor_info a (Suc k - strOffset a) (path ! (Suc k - strOffset a))"

lemma set_merge_ok:
  assumes "path_ok text k path" "p \<le> k"
  shows "\<exists>path'. set_merge path p k = Inr path' \<and> path_ok text k path' \<and> map strip path' = map strip path"
proof -
  let ?path' = "fold (\<lambda>j ps. ps[j := (ps ! j)\<lparr>pi_merge := Some p\<rparr>]) [Suc p..<Suc k] path"
  have len: "length path = Suc k" using assms by (simp add: path_ok_def)
  note f = set_merge_fold [of p "Suc p" "Suc k" path]
  have "set_merge path p k = Inr ?path'" by (simp add: set_merge_def len)
  moreover have "path_ok text k ?path'"
    using assms f by (auto simp: path_ok_def entry_ok_def)
  moreover have "map strip ?path' = map strip path"
    using f by (auto intro!: nth_equalityI)
  ultimately show ?thesis by blast
qed

lemma final_reads:
  assumes "reads text (Suc k) a" "isFinal a" "k < length text"
  shows "\<exists>c \<in> set rules. \<exists>p \<le> k. tracks c a (slice text p (Suc k)) \<and> accepts c (slice text p (Suc k)) \<and>
    rtype a = kind c \<and> strOffset a = Suc k - p"
proof -
  obtain c p where c: "c \<in> set rules" "p \<le> Suc k" "tracks c a (slice text p (Suc k))"
    using assms(1) by (auto simp: reads_def)
  note fin = acceptor_rule.tracks_final [OF rules_ok [OF c(1)] c(3)]
  note off = acceptor_rule.tracks_offset [OF rules_ok [OF c(1)] c(3)]
  have "p \<le> k" using fin assms(2) c(2) by (cases "p = Suc k") auto
  then show ?thesis using c fin off assms(2,3) by (auto simp: length_slice)
qed

lemma buildByAcceptors_ok:
  assumes "path_ok text k path" "k < length text" "\<forall>a \<in> set finals. reads text (Suc k) a \<and> isFinal a"
  shows "\<exists>path' infos. buildByAcceptors path finals k = Inr (path', infos) \<and> path_ok text k path' \<and>
    map strip path' = map strip path \<and> map strip infos = map (candidate path k) finals \<and>
    (\<forall>info \<in> set infos. entry_ok text (Suc k) info \<and> pi_type info \<noteq> UNK)"
  using assms(1,3)
proof (induction finals arbitrary: path)
  case Nil
  then show ?case by simp
next
  case (Cons a as)
  obtain c p where c: "c \<in> set rules" "p \<le> k" "accepts c (slice text p (Suc k))"
    "rtype a = kind c" "strOffset a = Suc k - p"
    using final_reads [of "text" k a] Cons.prems(2) assms(2) by auto
  have len: "length path = Suc k" using Cons.prems(1) by (simp add: path_ok_def)
  have p: "Suc k - strOffset a = p" "\<not> (k + 1 < strOffset a \<or> length path \<le> k + 1 - strOffset a)"
    using c len by auto
  let ?info = "acceptor_info a p (path ! p)"
  have ent: "entry_ok text (Suc k) ?info" "entry_ok text (Suc k) (?info\<lparr>pi_merge := Some p\<rparr>)"
    "pi_type ?info \<noteq> UNK"
    using c kind_not_UNK by (auto simp: entry_ok_def acceptor_info_def)
  have cand: "candidate path k a = ?info" by (simp add: candidate_def p)
  have cong: "map (candidate path' k) as = map (candidate path k) as" if e: "map strip path' = map strip path" for path'
  proof -
    have "strip (path' ! j) = strip (path ! j)" if "j < length path" for j
      using e that by (metis length_map nth_map)
    moreover have "length path' = length path" using e by (metis length_map)
    moreover have "Suc k - strOffset b < length path" if "b \<in> set as" for b
      using final_reads [of "text" k b] Cons.prems(2) assms(2) that len by fastforce
    ultimately show ?thesis
      unfolding candidate_def by (auto) (metis acceptor_info_strip)
  qed
  show ?case
  proof (cases "rtype a = PART")
    case True
    obtain path1 where p1: "set_merge path p k = Inr path1" "path_ok text k path1" "map strip path1 = map strip path"
      using set_merge_ok [OF Cons.prems(1) c(2)] by blast
    obtain path2 infos where "buildByAcceptors path1 as k = Inr (path2, infos)" "path_ok text k path2"
      "map strip path2 = map strip path1" "map strip infos = map (candidate path1 k) as"
      "\<forall>info \<in> set infos. entry_ok text (Suc k) info \<and> pi_type info \<noteq> UNK"
      using Cons.IH [OF p1(2)] Cons.prems(2) by auto
    then show ?thesis using True p p1 ent cand cong [OF p1(3)] by (simp add: Let_def)
  next
    case False
    obtain path2 infos where "buildByAcceptors path as k = Inr (path2, infos)" "path_ok text k path2"
      "map strip path2 = map strip path" "map strip infos = map (candidate path k) as"
      "\<forall>info \<in> set infos. entry_ok text (Suc k) info \<and> pi_type info \<noteq> UNK"
      using Cons.IH [OF Cons.prems(1)] Cons.prems(2) by auto
    then show ?thesis using False p ent cand by (simp add: Let_def)
  qed
qed

lemma fallback_ok:
  assumes "path_ok text k path" "k < length text" "lb \<le> k"
  shows "\<exists>info. fallback path lb text k = Inr info \<and> entry_ok text (Suc k) info"
proof -
  have len: "length path = Suc k" using assms(1) by (simp add: path_ok_def)
  have "\<exists>p < Suc k. (if lb \<noteq> 0 then pi_p (path ! lb) else Some lb) = Some p"
  proof (cases "lb = 0")
    case False
    then have "entry_ok text lb (path ! lb)" using assms(1,3) by (simp add: path_ok_def)
    then obtain p where "p < lb" "pi_p (path ! lb) = Some p" by (auto simp: entry_ok_def)
    with False assms(3) show ?thesis by (intro exI [of _ p]) simp
  qed simp
  then show ?thesis
    using assms(2,3) len by (auto simp: fallback_def Let_def entry_ok_def)
qed
end

context rule_set
begin

definition state_ok :: "jsstring \<Rightarrow> nat \<Rightarrow> build_state \<Rightarrow> bool" where
  "state_ok text k s \<longleftrightarrow> all_read text k (bs_acc s) \<and> none_missed text k (bs_acc s) \<and>
     path_ok text k (bs_path s) \<and> bs_left s \<le> k"

lemma build_ok:
  assumes "path_ok text k path" "k < length text" "lb \<le> k"
    "\<forall>a \<in> set finals. reads text (Suc k) a \<and> isFinal a"
  shows "\<exists>path' infos. build path finals k lb text = Inr (path', infos) \<and> infos \<noteq> [] \<and>
    path_ok text k path' \<and> map strip path' = map strip path \<and>
    (\<forall>info \<in> set infos. entry_ok text (Suc k) info) \<and>
    (finals \<noteq> [] \<longrightarrow> map strip infos = map (candidate path k) finals \<and>
       (\<forall>info \<in> set infos. pi_type info \<noteq> UNK))"
proof -
  obtain path' infos where b: "buildByAcceptors path finals k = Inr (path', infos)" "path_ok text k path'"
    "map strip path' = map strip path" "map strip infos = map (candidate path k) finals"
    "\<forall>info \<in> set infos. entry_ok text (Suc k) info \<and> pi_type info \<noteq> UNK"
    using buildByAcceptors_ok [OF assms(1,2,4)] by blast
  show ?thesis
  proof (cases "infos = []")
    case True
    obtain info where "fallback path' lb text k = Inr info" "entry_ok text (Suc k) info"
      using fallback_ok [OF b(2) assms(2,3)] by blast
    then show ?thesis using b True by (simp add: build_def)
  next
    case False
    then show ?thesis using b by (simp add: build_def)
  qed
qed

lemma path_ok_snoc:
  assumes "path_ok text k path" "entry_ok text (Suc k) info"
  shows "path_ok text (Suc k) (path @ [info])"
  using assms by (auto simp: path_ok_def nth_append le_Suc_eq)

lemma buildPath_step_ok:
  assumes "state_ok text k s" "k < length text"
  shows "\<exists>s' info. buildPath_step text k s = Inr s' \<and> state_ok text (Suc k) s' \<and>
    map strip (bs_path s') = map strip (bs_path s) @ [strip info] \<and>
    (\<forall>a \<in> set (getFinalAcceptors (bs_acc s')).
       cost_le info (candidate (bs_path s) k a) \<and> pi_type info \<noteq> UNK)"
proof -
  obtain acc where acc: "acceptors_transit (bs_acc s) (text ! k) = Inr acc" "all_read text (Suc k) acc"
    "none_missed text (Suc k) acc"
    using acceptors_transit_ok [of "text" k "bs_acc s"] assms by (auto simp: state_ok_def)
  let ?finals = "getFinalAcceptors acc"
  have fin: "\<forall>a \<in> set ?finals. reads text (Suc k) a \<and> isFinal a"
    using acc(2) by (auto simp: getFinalAcceptors_def all_read_def)
  obtain path' infos where b: "build (bs_path s) ?finals k (bs_left s) text = Inr (path', infos)" "infos \<noteq> []"
    "path_ok text k path'" "map strip path' = map strip (bs_path s)"
    "\<forall>info \<in> set infos. entry_ok text (Suc k) info"
    "?finals \<noteq> [] \<longrightarrow> map strip infos = map (candidate (bs_path s) k) ?finals \<and>
       (\<forall>info \<in> set infos. pi_type info \<noteq> UNK)"
    using build_ok [OF _ assms(2) _ fin, of "bs_path s" "bs_left s"] assms(1) by (auto simp: state_ok_def)
  obtain info where info: "selectPath infos = Some info" "info \<in> set infos" "\<forall>q \<in> set infos. cost_le info q"
    using selectPath_minimal [OF b(2)] by blast
  let ?s = "\<lparr>bs_acc = acc, bs_path = path' @ [info], bs_left = (if pi_type info \<noteq> UNK then k else bs_left s)\<rparr>"
  have "buildPath_step text k s = Inr ?s"
    by (simp add: buildPath_step_def acc b info)
  moreover have "state_ok text (Suc k) ?s"
    using acc b(3,5) info(2) assms(1) by (auto simp: state_ok_def intro!: path_ok_snoc)
  moreover have "cost_le info (candidate (bs_path s) k a) \<and> pi_type info \<noteq> UNK" if a: "a \<in> set ?finals" for a
  proof -
    have "?finals \<noteq> []" using a by auto
    with b(6) have m: "map strip infos = map (candidate (bs_path s) k) ?finals"
      and t: "pi_type info \<noteq> UNK" using info(2) by auto
    have "candidate (bs_path s) k a \<in> set (map strip infos)" unfolding m using a by simp
    then show ?thesis using info(3) t by auto
  qed
  ultimately show ?thesis using b(4) by (intro exI [of _ ?s] exI [of _ info]) simp
qed

text \<open>A word that an eager rule of weight one accepts.\<close>

definition covered :: "jsstring \<Rightarrow> bool" where
  "covered w \<longleftrightarrow> w \<noteq> [] \<and> (\<exists>c \<in> set rules. eager c \<and> live c w \<and> accepts c w \<and>
     (\<forall>a u. tracks c a u \<longrightarrow> acc_w a = 1 \<and> acc_mw a = None \<and> acc_unk a = None))"

definition best :: "jsstring \<Rightarrow> nat \<Rightarrow> path \<Rightarrow> bool" where
  "best text j path \<longleftrightarrow>
     (\<forall>ws. concat ws = take j text \<longrightarrow> (\<forall>w \<in> set ws. covered w) \<longrightarrow>
        pi_unk (path ! j) = 0 \<and> pi_mw (path ! j) = 0 \<and> pi_w (path ! j) \<le> length ws)"

text \<open>A covered word that ends at the position just read is among the candidates.\<close>

lemma covered_candidate:
  assumes "state_ok text (Suc k) s" "k < length text" "p \<le> k" "covered (slice text p (Suc k))"
  shows "\<exists>a \<in> set (getFinalAcceptors (bs_acc s)). strOffset a = Suc k - p \<and>
    acc_w a = 1 \<and> acc_mw a = None \<and> acc_unk a = None"
proof -
  let ?w = "slice text p (Suc k)"
  obtain c where c: "c \<in> set rules" "eager c" "live c ?w" "accepts c ?w"
    "\<forall>a u. tracks c a u \<longrightarrow> acc_w a = 1 \<and> acc_mw a = None \<and> acc_unk a = None"
    using assms(4) by (auto simp: covered_def)
  have "none_missed text (Suc k) (bs_acc s)" using assms(1) by (simp add: state_ok_def)
  then obtain a where a: "a \<in> set (current (bs_acc s))" "tracks c a ?w"
    using c assms(3) unfolding none_missed_def by (meson le_imp_less_Suc)
  have "isFinal a"
    using acceptor_rule.tracks_final [OF rules_ok [OF c(1)] a(2)] c(4) assms(4) by (simp add: covered_def)
  moreover have "strOffset a = Suc k - p"
    using acceptor_rule.tracks_offset [OF rules_ok [OF c(1)] a(2)] assms(2) by (simp add: length_slice)
  ultimately show ?thesis using a c(5) by (auto simp: getFinalAcceptors_def)
qed

lemma best_cong:
  assumes "map strip path' = map strip path" "j < length path" "best text j path"
  shows "best text j path'"
proof -
  have "strip (path' ! j) = strip (path ! j)"
    using assms(1,2) by (metis length_map nth_map)
  then have "pi_unk (path' ! j) = pi_unk (path ! j)" "pi_mw (path' ! j) = pi_mw (path ! j)"
    "pi_w (path' ! j) = pi_w (path ! j)"
    by (metis strip_simps(2,3,4))+
  then show ?thesis using assms(3) by (simp add: best_def)
qed
end

context rule_set
begin

lemma covered_split:
  assumes "concat ws = take (Suc k) text" "k < length text" "\<forall>w \<in> set ws. covered w"
  shows "\<exists>vs w p. ws = vs @ [w] \<and> p \<le> k \<and> concat vs = take p text \<and> w = slice text p (Suc k)"
proof -
  have "ws \<noteq> []" using assms(1,2) by (cases "text") auto
  then obtain vs w where ws: "ws = vs @ [w]" by (metis rev_exhaust)
  let ?p = "length (concat vs)"
  have c: "concat vs @ w = take (Suc k) text" using assms(1) ws by simp
  have w: "w \<noteq> []" using assms(3) ws by (auto simp: covered_def)
  have "length (concat vs @ w) = Suc k" unfolding c using assms(2) by simp
  then have p: "?p \<le> k" using w by (cases w) auto
  have "concat vs = take ?p (concat vs @ w)" by simp
  also have "\<dots> = take ?p text" unfolding c using p by (simp add: min_def)
  finally have v: "concat vs = take ?p text" .
  have "w = drop ?p (concat vs @ w)" by simp
  also have "\<dots> = slice text ?p (Suc k)" unfolding c by (simp add: slice_def drop_take)
  finally show ?thesis using ws p v by blast
qed

lemma best_step:
  assumes "state_ok text k s" "k < length text" "\<forall>j \<le> k. best text j (bs_path s)"
  shows "\<exists>s'. buildPath_step text k s = Inr s' \<and> state_ok text (Suc k) s' \<and>
    (\<forall>j \<le> Suc k. best text j (bs_path s'))"
proof -
  obtain s' info where st: "buildPath_step text k s = Inr s'" "state_ok text (Suc k) s'"
    "map strip (bs_path s') = map strip (bs_path s) @ [strip info]"
    "\<forall>a \<in> set (getFinalAcceptors (bs_acc s')).
       cost_le info (candidate (bs_path s) k a) \<and> pi_type info \<noteq> UNK"
    using buildPath_step_ok [OF assms(1,2)] by blast
  have len: "length (bs_path s) = Suc k" using assms(1) by (simp add: state_ok_def path_ok_def)
  have strip_nth: "strip (bs_path s' ! j) = (map strip (bs_path s) @ [strip info]) ! j" if "j \<le> Suc k" for j
    using st(2) that unfolding st(3) [symmetric] by (simp add: state_ok_def path_ok_def)
  have "best text j (bs_path s')" if j: "j \<le> k" for j
  proof -
    have "strip (bs_path s' ! j) = strip (bs_path s ! j)"
      using strip_nth [of j] j len by (simp add: nth_append)
    then have "pi_unk (bs_path s' ! j) = pi_unk (bs_path s ! j)" "pi_mw (bs_path s' ! j) = pi_mw (bs_path s ! j)"
      "pi_w (bs_path s' ! j) = pi_w (bs_path s ! j)"
      by (metis strip_simps(2,3,4))+
    then show ?thesis using assms(3) j by (simp add: best_def)
  qed
  moreover have "best text (Suc k) (bs_path s')"
    unfolding best_def
  proof (intro allI impI)
    fix ws assume ws: "concat ws = take (Suc k) text" "\<forall>w \<in> set ws. covered w"
    obtain vs w p where vs: "ws = vs @ [w]" "p \<le> k" "concat vs = take p text" "w = slice text p (Suc k)"
      using covered_split [OF ws(1) assms(2) ws(2)] by blast
    have prev: "pi_unk (bs_path s ! p) = 0" "pi_mw (bs_path s ! p) = 0" "pi_w (bs_path s ! p) \<le> length vs"
      using assms(3) vs(1,2,3) ws(2) unfolding best_def by auto
    obtain a where a: "a \<in> set (getFinalAcceptors (bs_acc s'))" "strOffset a = Suc k - p"
      "acc_w a = 1" "acc_mw a = None" "acc_unk a = None"
      using covered_candidate [OF st(2) assms(2) vs(2)] ws(2) vs(1,4) by auto
    have "Suc k - strOffset a = p" using a(2) vs(2) by simp
    then have "cost_le info (acceptor_info a p (bs_path s ! p))"
      using st(4) a(1) by (auto simp: candidate_def)
    then have "pi_unk info = 0 \<and> pi_mw info = 0 \<and> pi_w info \<le> length ws"
      using prev a vs(1) by (auto simp: cost_le_def acceptor_info_def)
    moreover have "strip (bs_path s' ! Suc k) = strip info"
      using strip_nth [of "Suc k"] len by (simp add: nth_append)
    then have "pi_unk (bs_path s' ! Suc k) = pi_unk info" "pi_mw (bs_path s' ! Suc k) = pi_mw info"
      "pi_w (bs_path s' ! Suc k) = pi_w info"
      by (metis strip_simps(2,3,4))+
    ultimately show "pi_unk (bs_path s' ! Suc k) = 0 \<and> pi_mw (bs_path s' ! Suc k) = 0 \<and>
        pi_w (bs_path s' ! Suc k) \<le> length ws" by simp
  qed
  ultimately show ?thesis using st(1,2) by (auto simp: le_Suc_eq)
qed

lemma buildPath_loop_ok:
  assumes "state_ok text k s" "k + n \<le> length text" "\<forall>j \<le> k. best text j (bs_path s)"
  shows "\<exists>s'. buildPath_loop text [k..<k + n] s = Inr s' \<and> state_ok text (k + n) s' \<and>
    (\<forall>j \<le> k + n. best text j (bs_path s'))"
  using assms
proof (induction n arbitrary: k s)
  case 0
  then show ?case by simp
next
  case (Suc n)
  obtain s1 where s1: "buildPath_step text k s = Inr s1" "state_ok text (Suc k) s1"
    "\<forall>j \<le> Suc k. best text j (bs_path s1)"
    using best_step [OF Suc.prems(1) _ Suc.prems(3)] Suc.prems(2) by auto
  have "[k..<k + Suc n] = k # [Suc k..<Suc k + n]" by (simp add: upt_rec)
  then show ?case using Suc.IH [OF s1(2) _ s1(3)] s1(1) Suc.prems(2) by auto
qed

lemma buildPath_ok:
  assumes "creators accs = rules"
  shows "\<exists>accs' path. buildPath accs text = Inr (accs', path) \<and> creators accs' = rules \<and>
    path_ok text (length text) path \<and> best text (length text) path"
proof -
  let ?s = "\<lparr>bs_acc = acceptors_reset accs, bs_path = createPath, bs_left = 0\<rparr>"
  have "state_ok text 0 ?s"
    using assms by (simp add: state_ok_def all_read_def none_missed_def acceptors_reset_def path_ok_def createPath_def)
  moreover have "\<forall>j \<le> 0. best text j (bs_path ?s)"
    by (simp add: best_def createPath_def)
  ultimately obtain s' where "buildPath_loop text [0..<0 + length text] ?s = Inr s'"
    "state_ok text (0 + length text) s'" "\<forall>j \<le> 0 + length text. best text j (bs_path s')"
    using buildPath_loop_ok [of "text" 0 ?s "length text"] by auto
  then show ?thesis by (auto simp: buildPath_def state_ok_def all_read_def)
qed
end

section \<open>From path to ranges\<close>

fun contiguous :: "nat \<Rightarrow> range list \<Rightarrow> nat \<Rightarrow> bool" where
  "contiguous a [] b = (a = b)"
| "contiguous a (r # rs) b = (r_s r = Some a \<and> a < r_e r \<and> contiguous (r_e r) rs b)"

definition descending :: "path \<Rightarrow> bool" where
  "descending path \<longleftrightarrow>
     (\<forall>j. 0 < j \<longrightarrow> j < length path \<longrightarrow> (\<exists>p < j. pi_p (path ! j) = Some p) \<and>
        (\<forall>q. pi_merge (path ! j) = Some q \<longrightarrow> q < j))"

lemma ranges_loop_ok:
  assumes "descending path" "e < length path" "contiguous e (rev ranges) n"
  shows "\<exists>rs. ranges_loop path e ranges = Some (Inr rs) \<and> contiguous 0 rs n"
  using assms(2,3)
proof (induction e arbitrary: ranges rule: less_induct)
  case (less e)
  show ?case
  proof (cases "e = 0")
    case True
    then show ?thesis using less.prems by (simp add: ranges_loop.simps)
  next
    case False
    obtain p where p: "p < e" "pi_p (path ! e) = Some p"
      using assms(1) less.prems(1) False by (auto simp: descending_def)
    show ?thesis
    proof (cases "\<exists>q. pi_merge (path ! e) = Some q \<and> ranges \<noteq> []")
      case True
      then obtain q where q: "pi_merge (path ! e) = Some q" "ranges \<noteq> []" by blast
      then have qe: "q < e" using assms(1) less.prems(1) False by (auto simp: descending_def)
      obtain rs r where rr: "ranges = rs @ [r]" using q(2) by (metis rev_exhaust)
      have "contiguous q (rev (rs @ [r\<lparr>r_s := Some q\<rparr>])) n"
        using less.prems(2) qe rr by auto
      then obtain out where "ranges_loop path q (rs @ [r\<lparr>r_s := Some q\<rparr>]) = Some (Inr out)" "contiguous 0 out n"
        using less.IH [OF qe] qe less.prems(1) by fastforce
      moreover have "ranges_loop path e ranges = ranges_loop path q (rs @ [r\<lparr>r_s := Some q\<rparr>])"
      proof -
        obtain y ys where "ranges = y # ys" using q(2) by (cases ranges) auto
        then have "ranges_loop path e ranges =
            ranges_loop path q (butlast ranges @ [(last ranges)\<lparr>r_s := Some q\<rparr>])"
          using False less.prems(1) q(1)
          by (subst ranges_loop.simps) (simp add: Let_def del: butlast.simps last.simps)
        then show ?thesis by (simp add: rr)
      qed
      ultimately show ?thesis by simp
    next
      case no: False
      let ?r = "\<lparr>r_s = Some p, r_e = e\<rparr>"
      have "contiguous p (rev (ranges @ [?r])) n" using less.prems(2) p by simp
      then obtain out where "ranges_loop path p (ranges @ [?r]) = Some (Inr out)" "contiguous 0 out n"
        using less.IH [OF p(1)] p(1) less.prems(1) by fastforce
      moreover have "ranges_loop path e ranges = ranges_loop path p (ranges @ [?r])"
        using False less.prems(1) no p(2)
        by (subst ranges_loop.simps) (auto simp: Let_def null_index_def split: option.split list.split)
      ultimately show ?thesis by simp
    qed
  qed
qed

lemma pathToRanges_ok:
  assumes "descending path" "path \<noteq> []"
  shows "\<exists>rs. pathToRanges path = Some (Inr rs) \<and> contiguous 0 rs (length path - 1)"
  unfolding pathToRanges_def by (rule ranges_loop_ok) (use assms in auto)

lemma contiguous_texts:
  assumes "contiguous a rs b" "b \<le> length text"
  shows "a \<le> b \<and> concat (map (range_text text) rs) = slice text a b \<and> [] \<notin> set (map (range_text text) rs)"
  using assms
proof (induction rs arbitrary: a)
  case Nil
  then show ?case by simp
next
  case (Cons r rs)
  have r: "r_s r = Some a" "a < r_e r" "contiguous (r_e r) rs b" using Cons.prems(1) by auto
  have IH: "r_e r \<le> b" "concat (map (range_text text) rs) = slice text (r_e r) b"
    "[] \<notin> set (map (range_text text) rs)"
    using Cons.IH [OF r(3) Cons.prems(2)] by auto
  have t: "range_text text r = slice text a (r_e r)"
    using r IH(1) Cons.prems(2) by (simp add: range_text_def null_index_def substring_eq_slice)
  show ?case
    using IH r(2) t Cons.prems(2) slice_eq_Nil_iff [of "r_e r" "text" a] by (auto simp: slice_append)
qed

section \<open>The segmenter of the site\<close>

interpretation seg: rule_set "wordcut_creators (sortuniq words)" rule_tracks rule_live rule_accepts
  rule_kind for words
proof (rule rule_set.intro, goal_cases)
  case (1 c)
  then show ?case by (rule acceptor_rule_rule [OF wordcut_creators_ok])
next
  case (2 c)
  show ?case by (induction c) auto
qed

text \<open>The segmenter after \<open>init\<close>: the creators over the finalized dictionary.\<close>

definition ready :: "jsstring list \<Rightarrow> acceptors \<Rightarrow> bool" where
  "ready words accs \<longleftrightarrow> creators accs = wordcut_creators (sortuniq words)"


lemma path_ok_descending: "seg.path_ok words text (length text) path \<Longrightarrow> descending path"
  proof -
  assume ok: "seg.path_ok words text (length text) path"
  show ?thesis
    unfolding descending_def
  proof (intro allI impI)
    fix j assume "0 < j" "j < length path"
    with ok have "seg.entry_ok words text j (path ! j)" by (simp add: seg.path_ok_def)
    then show "(\<exists>p < j. pi_p (path ! j) = Some p) \<and> (\<forall>q. pi_merge (path ! j) = Some q \<longrightarrow> q < j)"
      unfolding seg.entry_ok_def by blast
  qed
qed

lemma buildPath_ready:
  assumes "ready words accs"
  shows "\<exists>accs' path. buildPath accs text = Inr (accs', path) \<and> ready words accs' \<and>
    seg.path_ok words text (length text) path \<and> seg.best words text (length text) path"
  using seg.buildPath_ok [of accs words "text"] assms by (simp add: ready_def)

lemma cut_ranges_ok:
  assumes "ready words accs"
  shows "\<exists>accs' rs. cut_ranges accs text = Some (Inr (accs', rs)) \<and> ready words accs' \<and>
    contiguous 0 rs (length text)"
proof -
  obtain accs' path where b: "buildPath accs text = Inr (accs', path)" "ready words accs'"
    "seg.path_ok words text (length text) path"
    using buildPath_ready [OF assms] by blast
  have "path \<noteq> []" "length path - 1 = length text" using b(3) by (auto simp: seg.path_ok_def)
  then obtain rs where "pathToRanges path = Some (Inr rs)" "contiguous 0 rs (length text)"
    using pathToRanges_ok [OF path_ok_descending [OF b(3)]] by auto
  then show ?thesis using b by (simp add: cut_ranges_def)
qed

text \<open>Claim C1: segmenting any text with any dictionary returns (no exception, no endless
  loop), and the segments are a partition of the text: none is empty and their concatenation
  is the text.  \<open>cut\<close> returns the same segments joined by the delimiter, and the segmenter is
  ready for the next text.\<close>

theorem cut_partitions_text:
  assumes "ready words accs"
  shows "\<exists>accs' ws. cutIntoArray accs text = Some (Inr (accs', ws)) \<and> ready words accs' \<and>
    concat ws = text \<and> [] \<notin> set ws \<and>
    cut accs text delimiter = Some (Inr (accs', join ws (case delimiter of None \<Rightarrow> js ''|'' | Some d \<Rightarrow> d)))"
proof -
  obtain accs' rs where rs: "cut_ranges accs text = Some (Inr (accs', rs))" "ready words accs'"
    "contiguous 0 rs (length text)"
    using cut_ranges_ok [OF assms] by blast
  then show ?thesis
    using contiguous_texts [OF rs(3), of "text"]
    by (simp add: cutIntoArray_def cut_def rangesToText_def slice_full)
qed

lemma cut_partitions_text_witness:
  "\<exists>accs' ws. cutIntoArray (acceptors_init\<lparr>creators := wordcut_creators (sortuniq [js ''ab''])\<rparr>)
      (js ''abc%'') = Some (Inr (accs', ws)) \<and> concat ws = js ''abc%''"
proof -
  have "ready [js ''ab''] (acceptors_init\<lparr>creators := wordcut_creators (sortuniq [js ''ab''])\<rparr>)"
    by (simp add: ready_def)
  then show ?thesis using cut_partitions_text [of "[js ''ab'']" _ "js ''abc%''"] by blast
qed

text \<open>Claim C3: every record of the path points back to an earlier position, and unless it is
  marked unknown, the text between the two positions is a match of the rule named by its
  type; in particular a record of type \<open>DICT\<close> spans a word of the dictionary.\<close>

theorem path_segments_sound:
  assumes "ready words accs" "buildPath accs text = Inr (accs', path)" "0 < j" "j \<le> length text"
  shows "length path = length text + 1 \<and>
    (\<exists>p < j. pi_p (path ! j) = Some p \<and>
      (pi_type (path ! j) = UNK \<or>
       (\<exists>c \<in> set (wordcut_creators (sortuniq words)).
          pi_type (path ! j) = rule_kind c \<and> rule_accepts c (slice text p j))))"
proof -
  have "seg.path_ok words text (length text) path"
    using buildPath_ready [OF assms(1), of "text"] assms(2) by auto
  then have "length path = length text + 1" "seg.entry_ok words text j (path ! j)"
    using assms(3,4) by (auto simp: seg.path_ok_def)
  then show ?thesis unfolding seg.entry_ok_def by blast
qed

lemma path_segments_sound_witness:
  "\<exists>accs' path p. buildPath (acceptors_init\<lparr>creators := wordcut_creators (sortuniq [])\<rparr>) (js ''a'') =
      Inr (accs', path) \<and> length path = 2 \<and> pi_p (path ! 1) = Some p \<and> p < 1"
proof -
  have r: "ready [] (acceptors_init\<lparr>creators := wordcut_creators (sortuniq [])\<rparr>)"
    by (simp add: ready_def)
  then obtain accs' path where b: "buildPath (acceptors_init\<lparr>creators := wordcut_creators (sortuniq [])\<rparr>)
      (js ''a'') = Inr (accs', path)"
    using buildPath_ready by blast
  show ?thesis using b path_segments_sound [OF r b, of 1] by (auto simp: js_def)
qed



end
