(* ===== verification/Node_Path.thy ===== *)
theory Node_Path
  imports Prelude
begin

text \<open>
  The POSIX path functions of the bundle (module 22 of \<open>wordcut.js\<close>) and the two functions of
  the process shim they call (module 24).  The segmenter's dictionary uses \<open>normalize\<close>; the
  glob code uses \<open>resolve\<close> and \<open>join\<close>.  Shown here: the in-place loop of \<open>normalizeArray\<close>
  computes what walking the path with a stack of names computes, \<open>normalize\<close> is idempotent,
  \<open>resolve\<close> gives an absolute normal path, \<open>relative\<close> inverts \<open>resolve\<close>, and
  \<open>dirname\<close> and \<open>basename\<close> split a path.
\<close>

section \<open>Definitions\<close>

abbreviation (input) slash :: code_unit where "slash \<equiv> 47"
abbreviation (input) dot :: jsstring where "dot \<equiv> [46]"
abbreviation (input) dotdot :: jsstring where "dotdot \<equiv> [46, 46]"

text \<open>An argument that is a string, or is not.\<close>

datatype path_arg = Str jsstring | NonStr

text \<open>\<open>process.cwd\<close> of the browser shim.\<close>

definition process_cwd :: jsstring where
  "process_cwd = [slash]"

definition remove_at :: "nat \<Rightarrow> 'a list \<Rightarrow> 'a list" where
  "remove_at i xs = take i xs @ drop (Suc i) xs"

text \<open>The loop of \<open>normalizeArray\<close> from \<open>i\<close> down to 0; the first argument is \<open>i + 1\<close>.\<close>

fun normalize_loop :: "nat \<Rightarrow> jsstring list \<Rightarrow> nat \<Rightarrow> jsstring list \<times> nat" where
  "normalize_loop 0 parts up = (parts, up)"
| "normalize_loop (Suc i) parts up =
     (let last = parts ! i
      in if last = dot then normalize_loop i (remove_at i parts) up
         else if last = dotdot then normalize_loop i (remove_at i parts) (Suc up)
         else if 0 < up then normalize_loop i (remove_at i parts) (up - 1)
         else normalize_loop i parts up)"

definition normalizeArray :: "jsstring list \<Rightarrow> bool \<Rightarrow> jsstring list" where
  "normalizeArray parts allowAboveRoot =
     (let (parts', up) = normalize_loop (length parts) parts 0
      in if allowAboveRoot then replicate up dotdot @ parts' else parts')"

definition nonempty_parts :: "jsstring \<Rightarrow> jsstring list" where
  "nonempty_parts p = filter (\<lambda>s. s \<noteq> []) (split_on slash p)"

definition path_isAbsolute :: "jsstring \<Rightarrow> bool" where
  "path_isAbsolute p \<longleftrightarrow> p \<noteq> [] \<and> hd p = slash"

definition path_normalize :: "jsstring \<Rightarrow> jsstring" where
  "path_normalize p =
     (let isAbsolute = path_isAbsolute p;
          trailingSlash = (p \<noteq> [] \<and> last p = slash);
          q = join (normalizeArray (nonempty_parts p) (\<not> isAbsolute)) [slash];
          q1 = (if q = [] \<and> \<not> isAbsolute then dot else q);
          q2 = (if q1 \<noteq> [] \<and> trailingSlash then q1 @ [slash] else q1)
      in (if isAbsolute then [slash] else []) @ q2)"

fun resolve_loop :: "path_arg list \<Rightarrow> jsstring \<Rightarrow> bool \<Rightarrow> js_error + jsstring \<times> bool" where
  "resolve_loop [] resolvedPath resolvedAbsolute = Inr (resolvedPath, resolvedAbsolute)"
| "resolve_loop (a # as) resolvedPath resolvedAbsolute =
     (if resolvedAbsolute then Inr (resolvedPath, resolvedAbsolute)
      else case a of
        NonStr \<Rightarrow> Inl TypeError
      | Str p \<Rightarrow>
          if p = [] then resolve_loop as resolvedPath resolvedAbsolute
          else resolve_loop as (p @ [slash] @ resolvedPath) (path_isAbsolute p))"

text \<open>The arguments are visited from the last to the first, then the working directory.\<close>

definition path_resolve :: "path_arg list \<Rightarrow> js_error + jsstring" where
  "path_resolve args =
     bind_js (resolve_loop (rev args @ [Str process_cwd]) [] False) (\<lambda>(resolvedPath, abs).
       let q = join (normalizeArray (nonempty_parts resolvedPath) (\<not> abs)) [slash];
           r = (if abs then [slash] else []) @ q
       in Inr (if r = [] then dot else r))"

fun join_args :: "path_arg list \<Rightarrow> js_error + jsstring list" where
  "join_args [] = Inr []"
| "join_args (a # as) =
     (case a of
        NonStr \<Rightarrow> Inl TypeError
      | Str p \<Rightarrow> bind_js (join_args as) (\<lambda>ps. Inr (if p \<noteq> [] then p # ps else ps)))"

definition path_join :: "path_arg list \<Rightarrow> js_error + jsstring" where
  "path_join args = bind_js (join_args args) (\<lambda>ps. Inr (path_normalize (join ps [slash])))"

text \<open>\<open>arr.slice(start, end - start + 1)\<close> after the two scans of \<open>trim\<close>.\<close>

definition trim_parts :: "jsstring list \<Rightarrow> jsstring list" where
  "trim_parts arr =
     (let start = length (takeWhile (\<lambda>s. s = []) arr);
          stop = length arr - length (takeWhile (\<lambda>s. s = []) (rev arr))
      in if stop \<le> start then [] else slice arr start (stop - start))"

fun same_parts :: "jsstring list \<Rightarrow> jsstring list \<Rightarrow> nat" where
  "same_parts (a # as) (b # bs) = (if a \<noteq> b then 0 else Suc (same_parts as bs))"
| "same_parts _ _ = 0"

definition path_relative :: "path_arg \<Rightarrow> path_arg \<Rightarrow> js_error + jsstring" where
  "path_relative from to =
     bind_js (path_resolve [from]) (\<lambda>f. bind_js (path_resolve [to]) (\<lambda>t.
       let fromParts = trim_parts (split_on slash (drop 1 f));
           toParts = trim_parts (split_on slash (drop 1 t));
           samePartsLength = same_parts fromParts toParts;
           outputParts = replicate (length fromParts - samePartsLength) dotdot
             @ drop samePartsLength toParts
       in Inr (join outputParts [slash])))"

text \<open>
  \<open>splitPathRe\<close>: the root is an initial slash; the directory is the shortest text after which
  only a name without slashes and trailing slashes remain; the name is matched by one or two
  dots, or by the shortest non-empty text, or by nothing, with what follows of it empty or an
  extension: a dot and then no dot.
\<close>

definition is_ext :: "jsstring \<Rightarrow> bool" where
  "is_ext e \<longleftrightarrow> e = [] \<or> (hd e = 46 \<and> 46 \<notin> set (tl e))"

definition name_splits :: "jsstring \<Rightarrow> nat list" where
  "name_splits x =
     (if take 2 x = dotdot then [2, 1] else if take 1 x = dot then [1] else [])
       @ [1..<Suc (length x)] @ [0]"

definition split_ext :: "jsstring \<Rightarrow> jsstring" where
  "split_ext x =
     (case find (\<lambda>n. is_ext (drop n x)) (name_splits x) of None \<Rightarrow> [] | Some n \<Rightarrow> drop n x)"

definition strip_slashes :: "jsstring \<Rightarrow> jsstring" where
  "strip_slashes p = rev (dropWhile (\<lambda>c. c = slash) (rev p))"

definition splitPath :: "jsstring \<Rightarrow> jsstring \<times> jsstring \<times> jsstring \<times> jsstring" where
  "splitPath filename =
     (let root = (if path_isAbsolute filename then [slash] else []);
          rest = drop (length root) filename;
          core = strip_slashes rest;
          name = rev (takeWhile (\<lambda>c. c \<noteq> slash) (rev core));
          dir = take (length core - length name) core
      in (root, dir, name, split_ext name))"

definition path_dirname :: "jsstring \<Rightarrow> jsstring" where
  "path_dirname p =
     (let (root, dir, _, _) = splitPath p
      in if root = [] \<and> dir = [] then dot
         else root @ (if dir \<noteq> [] then take (length dir - 1) dir else dir))"

definition path_basename :: "jsstring \<Rightarrow> jsstring option \<Rightarrow> jsstring" where
  "path_basename p ext =
     (let (_, _, f, _) = splitPath p
      in case ext of
           None \<Rightarrow> f
         | Some e \<Rightarrow>
             if e \<noteq> [] \<and> drop (length f - length e) f = e
             then take (length f - length e) f else f)"

definition path_extname :: "jsstring \<Rightarrow> jsstring" where
  "path_extname p = (let (_, _, _, e) = splitPath p in e)"

section \<open>The in-place loop and the walk\<close>

fun nstep :: "jsstring \<Rightarrow> jsstring list \<times> nat \<Rightarrow> jsstring list \<times> nat" where
  "nstep p (out, up) =
     (if p = dot then (out, up)
      else if p = dotdot then (out, Suc up)
      else if 0 < up then (out, up - 1) else (p # out, up))"

lemma remove_at_length [simp]: "remove_at (length ps) (ps @ x # out) = ps @ out"
  by (simp add: remove_at_def)

lemma normalize_loop_foldr:
  "normalize_loop (length ps) (ps @ out) up = foldr nstep ps (out, up)"
proof (induction ps arbitrary: out up rule: rev_induct)
  case Nil
  then show ?case by simp
next
  case (snoc p ps)
  then show ?case by (simp add: Let_def nth_append)
qed

text \<open>Following the parts one by one from a current directory, a list of names.\<close>

definition walk_step :: "bool \<Rightarrow> jsstring list \<Rightarrow> jsstring \<Rightarrow> jsstring list" where
  "walk_step up_ok cur p =
     (if p = dot then cur
      else if p = dotdot then
        (if cur \<noteq> [] \<and> last cur \<noteq> dotdot then butlast cur
         else if up_ok then cur @ [dotdot] else cur)
      else cur @ [p])"

definition walk :: "bool \<Rightarrow> jsstring list \<Rightarrow> jsstring list \<Rightarrow> jsstring list" where
  "walk up_ok cur parts = foldl (walk_step up_ok) cur parts"

definition names :: "jsstring list \<Rightarrow> bool" where
  "names ps \<longleftrightarrow> dot \<notin> set ps \<and> dotdot \<notin> set ps"

lemma names_snoc: "names (ps @ [p]) \<longleftrightarrow> names ps \<and> p \<noteq> dot \<and> p \<noteq> dotdot"
  by (auto simp: names_def)

lemma names_take: "names ps \<Longrightarrow> names (take n ps)"
  by (auto simp: names_def dest: in_set_takeD)

lemma walk_foldr:
  assumes "names ns" "up_ok \<or> u = 0" "foldr nstep ps ([], 0) = (out, up)"
  shows "walk up_ok (replicate u dotdot @ ns) ps =
    (if up \<le> length ns then replicate u dotdot @ take (length ns - up) ns @ out
     else (if up_ok then replicate (u + up - length ns) dotdot else []) @ out)"
  using assms
proof (induction ps arbitrary: u ns out up)
  case Nil
  then show ?case by (simp add: walk_def)
next
  case (Cons p ps)
  obtain out0 up0 where f: "foldr nstep ps ([], 0) = (out0, up0)" by fastforce
  note IH = Cons.IH [OF _ _ f, unfolded walk_def]
  consider (d) "p = dot" | (dd) "p = dotdot" | (n) "p \<noteq> dot" "p \<noteq> dotdot" by blast
  then show ?case
  proof cases
    case d
    then show ?thesis using IH Cons.prems f by (simp add: walk_def walk_step_def)
  next
    case dd
    show ?thesis
    proof (cases ns rule: rev_cases)
      case Nil
      then have "walk_step up_ok (replicate u dotdot @ ns) p =
          (if up_ok then replicate (Suc u) dotdot else []) @ []"
        using dd Cons.prems(2) by (auto simp: walk_step_def replicate_append_same)
      then show ?thesis
        using IH [of "[]" "if up_ok then Suc u else 0"] Cons.prems f dd Nil
        by (auto simp: walk_def names_def)
    next
      case (snoc ms m)
      have "walk_step up_ok (replicate u dotdot @ ns) p = replicate u dotdot @ ms"
        using dd snoc Cons.prems(1) by (auto simp: walk_step_def names_snoc butlast_append)
      then show ?thesis
        using IH [of ms u] Cons.prems f dd snoc
        by (auto simp: walk_def names_snoc)
    qed
  next
    case n
    have "walk_step up_ok (replicate u dotdot @ ns) p = replicate u dotdot @ (ns @ [p])"
      using n by (simp add: walk_step_def)
    then show ?thesis
      using IH [of "ns @ [p]" u] Cons.prems f n
      by (auto simp: walk_def names_snoc Suc_diff_le split: if_splits)
  qed
qed

lemma normalizeArray_walk: "normalizeArray parts up_ok = walk up_ok [] parts"
proof -
  obtain out up where f: "foldr nstep parts ([], 0) = (out, up)" by fastforce
  then have "normalize_loop (length parts) parts 0 = (out, up)"
    using normalize_loop_foldr [of parts "[]" 0] by simp
  then show ?thesis
    using walk_foldr [of "[]" up_ok 0 parts out up] f by (simp add: normalizeArray_def names_def)
qed

section \<open>Normal forms\<close>

text \<open>Parts as they come from a path: not empty, without slashes.\<close>

definition proper :: "jsstring list \<Rightarrow> bool" where
  "proper ps \<longleftrightarrow> (\<forall>p \<in> set ps. p \<noteq> [] \<and> slash \<notin> set p)"

lemma proper_simps [simp]:
  "proper []" "proper (p # ps) \<longleftrightarrow> p \<noteq> [] \<and> slash \<notin> set p \<and> proper ps"
  "proper (ps @ qs) \<longleftrightarrow> proper ps \<and> proper qs"
  by (auto simp: proper_def)

lemma proper_replicate_dotdot [simp]: "proper (replicate n dotdot)"
  by (simp add: proper_def)

lemma proper_nonempty_parts: "proper (nonempty_parts p)"
  by (auto simp: proper_def nonempty_parts_def dest: split_on_no_sep)

lemma split_on_append:
  "split_on c (s @ c # t) = split_on c s @ split_on c t"
  by (induction s) (auto split: list.splits)

lemma nonempty_parts_append: "nonempty_parts (p @ slash # q) = nonempty_parts p @ nonempty_parts q"
  by (simp add: nonempty_parts_def split_on_append)

lemma nonempty_parts_Nil [simp]: "nonempty_parts [] = []"
  by (simp add: nonempty_parts_def)

lemma nonempty_parts_join: "proper ps \<Longrightarrow> nonempty_parts (join ps [slash]) = ps"
proof (cases "ps = []")
  case False
  assume p: "proper ps"
  then have "split_on slash (join ps [slash]) = ps"
    using False by (intro split_on_join) (auto simp: proper_def)
  then show ?thesis using p by (auto simp: nonempty_parts_def proper_def intro!: filter_True)
qed simp

lemma join_eq_Nil: "proper ps \<Longrightarrow> join ps [slash] = [] \<longleftrightarrow> ps = []"
  by (cases "(ps, [slash])" rule: join.cases) (auto simp: proper_def)

lemma hd_join: "proper ps \<Longrightarrow> ps \<noteq> [] \<Longrightarrow> hd (join ps [slash]) \<noteq> slash"
  by (cases "(ps, [slash])" rule: join.cases) (auto simp: proper_def hd_append dest: hd_in_set)

lemma last_join: "proper ps \<Longrightarrow> ps \<noteq> [] \<Longrightarrow> last (join ps [slash]) \<noteq> slash"
proof (induction ps "[slash]" rule: join.induct)
  case (3 x y ys)
  then show ?case using join_eq_Nil [of "y # ys"] by (auto simp: last_append)
qed (auto simp: last_in_set dest: last_in_set)

text \<open>A normal list: some \<open>..\<close>, if the path may climb, and then names.\<close>

definition normal :: "bool \<Rightarrow> jsstring list \<Rightarrow> bool" where
  "normal up_ok ps \<longleftrightarrow>
     (\<exists>u ns. ps = replicate u dotdot @ ns \<and> names ns \<and> (up_ok \<or> u = 0)) \<and> proper ps"

lemma normalI:
  "ps = replicate u dotdot @ ns \<Longrightarrow> names ns \<Longrightarrow> up_ok \<or> u = 0 \<Longrightarrow> proper ns
    \<Longrightarrow> normal up_ok ps"
  unfolding normal_def by (metis proper_replicate_dotdot proper_simps(3))

lemma proper_take: "proper ps \<Longrightarrow> proper (take n ps)"
  by (auto simp: proper_def dest: in_set_takeD)

lemma walk_step_normal:
  assumes "normal up_ok cur" "p \<noteq> []" "slash \<notin> set p"
  shows "normal up_ok (walk_step up_ok cur p)"
proof -
  obtain u ns where c: "cur = replicate u dotdot @ ns" "names ns" "up_ok \<or> u = 0" "proper cur"
    using assms(1) unfolding normal_def by blast
  consider (d) "p = dot" | (dd) "p = dotdot" | (n) "p \<noteq> dot" "p \<noteq> dotdot" by blast
  then show ?thesis
  proof cases
    case d
    then show ?thesis using assms(1) by (simp add: walk_step_def)
  next
    case dd
    show ?thesis
    proof (cases ns rule: rev_cases)
      case Nil
      then have "walk_step up_ok cur p = replicate (if up_ok then Suc u else 0) dotdot @ []"
        using dd c(1,3) by (auto simp: walk_step_def replicate_append_same)
      then show ?thesis by (rule normalI) (auto simp: names_def)
    next
      case (snoc ms m)
      then have "walk_step up_ok cur p = replicate u dotdot @ ms"
        using dd c(1,2) by (auto simp: walk_step_def names_snoc butlast_append)
      then show ?thesis using c snoc by (intro normalI [of _ u ms]) (auto simp: names_snoc)
    qed
  next
    case n
    then have "walk_step up_ok cur p = replicate u dotdot @ (ns @ [p])"
      using c(1) by (simp add: walk_step_def)
    then show ?thesis
      using c n assms(2,3) by (intro normalI [of _ u "ns @ [p]"]) (auto simp: names_snoc)
  qed
qed

lemma walk_normal: "normal up_ok cur \<Longrightarrow> proper ps \<Longrightarrow> normal up_ok (walk up_ok cur ps)"
proof (induction ps arbitrary: cur)
  case Nil
  then show ?case by (simp add: walk_def)
next
  case (Cons p ps)
  then show ?case using Cons.IH [OF walk_step_normal] by (simp add: walk_def)
qed

lemma normal_Nil [simp]: "normal up_ok []"
  by (simp add: normal_def names_def)

lemma foldr_nstep_names: "names ns \<Longrightarrow> foldr nstep ns ([], 0) = (ns, 0)"
  by (induction ns) (auto simp: names_def)

lemma walk_normal_id:
  assumes "normal up_ok ps"
  shows "walk up_ok [] ps = ps"
proof -
  obtain u ns where c: "ps = replicate u dotdot @ ns" "names ns" "up_ok \<or> u = 0"
    using assms unfolding normal_def by blast
  have "foldr nstep (replicate u dotdot) (ns, 0) = (ns, u)" by (induction u) auto
  then have "foldr nstep ps ([], 0) = (ns, u)" using c(1) foldr_nstep_names [OF c(2)] by simp
  then show ?thesis
    using walk_foldr [of "[]" up_ok 0 ps ns u] c by (auto simp: names_def)
qed

abbreviation norm_parts :: "jsstring \<Rightarrow> jsstring list" where
  "norm_parts p \<equiv> normalizeArray (nonempty_parts p) (\<not> path_isAbsolute p)"

lemma norm_parts_normal: "normal (\<not> path_isAbsolute p) (norm_parts p)"
  unfolding normalizeArray_walk by (rule walk_normal) (simp_all add: proper_nonempty_parts)

text \<open>What \<open>normalize\<close> returns, in terms of the normal list.\<close>

lemma path_normalize_eq:
  "path_normalize p =
     (if path_isAbsolute p
      then slash # join (norm_parts p) [slash] @
        (if norm_parts p \<noteq> [] \<and> last p = slash then [slash] else [])
      else (if norm_parts p = [] then dot else join (norm_parts p) [slash]) @
        (if p \<noteq> [] \<and> last p = slash then [slash] else []))"
proof -
  have "proper (norm_parts p)" using norm_parts_normal by (auto simp: normal_def)
  then have j: "join (norm_parts p) [slash] = [] \<longleftrightarrow> norm_parts p = []" by (rule join_eq_Nil)
  have ne: "path_isAbsolute p \<Longrightarrow> p \<noteq> []" by (simp add: path_isAbsolute_def)
  show ?thesis
    unfolding path_normalize_def Let_def j using ne j
    by (cases "path_isAbsolute p"; cases "norm_parts p = []") simp_all
qed

text \<open>
  Claim C15: normalizing a path that was already normalized changes nothing, for every
  string: empty, absolute, relative, with or without a trailing slash.
\<close>

theorem path_normalize_idempotent: "path_normalize (path_normalize p) = path_normalize p"
proof -
  let ?ws = "norm_parts p"
  have nrm: "normal (\<not> path_isAbsolute p) ?ws" by (rule norm_parts_normal)
  then have pr: "proper ?ws" by (simp add: normal_def)
  have np: "nonempty_parts (join ?ws [slash]) = ?ws" by (rule nonempty_parts_join [OF pr])
  have npt: "nonempty_parts (join ?ws [slash] @ [slash]) = ?ws"
    using nonempty_parts_append [of "join ?ws [slash]" "[]"] np by simp
  have ld: "nonempty_parts (slash # q) = nonempty_parts q" for q
    using nonempty_parts_append [of "[]" q] by simp
  have id: "normalizeArray ?ws (\<not> path_isAbsolute p) = ?ws"
    unfolding normalizeArray_walk [of ?ws] using nrm by (rule walk_normal_id)
  show ?thesis
  proof (cases "path_isAbsolute p")
    case True
    have "path_isAbsolute (path_normalize p)"
      using True by (simp add: path_normalize_eq [of p] path_isAbsolute_def)
    moreover have "norm_parts (path_normalize p) = ?ws"
      using True id np npt by (auto simp: path_normalize_eq [of p] ld path_isAbsolute_def)
    moreover have "?ws \<noteq> [] \<Longrightarrow> last (path_normalize p) = slash \<longleftrightarrow> last p = slash"
      using True last_join [OF pr] join_eq_Nil [OF pr] by (auto simp: path_normalize_eq [of p])
    ultimately show ?thesis
      using True by (subst path_normalize_eq) (auto simp: path_normalize_eq [of p])
  next
    case False
    have abs: "\<not> path_isAbsolute (path_normalize p)"
      using False hd_join [OF pr] join_eq_Nil [OF pr]
      by (auto simp: path_normalize_eq [of p] path_isAbsolute_def)
    have dotn: "nonempty_parts dot = [dot]" "nonempty_parts [46, slash] = [dot]"
      by (simp_all add: nonempty_parts_def)
    have "norm_parts (path_normalize p) = ?ws"
      using False id np npt dotn abs
      by (auto simp: path_normalize_eq [of p] normalizeArray_def Let_def remove_at_def split: if_splits)
    moreover have "path_normalize p \<noteq> []" "last (path_normalize p) = slash \<longleftrightarrow> p \<noteq> [] \<and> last p = slash"
      using False last_join [OF pr] join_eq_Nil [OF pr] by (auto simp: path_normalize_eq [of p])
    ultimately show ?thesis
      using False abs by (subst path_normalize_eq) (auto simp: path_normalize_eq [of p])
  qed
qed

section \<open>Resolving is changing directory\<close>

text \<open>The directory reached from \<open>cur\<close>, a list of names below the root, along the path \<open>p\<close>.\<close>

definition cd :: "jsstring list \<Rightarrow> jsstring \<Rightarrow> jsstring list" where
  "cd cur p = walk False (if path_isAbsolute p then [] else cur) (nonempty_parts p)"

lemma normal_below_root: "normal False ps \<longleftrightarrow> names ps \<and> proper ps"
  by (simp add: normal_def)

lemma walk_append: "walk up_ok cur (ps @ qs) = walk up_ok (walk up_ok cur ps) qs"
  by (simp add: walk_def)

lemma walk_Nil [simp]: "walk up_ok cur [] = cur"
  by (simp add: walk_def)

lemma cd_Nil [simp]: "cd cur [] = cur"
  by (simp add: cd_def path_isAbsolute_def)

lemma cd_normal: "normal False cur \<Longrightarrow> normal False (cd cur p)"
  unfolding cd_def by (rule walk_normal) (simp_all add: proper_nonempty_parts)

lemma foldl_cd_normal: "normal False cur \<Longrightarrow> normal False (foldl cd cur ps)"
  by (induction ps arbitrary: cur) (simp_all add: cd_normal)

lemma foldl_cd_Nil: "names (foldl cd [] ps) \<and> proper (foldl cd [] ps)"
  using foldl_cd_normal [OF normal_Nil] normal_below_root by blast

lemma resolve_loop_cd:
  "\<exists>q. resolve_loop (map Str rs @ [Str process_cwd]) rp False = Inr (q, True) \<and>
     walk False [] (nonempty_parts q) = walk False (foldl cd [] (rev rs)) (nonempty_parts rp)"
proof (induction rs arbitrary: rp)
  case Nil
  have "nonempty_parts (slash # slash # rp) = nonempty_parts rp"
    using nonempty_parts_append [of "[]"] by simp
  then show ?case by (simp add: process_cwd_def path_isAbsolute_def)
next
  case (Cons r rs)
  show ?case
  proof (cases "path_isAbsolute r")
    case True
    then have "resolve_loop (map Str (r # rs) @ [Str process_cwd]) rp False
        = Inr (r @ [slash] @ rp, True)"
      by (cases rs) (auto simp: path_isAbsolute_def)
    then show ?thesis
      using True by (simp add: nonempty_parts_append walk_append cd_def)
  next
    case False
    show ?thesis
    proof (cases "r = []")
      case True
      then show ?thesis using Cons.IH [of rp] by simp
    next
      case nonempty: False
      then show ?thesis
        using False Cons.IH [of "r @ [slash] @ rp"]
        by (simp add: nonempty_parts_append walk_append cd_def)
    qed
  qed
qed

lemma path_resolve_eq:
  "path_resolve (map Str ps) = Inr (slash # join (foldl cd [] ps) [slash])"
proof -
  obtain q where "resolve_loop (map Str (rev ps) @ [Str process_cwd]) [] False = Inr (q, True)"
    and "walk False [] (nonempty_parts q) = foldl cd [] ps"
    using resolve_loop_cd [of "rev ps" "[]"] by auto
  then show ?thesis
    by (simp add: path_resolve_def rev_map normalizeArray_walk)
qed

text \<open>
  Claim C13: resolving a list of strings always succeeds, and gives the absolute path of the
  directory reached from the root by changing directory along them in turn; its parts are
  proper names, neither \<open>.\<close> nor \<open>..\<close>.
\<close>

theorem path_resolve_is_cd:
  "path_resolve (map Str ps) = Inr (slash # join (foldl cd [] ps) [slash])
    \<and> names (foldl cd [] ps) \<and> proper (foldl cd [] ps)"
  using path_resolve_eq [of ps] foldl_cd_Nil [of ps] by blast

lemma walk_names: "names ns \<Longrightarrow> walk up_ok cur ns = cur @ ns"
  by (induction ns arbitrary: cur) (auto simp: walk_def walk_step_def names_def)

lemma walk_climb:
  "names ns \<Longrightarrow> n \<le> length ns \<Longrightarrow> walk up_ok ns (replicate n dotdot) = take (length ns - n) ns"
proof (induction n arbitrary: ns)
  case (Suc n)
  then obtain ms m where ns: "ns = ms @ [m]" by (cases ns rule: rev_cases) auto
  then have "walk_step up_ok ns dotdot = ms"
    using Suc.prems by (simp add: walk_step_def names_snoc)
  then show ?case using Suc ns by (simp add: walk_def names_snoc)
qed simp

lemma same_parts_le: "same_parts as bs \<le> length as" "same_parts as bs \<le> length bs"
  by (induction as bs rule: same_parts.induct) auto

lemma take_same_parts: "take (same_parts as bs) as = take (same_parts as bs) bs"
  by (induction as bs rule: same_parts.induct) auto

lemma trim_parts_proper: "proper ps \<Longrightarrow> trim_parts (split_on slash (join ps [slash])) = ps"
proof (cases "ps = []")
  case True
  then show ?thesis by (simp add: trim_parts_def)
next
  case False
  assume p: "proper ps"
  have "split_on slash (join ps [slash]) = ps"
    using False p by (intro split_on_join) (auto simp: proper_def)
  moreover have "takeWhile (\<lambda>s. s = []) ps = []"
    using False p by (cases ps) auto
  moreover have "takeWhile (\<lambda>s. s = []) (rev ps) = []"
    using False p by (cases ps rule: rev_cases) auto
  ultimately show ?thesis using False by (simp add: trim_parts_def slice_full)
qed

lemma path_resolve1: "path_resolve [Str p] = Inr (slash # join (cd [] p) [slash])"
  using path_resolve_eq [of "[p]"] by simp

text \<open>
  Claim C14: the relative path from one path to another always exists, and resolving it
  from the first path reaches the second.
\<close>

theorem path_relative_resolve:
  "\<exists>r. path_relative (Str from) (Str to) = Inr r
     \<and> path_resolve [Str from, Str r] = path_resolve [Str to]"
proof -
  let ?F = "cd [] from" and ?T = "cd [] to"
  let ?k = "same_parts ?F ?T"
  let ?out = "replicate (length ?F - ?k) dotdot @ drop ?k ?T"
  let ?r = "join ?out [slash]"
  have F: "names ?F" "proper ?F" and T: "names ?T" "proper ?T"
    using foldl_cd_Nil [of "[from]"] foldl_cd_Nil [of "[to]"] by simp_all
  have dT: "names (drop ?k ?T)" "proper (drop ?k ?T)"
    using T by (auto simp: names_def proper_def dest: in_set_dropD)
  have out: "proper ?out" using dT by simp
  have rel: "path_relative (Str from) (Str to) = Inr ?r"
    using F T by (simp add: path_relative_def path_resolve1 Let_def trim_parts_proper)
  have "\<not> path_isAbsolute ?r"
    using hd_join [OF out] by (cases "?out = []") (auto simp: path_isAbsolute_def)
  then have "cd ?F ?r = walk False ?F ?out"
    by (simp only: cd_def [of ?F] nonempty_parts_join [OF out] if_False)
  also have "\<dots> = take ?k ?F @ drop ?k ?T"
    using F dT same_parts_le [of ?F ?T] by (simp add: walk_append walk_climb walk_names)
  also have "\<dots> = ?T" unfolding take_same_parts [of ?F ?T] by (rule append_take_drop_id)
  finally have "path_resolve [Str from, Str ?r] = path_resolve [Str to]"
    using path_resolve_eq [of "[from, ?r]"] path_resolve1 [of to] by simp
  with rel show ?thesis by blast
qed

section \<open>Splitting a path\<close>

lemma strip_slashes_simps:
  "strip_slashes [] = []"
  "strip_slashes (p @ [c]) = (if c = slash then strip_slashes p else p @ [c])"
  by (simp_all add: strip_slashes_def)

lemma strip_slashes_decomp: "\<exists>n. p = strip_slashes p @ replicate n slash"
proof (induction p rule: rev_induct)
  case (snoc c p)
  then obtain n where n: "p = strip_slashes p @ replicate n slash" by blast
  have "p @ [slash] = strip_slashes p @ replicate (Suc n) slash"
    by (subst n) (simp add: replicate_append_same)
  then have "c = slash \<Longrightarrow> ?case" 
    unfolding strip_slashes_simps by (intro exI [of _ "Suc n"]) simp
  moreover have "c \<noteq> slash \<Longrightarrow> ?case" by (simp add: strip_slashes_simps)
  ultimately show ?case by blast
qed (simp add: strip_slashes_simps)

lemma strip_slashes_last: "strip_slashes p \<noteq> [] \<Longrightarrow> last (strip_slashes p) \<noteq> slash"
  by (induction p rule: rev_induct) (auto simp: strip_slashes_simps)

text \<open>The text after the last slash, and the text up to it.\<close>

definition last_name :: "jsstring \<Rightarrow> jsstring" where
  "last_name core = rev (takeWhile (\<lambda>c. c \<noteq> slash) (rev core))"

lemma last_name_simps:
  "last_name [] = []"
  "last_name (p @ [c]) = (if c = slash then [] else last_name p @ [c])"
  by (simp_all add: last_name_def)

lemma last_name_no_slash: "slash \<notin> set (last_name p)"
  by (induction p rule: rev_induct) (auto simp: last_name_simps)

lemma last_name_decomp:
  "\<exists>d. p = d @ last_name p \<and> (d = [] \<or> last d = slash)"
proof (induction p rule: rev_induct)
  case (snoc c p)
  then obtain d where d: "p = d @ last_name p" "d = [] \<or> last d = slash" by blast
  then have "p @ [c] = d @ last_name p @ [c]" by simp
  then show ?case
    using d(2) by (cases "c = slash") (auto simp: last_name_simps)
qed (simp add: last_name_simps)

lemma split_ext_suffix: "\<exists>b. x = b @ split_ext x" and split_ext_is_ext: "is_ext (split_ext x)"
proof -
  have "is_ext []" by (simp add: is_ext_def)
  then show "is_ext (split_ext x)"
    by (auto simp: split_ext_def find_Some_iff split: option.splits)
  show "\<exists>b. x = b @ split_ext x"
    by (auto simp: split_ext_def split: option.splits) (metis append_take_drop_id)
qed

lemma splitPath_recomposes:
  "case splitPath p of (root, dir, name, ext) \<Rightarrow>
     (\<exists>n. p = root @ dir @ name @ replicate n slash)
     \<and> (root = [slash] \<and> path_isAbsolute p \<or> root = [] \<and> \<not> path_isAbsolute p)
     \<and> slash \<notin> set name
     \<and> (dir = [] \<or> name \<noteq> [] \<and> last dir = slash)
     \<and> (\<exists>stem. name = stem @ ext) \<and> is_ext ext"
proof -
  let ?root = "if path_isAbsolute p then [slash] else []"
  define rest where "rest = drop (length ?root) p"
  define core where "core = strip_slashes rest"
  define name where "name = last_name core"
  define dir where "dir = take (length core - length name) core"
  have sp: "splitPath p = (?root, dir, name, split_ext name)"
    by (simp add: splitPath_def rest_def core_def name_def dir_def last_name_def Let_def)
  have p: "p = ?root @ rest"
    by (cases p) (auto simp: rest_def path_isAbsolute_def)
  obtain n where n: "rest = core @ replicate n slash"
    using strip_slashes_decomp [of rest] unfolding core_def by blast
  obtain d where d: "core = d @ name" "d = [] \<or> last d = slash"
    using last_name_decomp [of core] unfolding name_def by blast
  then have dir: "dir = d" by (simp add: dir_def)
  have "d \<noteq> [] \<Longrightarrow> name \<noteq> []"
    using d strip_slashes_last [of rest, folded core_def] by auto
  then have "dir = [] \<or> name \<noteq> [] \<and> last dir = slash" using d(2) dir by blast
  moreover have "p = ?root @ dir @ name @ replicate n slash"
    using p n d(1) dir by simp
  moreover obtain b where "name = b @ split_ext name" using split_ext_suffix by blast
  ultimately show ?thesis
    unfolding sp using last_name_no_slash [of core, folded name_def] split_ext_is_ext [of name] by auto
qed

lemma path_normalize_cong:
  assumes "path_isAbsolute p = path_isAbsolute q"
    and "p \<noteq> [] \<and> last p = slash \<longleftrightarrow> q \<noteq> [] \<and> last q = slash"
    and "norm_parts p = norm_parts q"
  shows "path_normalize p = path_normalize q"
proof -
  have "path_isAbsolute x \<Longrightarrow> x \<noteq> []" for x by (simp add: path_isAbsolute_def)
  then show ?thesis
    unfolding path_normalize_eq [of p] path_normalize_eq [of q] using assms by auto
qed

lemma nonempty_parts_name: "slash \<notin> set name \<Longrightarrow> name \<noteq> [] \<Longrightarrow> nonempty_parts name = [name]"
  by (simp add: nonempty_parts_def split_on_single)

text \<open>
  Claim C16: joining the directory name and the base name of a path that does not end in
  a slash gives back the path, normalized.
\<close>

theorem path_join_dirname_basename:
  assumes "p \<noteq> []" "last p \<noteq> slash"
  shows "path_join [Str (path_dirname p), Str (path_basename p None)] = Inr (path_normalize p)"
proof -
  obtain root dir name ext where sp: "splitPath p = (root, dir, name, ext)" by (cases "splitPath p") auto
  obtain n where n: "p = root @ dir @ name @ replicate n slash"
    and root: "root = [slash] \<and> path_isAbsolute p \<or> root = [] \<and> \<not> path_isAbsolute p"
    and name: "slash \<notin> set name" and dir: "dir = [] \<or> name \<noteq> [] \<and> last dir = slash"
    using splitPath_recomposes [of p] unfolding sp by auto
  have "n = 0" using assms n by (cases n) (auto simp: replicate_append_same [symmetric])
  then have p: "p = root @ dir @ name" using n by simp
  have ne: "name \<noteq> []" using assms p root dir by auto
  define dn where "dn = path_dirname p"
  have np_dir: "nonempty_parts (butlast dir) @ [name] = nonempty_parts (dir @ name)"
  proof (cases dir rule: rev_cases)
    case Nil
    then show ?thesis using name ne by (simp add: nonempty_parts_name)
  next
    case (snoc d c)
    then show ?thesis using dir name ne by (simp add: nonempty_parts_append nonempty_parts_name)
  qed
  have dn: "dn = (if root = [] \<and> dir = [] then dot else root @ butlast dir)"
    by (simp add: dn_def path_dirname_def sp butlast_conv_take)
  have "\<not> path_isAbsolute p \<Longrightarrow> dir \<noteq> [] \<Longrightarrow> butlast dir \<noteq> [] \<and> hd (butlast dir) \<noteq> slash"
    using p root dir by (cases dir rule: rev_cases; cases "butlast dir") (auto simp: path_isAbsolute_def)
  then have dn_ne: "dn \<noteq> []" and dn_abs: "path_isAbsolute (dn @ slash # name) = path_isAbsolute p"
    using root dn by (auto simp: path_isAbsolute_def)
  have ld: "nonempty_parts (slash # q) = nonempty_parts q" for q
    using nonempty_parts_append [of "[]" q] by simp
  have "norm_parts (dn @ slash # name) = norm_parts p"
  proof (cases "root = [] \<and> dir = []")
    case True
    have "nonempty_parts dot = [dot]" by (simp add: nonempty_parts_name)
    moreover have "walk_step u [] dot = []" for u by (simp add: walk_step_def)
    moreover have "nonempty_parts (dot @ slash # name) = nonempty_parts dot @ nonempty_parts name"
      by (rule nonempty_parts_append)
    ultimately have "walk u [] (nonempty_parts (dot @ slash # name)) = walk u [] [name]" for u
      using name ne by (simp only: nonempty_parts_name walk_def append_Cons append_Nil foldl_Cons
          not_False_eq_True)
    then show ?thesis
      using True dn dn_abs p name ne root
      by (simp add: nonempty_parts_name normalizeArray_walk)
  next
    case False
    then show ?thesis
      using dn dn_abs p name ne root np_dir
      by (auto simp: nonempty_parts_append nonempty_parts_name ld)
  qed
  then have "path_normalize (dn @ slash # name) = path_normalize p"
    using dn_abs assms ne p by (intro path_normalize_cong) auto
  moreover have "path_basename p None = name" by (simp add: path_basename_def sp)
  ultimately show ?thesis
    using dn_ne ne by (simp add: path_join_def flip: dn_def)
qed

theorem path_join_dirname_basename_witness:
  "js ''../a//b.txt'' \<noteq> [] \<and> last (js ''../a//b.txt'') \<noteq> slash \<and>
    path_join [Str (path_dirname (js ''../a//b.txt'')), Str (path_basename (js ''../a//b.txt'') None)]
      = Inr (path_normalize (js ''../a//b.txt'')) \<and>
    path_normalize (js ''../a//b.txt'') = js ''../a/b.txt''"
proof -
  have h: "js ''../a//b.txt'' \<noteq> []" "last (js ''../a//b.txt'') \<noteq> slash" by code_simp+
  moreover have "path_normalize (js ''../a//b.txt'') = js ''../a/b.txt''" by code_simp
  ultimately show ?thesis using path_join_dirname_basename [OF h] by blast
qed

end
