(* ===== verification/Js_Strings.thy ===== *)
theory Js_Strings
  imports Prelude
begin

text \<open>
  The string methods that search and split by a string of any length: \<open>indexOf\<close> and \<open>split\<close>,
  and the decimal notation of integers (\<open>String(i)\<close>, \<open>parseInt\<close>).
\<close>

section \<open>Searching\<close>

text \<open>\<open>str.indexOf(a, from)\<close>; the result -1 is \<open>None\<close>.\<close>

definition indexOf :: "jsstring \<Rightarrow> jsstring \<Rightarrow> nat \<Rightarrow> nat option" where
  "indexOf str a from =
     find (\<lambda>i. take (length a) (drop i str) = a) [min from (length str)..<Suc (length str)]"

lemma indexOf_char:
  "indexOf str [c] k = find (\<lambda>i. str ! i = c) [k..<length str]"
proof -
  have "find (\<lambda>i. take (length [c]) (drop i str) = [c]) [n..<Suc (length str)]
      = find (\<lambda>i. str ! i = c) [n..<length str]" if "n \<le> length str" for n
  proof -
    have "find (\<lambda>i. take (length [c]) (drop i str) = [c]) [n..<length str]
        = find (\<lambda>i. str ! i = c) [n..<length str]"
      by (rule find_cong) (auto simp: take_Suc_conv_app_nth take_Suc hd_drop_conv_nth)
    then show ?thesis
      using that by (auto simp: find_append split: option.splits)
  qed
  then show ?thesis by (cases "k \<le> length str") (simp_all add: indexOf_def)
qed

lemma indexOf_char_step:
  assumes "k < length str"
  shows "indexOf str [c] k = (if str ! k = c then Some k else indexOf str [c] (Suc k))"
  using assms by (simp add: indexOf_char upt_rec)

lemma indexOf_char_end: "length str \<le> k \<Longrightarrow> indexOf str [c] k = None"
  by (simp add: indexOf_char)

lemma indexOf_char_ge: "indexOf str [c] k = Some i \<Longrightarrow> k \<le> i \<and> i < length str \<and> str ! i = c"
  by (auto simp: indexOf_char find_Some_iff)

lemma indexOf_char_None: "indexOf str [c] 0 = None \<longleftrightarrow> c \<notin> set str"
  by (auto simp: indexOf_char find_None_iff in_set_conv_nth)

section \<open>Splitting by a string\<close>

text \<open>\<open>str.split(sep)\<close>: the separators are the leftmost disjoint occurrences; the empty
  separator gives the code units.\<close>

function split_at :: "jsstring \<Rightarrow> jsstring \<Rightarrow> jsstring list" where
  "split_at sep s =
     (if sep \<noteq> [] \<and> take (length sep) s = sep then [] # split_at sep (drop (length sep) s)
      else case s of
        [] \<Rightarrow> [[]]
      | c # cs \<Rightarrow> (case split_at sep cs of [] \<Rightarrow> [[c]] | w # ws \<Rightarrow> (c # w) # ws))"
  by pat_completeness auto
termination
proof (relation "measure (\<lambda>(sep, s). length s)", goal_cases)
  case (2 sep s)
  then have "s \<noteq> []" by auto
  then show ?case using 2 by simp
qed auto

declare split_at.simps [simp del]

definition split_str :: "jsstring \<Rightarrow> jsstring \<Rightarrow> jsstring list" where
  "split_str s sep = (if sep = [] then map (\<lambda>c. [c]) s else split_at sep s)"

lemma split_at_neq_Nil [simp]: "split_at sep s \<noteq> []"
  by (induction sep s rule: split_at.induct) (subst split_at.simps, auto split: list.splits)

lemma join_Cons: "ws \<noteq> [] \<Longrightarrow> join (w # ws) d = w @ d @ join ws d"
  by (cases ws) auto

lemma join_Cons_hd: "join ((c # w) # ws) d = c # join (w # ws) d"
  by (cases ws) auto

lemma join_split_at: "join (split_at sep s) sep = s"
proof (induction sep s rule: split_at.induct)
  case (1 sep s)
  show ?case
  proof (cases "sep \<noteq> [] \<and> take (length sep) s = sep")
    case True
    then have "join (split_at sep s) sep = sep @ drop (length sep) s"
      using "1.IH"(1) by (subst split_at.simps) (simp add: join_Cons)
    also have "\<dots> = s" using True by (metis append_take_drop_id)
    finally show ?thesis .
  next
    case False
    show ?thesis
    proof (cases s)
      case Nil
      then show ?thesis using False by (subst split_at.simps) auto
    next
      case (Cons c cs)
      obtain w ws where w: "split_at sep cs = w # ws" by (cases "split_at sep cs") auto
      have "split_at sep s = (c # w) # ws"
        using False Cons w by (subst split_at.simps) auto
      then show ?thesis using "1.IH"(2) [OF False Cons] w Cons by (simp add: join_Cons_hd)
    qed
  qed
qed

text \<open>A string in which the first unit of the separator does not occur is not split.\<close>

lemma split_at_no_hd: "sep \<noteq> [] \<Longrightarrow> hd sep \<notin> set s \<Longrightarrow> split_at sep s = [s]"
proof (induction s)
  case Nil
  then show ?case by (subst split_at.simps) auto
next
  case (Cons c cs)
  then have "take (length sep) (c # cs) \<noteq> sep" by (cases sep) auto
  then show ?case using Cons by (subst split_at.simps) auto
qed

section \<open>Decimal notation\<close>

definition digit_unit :: "nat \<Rightarrow> code_unit" where
  "digit_unit n = of_nat (48 + n)"

fun decimal :: "nat \<Rightarrow> jsstring" where
  "decimal n = (if n < 10 then [digit_unit n] else decimal (n div 10) @ [digit_unit (n mod 10)])"

declare decimal.simps [simp del]

text \<open>\<open>String(i)\<close> for an integer.\<close>

definition int_string :: "int \<Rightarrow> jsstring" where
  "int_string i = (if i < 0 then 45 # decimal (nat (- i)) else decimal (nat i))"

definition is_digit :: "code_unit \<Rightarrow> bool" where
  "is_digit c \<longleftrightarrow> 48 \<le> c \<and> c \<le> 57"

definition digits_value :: "jsstring \<Rightarrow> nat" where
  "digits_value s = foldl (\<lambda>v c. 10 * v + (unat c - 48)) 0 s"

text \<open>\<open>parseInt(s, 10)\<close> on a string of the form \<open>-?\d+\<close>.\<close>

definition parse_int :: "jsstring \<Rightarrow> int" where
  "parse_int s =
     (if s \<noteq> [] \<and> hd s = 45 then - int (digits_value (tl s)) else int (digits_value s))"

definition is_int :: "jsstring \<Rightarrow> bool" where
  "is_int s \<longleftrightarrow>
     (let ds = (if s \<noteq> [] \<and> hd s = 45 then tl s else s) in ds \<noteq> [] \<and> list_all is_digit ds)"

lemma unat_digit_unit: "n < 10 \<Longrightarrow> unat (digit_unit n) = 48 + n"
  unfolding digit_unit_def by (simp add: unsigned_of_nat take_bit_eq_mod del: of_nat_add)

lemma is_digit_unit: "n < 10 \<Longrightarrow> is_digit (digit_unit n)"
  using unat_digit_unit [of n] by (simp add: is_digit_def word_le_nat_alt)

lemma decimal_digits: "decimal n \<noteq> [] \<and> list_all is_digit (decimal n)"
proof (induction n rule: decimal.induct)
  case (1 n)
  then show ?case using decimal.simps [of n] by (auto simp: is_digit_unit)
qed

lemma digits_value_decimal: "digits_value (decimal n) = n"
proof (induction n rule: decimal.induct)
  case (1 n)
  then show ?case
    by (subst decimal.simps) (auto simp: digits_value_def unat_digit_unit)
qed

lemma decimal_hd: "hd (decimal n) \<noteq> 45"
proof -
  have "is_digit (hd (decimal n))"
    using decimal_digits [of n] by (metis list.set_sel(1) list_all_iff)
  then show ?thesis by (auto simp: is_digit_def)
qed

lemma parse_int_string: "parse_int (int_string i) = i"
  using decimal_hd decimal_digits by (auto simp: parse_int_def int_string_def digits_value_decimal)

lemma is_int_string: "is_int (int_string i)"
  using decimal_digits decimal_hd by (auto simp: is_int_def int_string_def Let_def)

end
