(* ===== verification/Balanced_Match.thy ===== *)
theory Balanced_Match
  imports Js_Strings
begin

text \<open>
  The search for a balanced pair of delimiters (module 10 of \<open>wordcut.js\<close>), which brace
  expansion uses.  The source jumps from delimiter to delimiter with \<open>indexOf\<close> and keeps a
  stack of the open ones.  Shown here: for two different delimiters of one unit the search
  ends, and it finds the leftmost opening delimiter that is closed, with the delimiter that
  closes it, or reports that there is none.
\<close>

section \<open>Definitions\<close>

text \<open>A delimiter is a string, or a regular expression, of which \<open>str.match\<close> is the argument.\<close>

datatype delimiter = Lit jsstring | RegExp "jsstring \<Rightarrow> jsstring option"

record balanced_match =
  bm_start :: nat
  bm_end :: "nat option"
  bm_pre :: jsstring
  bm_body :: jsstring
  bm_post :: jsstring

definition maybeMatch :: "(jsstring \<Rightarrow> jsstring option) \<Rightarrow> jsstring \<Rightarrow> jsstring option" where
  "maybeMatch reg str = reg str"

text \<open>The choice at the end of a pass: \<open>ai < bi && ai >= 0 ? ai : bi\<close>, with -1 as \<open>None\<close>.\<close>

definition next_index :: "nat option \<Rightarrow> nat option \<Rightarrow> nat option" where
  "next_index ai bi =
     (case (ai, bi) of (Some i, Some j) \<Rightarrow> if i < j then Some i else Some j | _ \<Rightarrow> bi)"

text \<open>The \<open>while\<close> loop and what follows it.  The stack \<open>begs\<close> has its top first; \<open>right\<close> is
  \<open>None\<close> while undefined.  With an empty delimiter the loop need not end.\<close>

partial_function (option) range_loop ::
  "jsstring \<Rightarrow> jsstring \<Rightarrow> jsstring \<Rightarrow> nat option \<Rightarrow> nat option \<Rightarrow> nat option \<Rightarrow> nat list
     \<Rightarrow> nat \<Rightarrow> nat option \<Rightarrow> (nat \<times> nat option) option option" where
  "range_loop a b str i ai bi begs left right =
     (case i of
        None \<Rightarrow> Some (if begs \<noteq> [] then Some (left, right) else None)
      | Some k \<Rightarrow>
          if ai = Some k then
            (let ai' = indexOf str a (Suc k)
             in range_loop a b str (next_index ai' bi) ai' bi (k # begs) left right)
          else (case begs of
              [] \<Rightarrow>
                (let bi' = indexOf str b (Suc k)
                 in range_loop a b str (next_index ai bi') ai bi' [] left right)
            | [beg] \<Rightarrow> Some (Some (beg, bi))
            | beg # begs' \<Rightarrow>
                (let bi' = indexOf str b (Suc k);
                     left' = (if beg < left then beg else left);
                     right' = (if beg < left then bi else right)
                 in range_loop a b str (next_index ai bi') ai bi' begs' left' right')))"

declare range_loop.simps [code]

definition balanced_range ::
  "jsstring \<Rightarrow> jsstring \<Rightarrow> jsstring \<Rightarrow> (nat \<times> nat option) option option" where
  "balanced_range a b str =
     (let ai = indexOf str a 0;
          bi = indexOf str b (case ai of None \<Rightarrow> 0 | Some i \<Rightarrow> Suc i)
      in case (ai, bi) of
           (Some i, Some j) \<Rightarrow>
             if 0 < j then range_loop a b str (Some i) ai bi [] (length str) None else Some None
         | _ \<Rightarrow> Some None)"

text \<open>A regular expression without a match becomes \<open>null\<close>, which \<open>indexOf\<close> reads as the string
  \<open>null\<close> and whose \<open>length\<close> throws.  An undefined end makes \<open>slice\<close> run to the end of the
  string, and \<open>undefined + n\<close> is \<open>NaN\<close>, from which \<open>slice\<close> starts at 0.\<close>

definition delimiter_string :: "delimiter \<Rightarrow> jsstring \<Rightarrow> jsstring option" where
  "delimiter_string d str = (case d of Lit s \<Rightarrow> Some s | RegExp r \<Rightarrow> maybeMatch r str)"

definition or_null :: "jsstring option \<Rightarrow> jsstring" where
  "or_null a = (case a of None \<Rightarrow> js ''null'' | Some s \<Rightarrow> s)"

definition balanced ::
  "delimiter \<Rightarrow> delimiter \<Rightarrow> jsstring \<Rightarrow> (js_error + balanced_match option) option" where
  "balanced a b str =
     (let a' = delimiter_string a str; b' = delimiter_string b str
      in map_option (\<lambda>r.
           case r of
             None \<Rightarrow> Inr None
           | Some (s, e) \<Rightarrow>
               (case (a', b') of
                  (Some sa, Some sb) \<Rightarrow>
                    Inr (Some \<lparr>bm_start = s, bm_end = e, bm_pre = take s str,
                      bm_body = (case e of None \<Rightarrow> drop (s + length sa) str
                                 | Some n \<Rightarrow> slice str (s + length sa) n),
                      bm_post = (case e of None \<Rightarrow> str | Some n \<Rightarrow> drop (n + length sb) str)\<rparr>)
                | _ \<Rightarrow> Inl TypeError))
         (balanced_range (or_null a') (or_null b') str))"

section \<open>Depth of nesting\<close>

text \<open>The depth after reading a text from depth \<open>d\<close>; \<open>None\<close> when a closing delimiter has no
  partner.\<close>

fun depth :: "code_unit \<Rightarrow> code_unit \<Rightarrow> nat \<Rightarrow> jsstring \<Rightarrow> nat option" where
  "depth a b d [] = Some d"
| "depth a b d (c # s) =
     (if c = a then depth a b (Suc d) s
      else if c = b then (if d = 0 then None else depth a b (d - 1) s)
      else depth a b d s)"

lemma depth_snoc:
  "depth a b d (s @ [c]) =
     (case depth a b d s of
        None \<Rightarrow> None
      | Some n \<Rightarrow> if c = a then Some (Suc n) else if c = b then (if n = 0 then None else Some (n - 1))
          else Some n)"
  by (induction s arbitrary: d) auto

lemma depth_append: "depth a b d (s @ t) = Option.bind (depth a b d s) (\<lambda>n. depth a b n t)"
  by (induction s arbitrary: d) auto

text \<open>The opening delimiter at \<open>l\<close> is closed at \<open>r\<close>.\<close>

definition closes :: "code_unit \<Rightarrow> code_unit \<Rightarrow> jsstring \<Rightarrow> nat \<Rightarrow> nat \<Rightarrow> bool" where
  "closes a b s l r \<longleftrightarrow>
     l < r \<and> r < length s \<and> s ! l = a \<and> s ! r = b \<and> depth a b 0 (slice s (Suc l) r) = Some 0"

lemma closes_depth_None:
  assumes "closes a b s l r" "r < k" "k \<le> length s" "a \<noteq> b"
  shows "depth a b 0 (slice s (Suc l) k) = None"
proof -
  have "slice s (Suc l) k = slice s (Suc l) r @ slice s r (Suc r) @ slice s (Suc r) k"
    using assms by (simp add: closes_def slice_append)
  also have "slice s r (Suc r) = [b]"
    using assms by (simp add: closes_def slice_Suc)
  finally show ?thesis
    using assms by (simp add: closes_def depth_append)
qed

section \<open>A scan of one unit at a time\<close>

function scan :: "code_unit \<Rightarrow> code_unit \<Rightarrow> jsstring \<Rightarrow> nat \<Rightarrow> nat list \<Rightarrow> nat \<Rightarrow> nat option
    \<Rightarrow> (nat \<times> nat option) option" where
  "scan a b s k begs left right =
     (if length s \<le> k then (if begs \<noteq> [] then Some (left, right) else None)
      else if s ! k = a then scan a b s (Suc k) (k # begs) left right
      else if s ! k = b then
        (case begs of
           [] \<Rightarrow> scan a b s (Suc k) [] left right
         | [beg] \<Rightarrow> Some (beg, Some k)
         | beg # begs' \<Rightarrow> scan a b s (Suc k) begs' (if beg < left then beg else left)
             (if beg < left then Some k else right))
      else scan a b s (Suc k) begs left right)"
  by pat_completeness auto
termination by (relation "measure (\<lambda>(a, b, s, k, _). length s - k)") auto

declare scan.simps [simp del]

lemma scan_no_close:
  "\<forall>i. k \<le> i \<longrightarrow> i < length s \<longrightarrow> s ! i \<noteq> b \<Longrightarrow> begs \<noteq> [] \<Longrightarrow> scan a b s k begs left right = Some (left, right)"
proof (induction "length s - k" arbitrary: k begs)
  case 0
  then show ?case by (subst scan.simps) simp
next
  case (Suc n)
  then have "k < length s" "s ! k \<noteq> b" by auto
  moreover have "n = length s - Suc k" using Suc by simp
  ultimately show ?case using Suc by (subst scan.simps) auto
qed

lemma range_loop_scan:
  assumes "a \<noteq> b" "begs \<noteq> []"
  shows "range_loop [a] [b] s (next_index (indexOf s [a] k) (indexOf s [b] k))
      (indexOf s [a] k) (indexOf s [b] k) begs left right
    = Some (scan a b s k begs left right)"
  using assms(2)
proof (induction "length s - k" arbitrary: k begs left right)
  case 0
  then have "indexOf s [a] k = None" "indexOf s [b] k = None" by (simp_all add: indexOf_char_end)
  then show ?case using 0 by (simp add: range_loop.simps scan.simps [of _ _ _ k] next_index_def)
next
  case (Suc n)
  then have k: "k < length s" and n: "n = length s - Suc k" by simp_all
  note IH = Suc.hyps(1) [OF n]
  consider (a) "s ! k = a" | (b) "s ! k = b" "s ! k \<noteq> a" | (o) "s ! k \<noteq> a" "s ! k \<noteq> b" by blast
  then show ?case
  proof cases
    case a
    then have ia: "indexOf s [a] k = Some k" and ib: "indexOf s [b] k = indexOf s [b] (Suc k)"
      using assms k by (simp_all add: indexOf_char_step)
    show ?thesis
    proof (cases "indexOf s [b] (Suc k)")
      case None
      then have "\<forall>i. k \<le> i \<longrightarrow> i < length s \<longrightarrow> s ! i \<noteq> b"
        using a assms(1) by (auto simp: indexOf_char find_None_iff) (metis Suc_leI le_neq_implies_less)
      then show ?thesis
        using None ia ib Suc.prems by (simp add: scan_no_close range_loop.simps next_index_def)
    next
      case (Some j)
      then have "k < j" using indexOf_char_ge by fastforce
      then have "next_index (Some k) (Some j) = Some k" by (simp add: next_index_def)
      then show ?thesis
        using Some ia ib a k IH [of "k # begs" left right]
        by (subst range_loop.simps, subst scan.simps) simp
    qed
  next
    case b
    then have ib: "indexOf s [b] k = Some k" and ia: "indexOf s [a] k = indexOf s [a] (Suc k)"
      using assms k by (simp_all add: indexOf_char_step)
    have nk: "indexOf s [a] (Suc k) \<noteq> Some k" using indexOf_char_ge by fastforce
    have nx: "next_index (indexOf s [a] (Suc k)) (Some k) = Some k"
      using indexOf_char_ge [of s a "Suc k"] by (auto simp: next_index_def split: option.splits)
    obtain beg begs' where bs: "begs = beg # begs'" using Suc.prems by (cases begs) auto
    show ?thesis
      using ia ib nk nx b k bs IH [of begs' "if beg < left then beg else left" "if beg < left then Some k else right"]
      by (subst range_loop.simps, subst scan.simps, cases begs'; cases "beg < left") (simp_all add: Let_def)
  next
    case o
    then have "indexOf s [b] k = indexOf s [b] (Suc k)" "indexOf s [a] k = indexOf s [a] (Suc k)"
      using k by (simp_all add: indexOf_char_step)
    then show ?thesis using o k IH [of begs] Suc.prems by (subst scan.simps) simp
  qed
qed

text \<open>What holds after reading \<open>k\<close> units.  \<open>begs\<close> are the open delimiters, the innermost first,
  each at its depth; every other opening delimiter was closed, and \<open>left\<close> is the leftmost
  of those, closed at \<open>right\<close>.\<close>

definition scanned :: "code_unit \<Rightarrow> code_unit \<Rightarrow> jsstring \<Rightarrow> nat \<Rightarrow> nat list \<Rightarrow> nat \<Rightarrow> nat option \<Rightarrow> bool" where
  "scanned a b s k begs left right \<longleftrightarrow>
     k \<le> length s \<and> begs \<noteq> [] \<and>
     (\<forall>j < length begs. begs ! j < k \<and> s ! (begs ! j) = a
        \<and> depth a b 0 (slice s (Suc (begs ! j)) k) = Some j) \<and>
     (\<forall>l < last begs. s ! l \<noteq> a) \<and>
     (\<forall>l < k. s ! l = a \<longrightarrow> l \<in> set begs \<or> left \<le> l) \<and>
     (right = None \<and> left = length s \<or> (\<exists>r < k. right = Some r \<and> closes a b s left r))"

definition leftmost_closed :: "code_unit \<Rightarrow> code_unit \<Rightarrow> jsstring \<Rightarrow> (nat \<times> nat option) option \<Rightarrow> bool" where
  "leftmost_closed a b s res \<longleftrightarrow>
     (case res of
        None \<Rightarrow> (\<forall>l r. \<not> closes a b s l r)
      | Some (l, e) \<Rightarrow>
          (\<exists>r. e = Some r \<and> closes a b s l r) \<and> (\<forall>l' < l. \<forall>r. \<not> closes a b s l' r))"

lemma scannedD:
  assumes "scanned a b s k begs left right"
  shows "k \<le> length s" "begs \<noteq> []"
    and "j < length begs \<Longrightarrow> begs ! j < k" "j < length begs \<Longrightarrow> s ! (begs ! j) = a"
    and "j < length begs \<Longrightarrow> depth a b 0 (slice s (Suc (begs ! j)) k) = Some j"
    and "l < last begs \<Longrightarrow> s ! l \<noteq> a"
    and "l < k \<Longrightarrow> s ! l = a \<Longrightarrow> l \<in> set begs \<or> left \<le> l"
    and "right = None \<and> left = length s \<or> (\<exists>r < k. right = Some r \<and> closes a b s left r)"
  using assms unfolding scanned_def by blast+

lemma scanned_open:
  assumes sc: "scanned a b s k begs left right" and k: "k < length s" "s ! k = a"
  shows "scanned a b s (Suc k) (k # begs) left right"
  unfolding scanned_def
proof (intro conjI allI impI)
  show "Suc k \<le> length s" "k # begs \<noteq> []" using k by simp_all
next
  fix j assume j: "j < length (k # begs)"
  have "(k # begs) ! j < Suc k \<and> s ! ((k # begs) ! j) = a
      \<and> depth a b 0 (slice s (Suc ((k # begs) ! j)) (Suc k)) = Some j"
  proof (cases j)
    case (Suc i)
    then have "i < length begs" using j by simp
    note * = scannedD(3,4,5) [OF sc this]
    then show ?thesis using k Suc by (simp add: slice_Suc depth_snoc)
  qed (use k in simp)
  then show "(k # begs) ! j < Suc k" "s ! ((k # begs) ! j) = a"
    "depth a b 0 (slice s (Suc ((k # begs) ! j)) (Suc k)) = Some j" by blast+
next
  fix l assume "l < last (k # begs)"
  then show "s ! l \<noteq> a" using scannedD(6) [OF sc] scannedD(2) [OF sc] by simp
next
  fix l assume "l < Suc k" "s ! l = a"
  then show "l \<in> set (k # begs) \<or> left \<le> l"
    using scannedD(7) [OF sc, of l] by (cases "l = k") simp_all
next
  show "right = None \<and> left = length s \<or> (\<exists>r < Suc k. right = Some r \<and> closes a b s left r)"
    using scannedD(8) [OF sc] less_SucI by blast
qed

lemma scanned_top_closes:
  assumes sc: "scanned a b s k (beg # begs) left right" and k: "k < length s" "s ! k = b"
  shows "closes a b s beg k"
  using scannedD(3,4,5) [OF sc, of 0] k by (simp add: closes_def)

lemma scanned_close:
  assumes sc: "scanned a b s k (beg # begs) left right" and k: "k < length s" "s ! k = b"
    and ab: "a \<noteq> b" and ne: "begs \<noteq> []"
  shows "scanned a b s (Suc k) begs (if beg < left then beg else left) (if beg < left then Some k else right)"
  unfolding scanned_def
proof (intro conjI allI impI)
  show "Suc k \<le> length s" "begs \<noteq> []" using k ne by simp_all
next
  fix j assume j: "j < length begs"
  then have *: "begs ! j < k" "s ! (begs ! j) = a" "depth a b 0 (slice s (Suc (begs ! j)) k) = Some (Suc j)"
    using scannedD(3,4,5) [OF sc, of "Suc j"] by simp_all
  then show "begs ! j < Suc k" "s ! (begs ! j) = a" by simp_all
  show "depth a b 0 (slice s (Suc (begs ! j)) (Suc k)) = Some j"
    using * k ab by (simp add: slice_Suc depth_snoc)
next
  fix l assume "l < last begs"
  then show "s ! l \<noteq> a" using scannedD(6) [OF sc] ne by simp
next
  fix l assume "l < Suc k" "s ! l = a"
  then show "l \<in> set begs \<or> (if beg < left then beg else left) \<le> l"
    using scannedD(7) [OF sc, of l] k ab by (cases "l = k") auto
next
  have c: "closes a b s beg k" using scanned_top_closes [OF sc k] .
  show "(if beg < left then Some k else right) = None \<and> (if beg < left then beg else left) = length s \<or>
      (\<exists>r < Suc k. (if beg < left then Some k else right) = Some r
        \<and> closes a b s (if beg < left then beg else left) r)"
    using scannedD(8) [OF sc] c less_SucI by (cases "beg < left") auto
qed

lemma scanned_other:
  assumes sc: "scanned a b s k begs left right" and k: "k < length s" "s ! k \<noteq> a" "s ! k \<noteq> b"
  shows "scanned a b s (Suc k) begs left right"
  unfolding scanned_def
proof (intro conjI allI impI)
  fix j assume j: "j < length begs"
  note * = scannedD(3,4,5) [OF sc j]
  then show "begs ! j < Suc k" "s ! (begs ! j) = a" by simp_all
  show "depth a b 0 (slice s (Suc (begs ! j)) (Suc k)) = Some j"
    using * k by (simp add: slice_Suc depth_snoc)
next
  fix l assume "l < Suc k" "s ! l = a"
  then show "l \<in> set begs \<or> left \<le> l"
    using scannedD(7) [OF sc, of l] k by (cases "l = k") auto
next
  show "right = None \<and> left = length s \<or> (\<exists>r < Suc k. right = Some r \<and> closes a b s left r)"
    using scannedD(8) [OF sc] less_SucI by blast
qed (use k scannedD(2,6) [OF sc] in simp_all)

lemma scanned_first_closes:
  assumes sc: "scanned a b s k [beg] left right" and k: "k < length s" "s ! k = b"
  shows "leftmost_closed a b s (Some (beg, Some k))"
  using scanned_top_closes [OF sc k] scannedD(6) [OF sc]
  by (auto simp: leftmost_closed_def closes_def)

lemma scanned_end:
  assumes sc: "scanned a b s (length s) begs left right" and ab: "a \<noteq> b" and r: "right \<noteq> None"
  shows "leftmost_closed a b s (Some (left, right))"
proof -
  obtain r where r: "right = Some r" "closes a b s left r" using scannedD(8) [OF sc] r by blast
  have "\<not> closes a b s l r'" if lt: "l < left" for l r'
  proof
    assume c: "closes a b s l r'"
    then have "l < length s" "s ! l = a" "r' < length s" by (auto simp: closes_def)
    then obtain j where j: "j < length begs" "begs ! j = l"
      using scannedD(7) [OF sc, of l] lt by (auto simp: in_set_conv_nth)
    then show False
      using scannedD(5) [OF sc j(1)] closes_depth_None [OF c \<open>r' < length s\<close>] ab by simp
  qed
  then show ?thesis using r by (auto simp: leftmost_closed_def)
qed

text \<open>Once a closing delimiter is ahead, or one was found, the scan answers.\<close>

lemma scan_leftmost:
  assumes "a \<noteq> b" "scanned a b s k begs left right"
    and "right \<noteq> None \<or> (\<exists>i. k \<le> i \<and> i < length s \<and> s ! i = b)"
  shows "leftmost_closed a b s (scan a b s k begs left right)"
  using assms(2,3)
proof (induction "length s - k" arbitrary: k begs left right)
  case 0
  then have "k = length s" using scannedD(1) by fastforce
  then show ?case
    using 0 scanned_end [OF _ assms(1)] scannedD(2) by (subst scan.simps) auto
next
  case (Suc n)
  then have k: "k < length s" and n: "n = length s - Suc k" by simp_all
  have ahead: "s ! k \<noteq> b \<Longrightarrow> right \<noteq> None \<or> (\<exists>i. Suc k \<le> i \<and> i < length s \<and> s ! i = b)"
    using Suc.prems(2) by (metis Suc_leI le_neq_implies_less)
  note IH = Suc.hyps(1) [OF n]
  consider (a) "s ! k = a" | (b) "s ! k = b" "s ! k \<noteq> a" | (o) "s ! k \<noteq> a" "s ! k \<noteq> b" by blast
  then show ?case
  proof cases
    case a
    then show ?thesis
      using IH [OF scanned_open [OF Suc.prems(1) k a]] ahead assms(1) k by (subst scan.simps) simp
  next
    case o
    then show ?thesis
      using IH [OF scanned_other [OF Suc.prems(1) k o]] ahead k by (subst scan.simps) simp
  next
    case b
    obtain beg begs' where bs: "begs = beg # begs'" using scannedD(2) [OF Suc.prems(1)] by (cases begs) auto
    show ?thesis
    proof (cases begs')
      case Nil
      then show ?thesis
        using scanned_first_closes [OF _ k b(1)] Suc.prems(1) bs b k by (subst scan.simps) simp
    next
      case (Cons x xs)
      have sc: "scanned a b s (Suc k) begs' (if beg < left then beg else left)
          (if beg < left then Some k else right)"
        using scanned_close [OF _ k b(1) assms(1)] Suc.prems(1) bs Cons by blast
      have "left = length s \<Longrightarrow> beg < left"
        using scannedD(3) [OF Suc.prems(1), of 0] bs k by simp
      then have "(if beg < left then Some k else right) \<noteq> None"
        using scannedD(8) [OF Suc.prems(1)] by auto
      then show ?thesis
        using IH [OF sc] bs Cons b k by (subst scan.simps) simp
    qed
  qed
qed

lemma range_leftmost:
  assumes "a \<noteq> b"
  shows "\<exists>res. balanced_range [a] [b] s = Some res \<and> leftmost_closed a b s res"
proof (cases "indexOf s [a] 0")
  case None
  then have "\<forall>l < length s. s ! l \<noteq> a" by (auto simp: indexOf_char_None)
  then have "\<not> closes a b s l r" for l r using order.strict_trans unfolding closes_def by blast
  then have "leftmost_closed a b s None" by (simp add: leftmost_closed_def)
  then show ?thesis using None by (simp add: balanced_range_def)
next
  case (Some i)
  then have i: "i < length s" "s ! i = a" "\<forall>l < i. s ! l \<noteq> a"
    by (auto simp: indexOf_char find_Some_iff)
  show ?thesis
  proof (cases "indexOf s [b] (Suc i)")
    case None
    then have "\<not> closes a b s l r" for l r
      using i by (auto simp: indexOf_char find_None_iff closes_def)
    then show ?thesis using Some None by (auto simp: balanced_range_def leftmost_closed_def)
  next
    case bi: (Some j)
    then have j: "Suc i \<le> j" "j < length s" "s ! j = b" using indexOf_char_ge by blast+
    have "scanned a b s (Suc i) [i] (length s) None"
      using i by (auto simp: scanned_def less_Suc_eq)
    then have "leftmost_closed a b s (scan a b s (Suc i) [i] (length s) None)"
      using assms j by (intro scan_leftmost) auto
    moreover have "balanced_range [a] [b] s = Some (scan a b s (Suc i) [i] (length s) None)"
      using Some bi j range_loop_scan [OF assms, of "[i]" s "Suc i" "length s" None]
      by (simp add: balanced_range_def range_loop.simps [of _ _ _ "Some i"] Let_def)
    ultimately show ?thesis by blast
  qed
qed

text \<open>The match object for two delimiters of one unit: the parts recompose the string.\<close>

lemma balanced_parts:
  assumes "a \<noteq> b"
  shows "(\<exists>m r. balanced (Lit [a]) (Lit [b]) s = Some (Inr (Some m)) \<and> bm_end m = Some r
      \<and> closes a b s (bm_start m) r \<and> (\<forall>l' < bm_start m. \<forall>r'. \<not> closes a b s l' r')
      \<and> s = bm_pre m @ [a] @ bm_body m @ [b] @ bm_post m \<and> depth a b 0 (bm_body m) = Some 0
      \<and> length (bm_pre m) = bm_start m)
    \<or> (balanced (Lit [a]) (Lit [b]) s = Some (Inr None) \<and> (\<forall>l r. \<not> closes a b s l r))"
proof -
  obtain res where res: "balanced_range [a] [b] s = Some res" "leftmost_closed a b s res"
    using range_leftmost [OF assms] by blast
  show ?thesis
  proof (cases res)
    case None
    then show ?thesis using res by (simp add: balanced_def delimiter_string_def or_null_def leftmost_closed_def)
  next
    case (Some p)
    then obtain l r where lr: "res = Some (l, Some r)" "closes a b s l r" "\<forall>l' < l. \<forall>r. \<not> closes a b s l' r"
      using res(2) by (cases p) (auto simp: leftmost_closed_def)
    then have c: "l < r" "r < length s" "s ! l = a" "s ! r = b" "depth a b 0 (slice s (Suc l) r) = Some 0"
      by (simp_all add: closes_def)
    have "s = slice s 0 l @ slice s l (Suc l) @ slice s (Suc l) r @ slice s r (Suc r) @ slice s (Suc r) (length s)"
      using c by (simp add: slice_append slice_full)
    then have "s = take l s @ [a] @ slice s (Suc l) r @ [b] @ drop (Suc r) s"
      using c by (simp add: slice_Suc) (simp add: slice_def)
    then show ?thesis
      using res(1) lr c(1,2,5) by (simp add: balanced_def delimiter_string_def or_null_def)
  qed
qed

text \<open>
  Claim C17: for two different delimiters of one unit each, the search ends on every string, and
  its result is the leftmost opening delimiter that is closed, paired with the delimiter that
  closes it at the same depth of nesting; it is undefined only when no opening delimiter is
  closed.
\<close>

theorem balanced_leftmost:
  assumes "a \<noteq> b"
  shows "(\<exists>m r. balanced (Lit [a]) (Lit [b]) s = Some (Inr (Some m)) \<and> bm_end m = Some r
      \<and> closes a b s (bm_start m) r \<and> (\<forall>l' < bm_start m. \<forall>r'. \<not> closes a b s l' r')
      \<and> s = bm_pre m @ [a] @ bm_body m @ [b] @ bm_post m)
    \<or> (balanced (Lit [a]) (Lit [b]) s = Some (Inr None) \<and> (\<forall>l r. \<not> closes a b s l r))"
  using balanced_parts [OF assms] by blast

lemma balanced_leftmost_witness:
  "(123 :: code_unit) \<noteq> 125
   \<and> (\<exists>m r. balanced (Lit [123]) (Lit [125]) (js ''x{{a,b}c'') = Some (Inr (Some m)) \<and> bm_end m = Some r
      \<and> closes 123 125 (js ''x{{a,b}c'') (bm_start m) r)
   \<and> map_option (map_sum id (map_option bm_body)) (balanced (Lit [123]) (Lit [125]) (js ''x{{a,b}c''))
      = Some (Inr (Some (js ''a,b'')))"
proof -
  have "balanced (Lit [123]) (Lit [125]) (js ''x{{a,b}c'') \<noteq> Some (Inr None)" by code_simp
  then have "\<exists>m r. balanced (Lit [123]) (Lit [125]) (js ''x{{a,b}c'') = Some (Inr (Some m))
      \<and> bm_end m = Some r \<and> closes 123 125 (js ''x{{a,b}c'') (bm_start m) r"
    using balanced_leftmost [of 123 125 "js ''x{{a,b}c''"] by auto
  moreover have "map_option (map_sum id (map_option bm_body)) (balanced (Lit [123]) (Lit [125]) (js ''x{{a,b}c''))
      = Some (Inr (Some (js ''a,b'')))" by code_simp
  ultimately show ?thesis by simp
qed

end
