(* ===== verification/Brace_Expansion.thy ===== *)
theory Brace_Expansion
  imports Balanced_Match
begin

text \<open>
  Brace expansion (module 11 of \<open>wordcut.js\<close>) and \<open>concatMap\<close> (module 13), used by the glob
  matcher.  Shown here: the comma parts of a balanced text are its parts at depth 0 and join
  back to it, and the recursion of \<open>expand\<close> is bounded by the number of closing braces.
\<close>

section \<open>Tokens\<close>

text \<open>The escape tokens hold the decimal notation of a random number each.\<close>

record brace_tokens =
  escSlash :: jsstring
  escOpen :: jsstring
  escClose :: jsstring
  escComma :: jsstring
  escPeriod :: jsstring

definition make_tokens ::
  "jsstring \<Rightarrow> jsstring \<Rightarrow> jsstring \<Rightarrow> jsstring \<Rightarrow> jsstring \<Rightarrow> brace_tokens" where
  "make_tokens r1 r2 r3 r4 r5 =
     \<lparr>escSlash = [0] @ js ''SLASH'' @ r1 @ [0], escOpen = [0] @ js ''OPEN'' @ r2 @ [0],
      escClose = [0] @ js ''CLOSE'' @ r3 @ [0], escComma = [0] @ js ''COMMA'' @ r4 @ [0],
      escPeriod = [0] @ js ''PERIOD'' @ r5 @ [0]\<rparr>"

text \<open>\<open>str.split(a).join(b)\<close>.\<close>

definition split_join :: "jsstring \<Rightarrow> jsstring \<Rightarrow> jsstring \<Rightarrow> jsstring" where
  "split_join a b str = join (split_str str a) b"

definition escapeBraces :: "brace_tokens \<Rightarrow> jsstring \<Rightarrow> jsstring" where
  "escapeBraces tk str =
     (split_join [92, 46] (escPeriod tk) \<circ> split_join [92, 44] (escComma tk)
      \<circ> split_join [92, 125] (escClose tk) \<circ> split_join [92, 123] (escOpen tk)
      \<circ> split_join [92, 92] (escSlash tk)) str"

definition unescapeBraces :: "brace_tokens \<Rightarrow> jsstring \<Rightarrow> jsstring" where
  "unescapeBraces tk str =
     (split_join (escPeriod tk) [46] \<circ> split_join (escComma tk) [44]
      \<circ> split_join (escClose tk) [125] \<circ> split_join (escOpen tk) [123]
      \<circ> split_join (escSlash tk) [92]) str"

text \<open>\<open>numeric\<close>, which is called on strings of the form \<open>-?\d+\<close> and on single letters.\<close>

definition numeric :: "jsstring \<Rightarrow> int" where
  "numeric str = (if is_int str then parse_int str else uint (hd str))"

section \<open>Comma parts\<close>

abbreviation (input) brace_match :: "jsstring \<Rightarrow> (js_error + balanced_match option) option" where
  "brace_match \<equiv> balanced (Lit [123]) (Lit [125])"

lemma brace_match_parts:
  assumes "brace_match str = Some (Inr (Some m))"
  shows "str = bm_pre m @ [123] @ bm_body m @ [125] @ bm_post m \<and> depth 123 125 0 (bm_body m) = Some 0"
  using balanced_parts [of 123 125 str] assms by auto

lemma brace_post_shorter:
  assumes "brace_match str = Some (Inr (Some m))"
  shows "length (bm_post m) < length str"
proof -
  have "length str = length (bm_pre m @ [123] @ bm_body m @ [125] @ bm_post m)"
    using brace_match_parts [OF assms] by (metis (lifting))
  then show ?thesis by simp
qed

function parseCommaParts :: "jsstring \<Rightarrow> jsstring list" where
  "parseCommaParts str =
     (if str = [] then [[]]
      else case brace_match str of
        Some (Inr (Some m)) \<Rightarrow>
          let p = split_on 44 (bm_pre m);
              p' = butlast p @ [last p @ [123] @ bm_body m @ [125]];
              postParts = parseCommaParts (bm_post m)
          in if bm_post m \<noteq> []
             then butlast p' @ [last p' @ hd postParts] @ tl postParts
             else p'
      | _ \<Rightarrow> split_on 44 str)"
  by pat_completeness auto
termination by (relation "measure length") (auto dest: brace_post_shorter)

declare parseCommaParts.simps [simp del]

section \<open>Expansion\<close>

text \<open>\<open>concatMap\<close>: a callback may return an array, which is spliced in, or one value.\<close>

datatype 'b cm_item = Many "'b list" | One 'b

fun concatMap_from :: "nat \<Rightarrow> 'a list \<Rightarrow> ('a \<Rightarrow> nat \<Rightarrow> 'e + 'b cm_item) \<Rightarrow> 'e + 'b list" where
  "concatMap_from i [] fn = Inr []"
| "concatMap_from i (x # xs) fn =
     bind_js (fn x i) (\<lambda>y. bind_js (concatMap_from (Suc i) xs fn) (\<lambda>res.
       Inr ((case y of Many ys \<Rightarrow> ys | One z \<Rightarrow> [z]) @ res)))"

definition concatMap :: "'a list \<Rightarrow> ('a \<Rightarrow> nat \<Rightarrow> 'e + 'b cm_item) \<Rightarrow> 'e + 'b list" where
  "concatMap xs fn = concatMap_from 0 xs fn"

definition embrace :: "jsstring \<Rightarrow> jsstring" where
  "embrace str = [123] @ str @ [125]"

text \<open>\<open>/^-?0\d/\<close>.\<close>

definition isPadded :: "jsstring \<Rightarrow> bool" where
  "isPadded el \<longleftrightarrow>
     (let ds = (if el \<noteq> [] \<and> hd el = 45 then tl el else el)
      in 2 \<le> length ds \<and> ds ! 0 = 48 \<and> is_digit (ds ! 1))"

definition lte :: "int \<Rightarrow> int \<Rightarrow> bool" where
  "lte i y \<longleftrightarrow> i \<le> y"

definition gte :: "int \<Rightarrow> int \<Rightarrow> bool" where
  "gte i y \<longleftrightarrow> y \<le> i"

text \<open>\<open>body.split(/\.\./)\<close>, and the two regular expressions for sequences, on its parts.\<close>

definition seq_parts :: "jsstring \<Rightarrow> jsstring list" where
  "seq_parts body = split_str body [46, 46]"

definition ascii_letter :: "code_unit \<Rightarrow> bool" where
  "ascii_letter c \<longleftrightarrow> (97 \<le> c \<and> c \<le> 122) \<or> (65 \<le> c \<and> c \<le> 90)"

definition isNumericSequence :: "jsstring \<Rightarrow> bool" where
  "isNumericSequence body \<longleftrightarrow>
     (let n = seq_parts body in (length n = 2 \<or> length n = 3) \<and> list_all is_int n)"

definition isAlphaSequence :: "jsstring \<Rightarrow> bool" where
  "isAlphaSequence body \<longleftrightarrow>
     (case seq_parts body of
        [x, y] \<Rightarrow> length x = 1 \<and> ascii_letter (hd x) \<and> length y = 1 \<and> ascii_letter (hd y)
      | [x, y, z] \<Rightarrow>
          length x = 1 \<and> ascii_letter (hd x) \<and> length y = 1 \<and> ascii_letter (hd y) \<and> is_int z
      | _ \<Rightarrow> False)"

text \<open>\<open>post.match(/,.*\}/)\<close>; the dot matches no line terminator.\<close>

definition line_terminator :: "code_unit \<Rightarrow> bool" where
  "line_terminator c \<longleftrightarrow> c = 10 \<or> c = 13 \<or> c = 0x2028 \<or> c = 0x2029"

fun comma_brace :: "jsstring \<Rightarrow> bool" where
  "comma_brace [] = False"
| "comma_brace (c # s) \<longleftrightarrow>
     c = 44 \<and> 125 \<in> set (takeWhile (\<lambda>x. \<not> line_terminator x) s) \<or> comma_brace s"

text \<open>The loop \<open>for (i = x; test(i, y); i += incr)\<close>, which does not end when \<open>incr\<close> is 0.\<close>

partial_function (option) seq_loop :: "(int \<Rightarrow> int \<Rightarrow> bool) \<Rightarrow> int \<Rightarrow> int \<Rightarrow> int \<Rightarrow> int list option" where
  "seq_loop test i y incr =
     (if test i y
      then Option.bind (seq_loop test (i + incr) y incr) (\<lambda>is. Some (i # is))
      else Some [])"

declare seq_loop.simps [code]

text \<open>The string pushed for \<open>i\<close>.\<close>

definition alpha_item :: "int \<Rightarrow> jsstring" where
  "alpha_item i = (let c = [word_of_int i] in if c = [92] then [] else c)"

definition numeric_item :: "bool \<Rightarrow> nat \<Rightarrow> int \<Rightarrow> jsstring" where
  "numeric_item pad width i =
     (let c = int_string i
      in if pad \<and> length c < width
         then let z = replicate (width - length c) 48
           in if i < 0 then [45] @ z @ drop 1 c else z @ c
         else c)"

text \<open>Why an expansion may have no result: the fuel ran out, a sequence does not end, or a
  bound is beyond \<open>2 ^ 53 - 1\<close>, where the numbers of the language are no longer exact.\<close>

datatype expand_stop = OutOfFuel | EndlessLoop | UnsafeInteger

definition max_safe :: int where
  "max_safe = 2 ^ 53 - 1"

definition sequence_items :: "jsstring \<Rightarrow> expand_stop + jsstring list" where
  "sequence_items body =
     (let n = seq_parts body;
          x = numeric (n ! 0);
          y = numeric (n ! 1);
          width = max (length (n ! 0)) (length (n ! 1));
          incr = (if length n = 3 then \<bar>numeric (n ! 2)\<bar> else 1);
          reverse = y < x;
          pad = list_ex isPadded n
      in if max_safe < \<bar>x\<bar> \<or> max_safe < \<bar>y\<bar> \<or> max_safe < incr then Inl UnsafeInteger
         else case seq_loop (if reverse then gte else lte) x y (if reverse then - incr else incr) of
           None \<Rightarrow> Inl EndlessLoop
         | Some is \<Rightarrow>
             Inr (map (if isAlphaSequence body then alpha_item else numeric_item pad width) is))"

text \<open>The two nested loops at the end.\<close>

definition combine :: "jsstring \<Rightarrow> jsstring list \<Rightarrow> jsstring list \<Rightarrow> bool \<Rightarrow> jsstring list" where
  "combine pre N post keep_empty =
     concat (map (\<lambda>x. filter (\<lambda>e. keep_empty \<or> e \<noteq> []) (map (\<lambda>p. pre @ x @ p) post)) N)"

text \<open>The body of \<open>expand\<close> once a pair of braces is found; \<open>rec\<close> is the recursive call with
  \<open>isTop\<close> false.  \<open>option_parts\<close> is the list \<open>n\<close> of a comma set.\<close>

definition option_parts ::
  "(jsstring \<Rightarrow> expand_stop + jsstring list) \<Rightarrow> jsstring list \<Rightarrow> expand_stop + jsstring list" where
  "option_parts rec parts =
     (if length parts = 1 then bind_js (rec (hd parts)) (\<lambda>es. Inr (map embrace es)) else Inr parts)"

definition expand_options ::
  "(jsstring \<Rightarrow> expand_stop + jsstring list) \<Rightarrow> jsstring \<Rightarrow> jsstring list \<Rightarrow> jsstring list
     \<Rightarrow> jsstring list \<Rightarrow> bool \<Rightarrow> expand_stop + jsstring list" where
  "expand_options rec pre parts n post isTop =
     (if length parts = 1 \<and> length n = 1 then Inr (map (\<lambda>p. pre @ hd n @ p) post)
      else bind_js (concatMap n (\<lambda>el _. bind_js (rec el) (\<lambda>es. Inr (Many es)))) (\<lambda>N.
        Inr (combine pre N post (\<not> isTop))))"

definition expand_match ::
  "jsstring \<Rightarrow> (jsstring \<Rightarrow> expand_stop + jsstring list) \<Rightarrow> jsstring \<Rightarrow> bool \<Rightarrow> balanced_match
     \<Rightarrow> expand_stop + jsstring list" where
  "expand_match esc rec str isTop m =
     (let pre = bm_pre m; body = bm_body m;
          isSequence = (isNumericSequence body \<or> isAlphaSequence body);
          isOptions = (44 \<in> set body);
          parts = parseCommaParts body
      in if pre \<noteq> [] \<and> last pre = 36 then Inr [str]
         else if \<not> isSequence \<and> \<not> isOptions then
           (if comma_brace (bm_post m) then rec (pre @ [123] @ body @ esc @ bm_post m) else Inr [str])
         else
           bind_js (if isSequence then Inr [] else option_parts rec parts) (\<lambda>n.
             bind_js (if bm_post m \<noteq> [] then rec (bm_post m) else Inr [[]]) (\<lambda>post.
               if isSequence
               then bind_js (sequence_items body) (\<lambda>N. Inr (combine pre N post True))
               else expand_options rec pre parts n post isTop)))"

fun expand :: "brace_tokens \<Rightarrow> nat \<Rightarrow> jsstring \<Rightarrow> bool \<Rightarrow> expand_stop + jsstring list" where
  "expand tk 0 str isTop = Inl OutOfFuel"
| "expand tk (Suc fuel) str isTop =
     (case brace_match str of
        Some (Inr (Some m)) \<Rightarrow> expand_match (escClose tk) (\<lambda>s. expand tk fuel s False) str isTop m
      | _ \<Rightarrow> Inr [str])"

declare expand.simps [simp del]

text \<open>The fuel of the top call is one more than the number of closing braces.\<close>

definition expand_fuel :: "jsstring \<Rightarrow> nat" where
  "expand_fuel str = Suc (count_list str 125)"

definition expandTop :: "brace_tokens \<Rightarrow> jsstring \<Rightarrow> expand_stop + jsstring list" where
  "expandTop tk str =
     (if str = [] then Inr []
      else
        let str1 = (if take 2 str = [123, 125] then [92, 123, 92, 125] @ drop 2 str else str);
            str2 = escapeBraces tk str1
        in bind_js (expand tk (expand_fuel str2) str2 True) (\<lambda>es. Inr (map (unescapeBraces tk) es)))"

section \<open>Comma parts are the parts at depth 0\<close>

text \<open>The parts of a text between its commas at depth 0.\<close>

fun top_parts :: "nat \<Rightarrow> jsstring \<Rightarrow> jsstring list" where
  "top_parts d [] = [[]]"
| "top_parts d (c # s) =
     (if c = 44 \<and> d = 0 then [] # top_parts 0 s
      else case top_parts (if c = 123 then Suc d else if c = 125 then d - 1 else d) s of
        [] \<Rightarrow> [[c]] | w # ws \<Rightarrow> (c # w) # ws)"

text \<open>Prefixing the first part.\<close>

fun prepend :: "jsstring \<Rightarrow> jsstring list \<Rightarrow> jsstring list" where
  "prepend u [] = [u]"
| "prepend u (w # ws) = (u @ w) # ws"

lemma prepend_Nil [simp]: "ws \<noteq> [] \<Longrightarrow> prepend [] ws = ws"
  by (cases ws) auto

lemma prepend_prepend [simp]: "prepend u (prepend v ws) = prepend (u @ v) ws"
  by (cases ws) auto

lemma prepend_neq_Nil [simp]: "prepend u ws \<noteq> []"
  by (cases ws) auto

lemma top_parts_neq_Nil [simp]: "top_parts d s \<noteq> []"
  by (induction d s rule: top_parts.induct) (auto split: list.splits)

lemma top_parts_Cons:
  "top_parts d (c # s) =
     (if c = 44 \<and> d = 0 then [] # top_parts 0 s
      else prepend [c] (top_parts (if c = 123 then Suc d else if c = 125 then d - 1 else d) s))"
  by (simp split: list.splits)

declare top_parts.simps(2) [simp del]

lemma top_parts_inside:
  "depth 123 125 n t = Some k \<Longrightarrow>
     top_parts (Suc (d + n)) (t @ r) = prepend t (top_parts (Suc (d + k)) r)"
proof (induction t arbitrary: n)
  case Nil
  then show ?case by simp
next
  case (Cons c t)
  consider "c = 123" | "c = 125" "0 < n" | "c \<noteq> 123" "c \<noteq> 125"
    using Cons.prems by (auto split: if_splits)
  then show ?case
  proof cases
    case 1
    then show ?thesis using Cons.IH [of "Suc n"] Cons.prems by (simp add: top_parts_Cons)
  next
    case 2
    then show ?thesis using Cons.IH [of "n - 1"] Cons.prems by (simp add: top_parts_Cons)
  next
    case 3
    then show ?thesis using Cons.IH [of n] Cons.prems by (simp add: top_parts_Cons)
  qed
qed

lemma top_parts_group:
  assumes "depth 123 125 0 body = Some 0"
  shows "top_parts 0 (123 # body @ 125 # post) = prepend ([123] @ body @ [125]) (top_parts 0 post)"
  using top_parts_inside [OF assms, of 0 "125 # post"] by (simp add: top_parts_Cons)

lemma top_parts_plain:
  assumes "123 \<notin> set pre" "125 \<notin> set pre"
  shows "top_parts 0 (pre @ s) = butlast (split_on 44 pre) @ prepend (last (split_on 44 pre)) (top_parts 0 s)"
  using assms
proof (induction pre)
  case Nil
  then show ?case by simp
next
  case (Cons c pre)
  obtain w ws where w: "split_on 44 pre = w # ws" by (cases "split_on 44 pre") auto
  show ?case using Cons w by (cases ws) (auto simp: top_parts_Cons)
qed

lemma depth_plain: "a \<notin> set t \<Longrightarrow> b \<notin> set t \<Longrightarrow> depth a b d t = Some d"
  by (induction t) auto

lemma depth_unopened: "a \<notin> set t \<Longrightarrow> b \<in> set t \<Longrightarrow> a \<noteq> b \<Longrightarrow> depth a b 0 t = None"
  by (induction t) auto

lemma depth_shift: "depth a b d t = Some k \<Longrightarrow> depth a b (d + n) t = Some (k + n)"
proof (induction t arbitrary: d)
  case (Cons c t)
  then show ?case
    using Cons.IH [of "Suc d"] Cons.IH [of "d - 1"] Cons.IH [of d] by (cases d) (auto split: if_splits)
qed simp

lemma depth_falls:
  assumes "depth a b (Suc d) t = Some k" "k \<le> d" "a \<noteq> b"
  shows "\<exists>t1 t2. t = t1 @ b # t2 \<and> depth a b 0 t1 = Some 0 \<and> depth a b d t2 = Some k"
  using assms
proof (induction t arbitrary: d rule: length_induct)
  case (1 t)
  then obtain c t' where t: "t = c # t'" by (cases t) auto
  consider (a) "c = a" | (b) "c = b" "c \<noteq> a" | (o) "c \<noteq> a" "c \<noteq> b" by blast
  then show ?case
  proof cases
    case a
    then obtain u1 u2 where u: "t' = u1 @ b # u2" "depth a b 0 u1 = Some 0" "depth a b (Suc d) u2 = Some k"
      using "1.IH" [rule_format, of t' "Suc d"] "1.prems" t by auto
    then obtain v1 v2 where v: "u2 = v1 @ b # v2" "depth a b 0 v1 = Some 0" "depth a b d v2 = Some k"
      using "1.IH" [rule_format, of u2 d] "1.prems" t by auto
    have "depth a b 0 (c # u1 @ b # v1) = Some 0"
      using a u(2) v(2) "1.prems"(3) depth_shift [OF u(2), of 1] by (simp add: depth_append)
    then show ?thesis using t u(1) v by (intro exI [of _ "c # u1 @ b # v1"] exI [of _ v2]) simp
  next
    case b
    then show ?thesis using "1.prems" t by (intro exI [of _ "[]"] exI [of _ t']) simp
  next
    case o
    then obtain u1 u2 where u: "t' = u1 @ b # u2" "depth a b 0 u1 = Some 0" "depth a b d u2 = Some k"
      using "1.IH" [rule_format, of t' d] "1.prems" t by auto
    then show ?thesis using o t by (intro exI [of _ "c # u1"] exI [of _ u2]) simp
  qed
qed

lemma balanced_text_closes:
  assumes "depth a b 0 s = Some 0" "l < length s" "s ! l = a" "a \<noteq> b"
  shows "\<exists>r. closes a b s l r"
proof -
  have s: "s = take l s @ a # drop (Suc l) s" using assms(2,3) id_take_nth_drop by blast
  obtain n where "depth a b 0 (take l s) = Some n" "depth a b (Suc n) (drop (Suc l) s) = Some 0"
    using assms(1) by (subst (asm) s) (auto simp: depth_append bind_eq_Some_conv)
  then obtain t1 t2 where t: "drop (Suc l) s = t1 @ b # t2" "depth a b 0 t1 = Some 0"
    using depth_falls [OF _ _ assms(4)] by blast
  have "length (drop (Suc l) s) = length (t1 @ b # t2)" using t(1) by (rule arg_cong)
  then have len: "Suc l + length t1 < length s" by simp
  have "slice s (Suc l) (Suc l + length t1) = t1" using t(1) by (simp add: slice_def)
  moreover have "s ! (Suc l + length t1) = b"
    using t(1) assms(2) by (metis Suc_leI nth_append_length nth_drop)
  ultimately have "closes a b s l (Suc l + length t1)"
    using assms(3) len t(2) by (simp add: closes_def)
  then show ?thesis by blast
qed

text \<open>In a balanced text the first pair found starts at the first opening brace.\<close>

lemma balanced_text_first:
  assumes bal: "depth 123 125 0 s = Some 0" and m: "brace_match s = Some (Inr (Some m))"
  shows "123 \<notin> set (bm_pre m) \<and> 125 \<notin> set (bm_pre m) \<and> depth 123 125 0 (bm_post m) = Some 0"
proof -
  have s: "s = bm_pre m @ [123] @ bm_body m @ [125] @ bm_post m" "depth 123 125 0 (bm_body m) = Some 0"
    using brace_match_parts [OF m] by blast+
  have lm: "\<forall>l' < bm_start m. \<forall>r'. \<not> closes 123 125 s l' r'" and st: "length (bm_pre m) = bm_start m"
    using balanced_parts [of 123 125 s] m by auto
  have open_free: "123 \<notin> set (bm_pre m)"
  proof
    assume "123 \<in> set (bm_pre m)"
    then obtain l where l: "l < length (bm_pre m)" "bm_pre m ! l = 123" by (auto simp: in_set_conv_nth)
    then have "l < length s" "s ! l = 123" by (subst s(1), simp add: nth_append)+
    then show False using balanced_text_closes [OF bal] lm st l(1) by fastforce
  qed
  have "depth 123 125 0 (bm_pre m) \<noteq> None" using bal by (subst (asm) s(1)) (auto simp: depth_append bind_eq_Some_conv)
  then have "125 \<notin> set (bm_pre m)" using depth_unopened [OF open_free] by auto
  moreover have "depth 123 125 0 (bm_post m) = Some 0"
    using bal depth_shift [OF s(2), of 1] depth_plain [OF open_free calculation, of 0]
    by (subst (asm) s(1)) (simp add: depth_append)
  ultimately show ?thesis using open_free by blast
qed

lemma parseCommaParts_no_match:
  assumes "\<And>m. brace_match s \<noteq> Some (Inr (Some m))"
  shows "parseCommaParts s = split_on 44 s"
  using assms by (subst parseCommaParts.simps) (auto split: option.splits sum.splits)

lemma parseCommaParts_match:
  assumes m: "brace_match s = Some (Inr (Some m))"
  shows "parseCommaParts s = butlast (split_on 44 (bm_pre m))
    @ prepend (last (split_on 44 (bm_pre m)) @ [123] @ bm_body m @ [125]) (parseCommaParts (bm_post m))"
proof -
  have "s \<noteq> []" using brace_match_parts [OF m] by auto
  moreover have "parseCommaParts [] = [[]]" by (subst parseCommaParts.simps) simp
  moreover have "prepend u ws = (u @ hd ws) # tl ws" if "ws \<noteq> []" for u ws
    using that by (cases ws) auto
  moreover have "parseCommaParts (bm_post m) \<noteq> []"
    by (subst parseCommaParts.simps) (auto simp: Let_def split: option.splits sum.splits)
  ultimately show ?thesis
    using m by (subst parseCommaParts.simps) (simp add: Let_def butlast_append)
qed

lemma parseCommaParts_top:
  "depth 123 125 0 s = Some 0 \<Longrightarrow> parseCommaParts s = top_parts 0 s"
proof (induction "length s" arbitrary: s rule: less_induct)
  case less
  show ?case
  proof (cases "\<exists>m. brace_match s = Some (Inr (Some m))")
    case True
    then obtain m where m: "brace_match s = Some (Inr (Some m))" by blast
    note f = balanced_text_first [OF less.prems m]
    have IH: "parseCommaParts (bm_post m) = top_parts 0 (bm_post m)"
      using less.hyps [OF brace_post_shorter [OF m]] f by blast
    have s: "s = bm_pre m @ 123 # bm_body m @ 125 # bm_post m" "depth 123 125 0 (bm_body m) = Some 0"
      using brace_match_parts [OF m] by auto
    have "top_parts 0 s = butlast (split_on 44 (bm_pre m))
        @ prepend (last (split_on 44 (bm_pre m)) @ [123] @ bm_body m @ [125]) (top_parts 0 (bm_post m))"
      using f by (subst s(1)) (simp add: top_parts_plain top_parts_group [OF s(2)])
    then show ?thesis using parseCommaParts_match [OF m] IH by simp
  next
    case False
    have "123 \<notin> set s"
      using balanced_text_closes [OF less.prems] balanced_parts [of 123 125 s] False
      by (auto simp: in_set_conv_nth)
    then have "123 \<notin> set s" "125 \<notin> set s" using depth_unopened [of 123 s 125] less.prems by auto
    then have "top_parts 0 s = split_on 44 s" using top_parts_plain [of s "[]"] by simp
    then show ?thesis using parseCommaParts_no_match False by simp
  qed
qed

lemma join_prepend: "ws \<noteq> [] \<Longrightarrow> join (prepend u ws) d = u @ join ws d"
  by (cases ws; cases "tl ws") auto

lemma join_append: "us \<noteq> [] \<Longrightarrow> vs \<noteq> [] \<Longrightarrow> join (us @ vs) d = join us d @ d @ join vs d"
  by (induction us d rule: join.induct) (auto simp: join_Cons)

lemma join_top_parts: "join (top_parts d s) [44] = s"
  by (induction s arbitrary: d) (auto simp: top_parts_Cons join_Cons join_prepend)

lemma join_parseCommaParts: "join (parseCommaParts s) [44] = s"
proof (induction "length s" arbitrary: s rule: less_induct)
  case less
  show ?case
  proof (cases "\<exists>m. brace_match s = Some (Inr (Some m))")
    case True
    then obtain m where m: "brace_match s = Some (Inr (Some m))" by blast
    have IH: "join (parseCommaParts (bm_post m)) [44] = bm_post m"
      using less.hyps [OF brace_post_shorter [OF m]] by blast
    let ?p = "split_on 44 (bm_pre m)"
    let ?g = "[123] @ bm_body m @ [125]"
    have ne: "parseCommaParts (bm_post m) \<noteq> []"
      by (subst parseCommaParts.simps) (auto simp: Let_def split: option.splits sum.splits)
    have "join (butlast ?p @ prepend (last ?p @ ?g) ws) [44] = join ?p [44] @ ?g @ join ws [44]"
      if "ws \<noteq> []" for ws
    proof (cases "butlast ?p = []")
      case True
      then obtain q where "?p = [q]"
        using split_on_neq_Nil [of 44 "bm_pre m"] by (metis append_butlast_last_id append_Nil)
      then show ?thesis using that by (simp add: join_prepend)
    next
      case False
      have "join (butlast ?p @ [last ?p]) [44] = join (butlast ?p) [44] @ [44] @ last ?p"
        using False by (subst join_append) simp_all
      then have "join ?p [44] = join (butlast ?p) [44] @ [44] @ last ?p" by simp
      then show ?thesis using False that by (simp add: join_append join_prepend)
    qed
    then have "join (parseCommaParts s) [44] = bm_pre m @ ?g @ bm_post m"
      using parseCommaParts_match [OF m] IH ne by (simp add: join_split_on)
    then show ?thesis using brace_match_parts [OF m] by simp
  next
    case False
    then show ?thesis using parseCommaParts_no_match by (simp add: join_split_on)
  qed
qed

text \<open>
  Claim C18: the comma parts of every text join back to it, and when the braces of the text are
  balanced, which holds of the text between two matching braces, they are its parts between
  the commas outside every brace.
\<close>

theorem parseCommaParts_spec:
  "join (parseCommaParts s) [44] = s \<and> (depth 123 125 0 s = Some 0 \<longrightarrow> parseCommaParts s = top_parts 0 s)"
  using join_parseCommaParts parseCommaParts_top by blast

lemma parseCommaParts_spec_witness:
  "depth 123 125 0 (js ''a,{b,c}d,e'') = Some 0
   \<and> parseCommaParts (js ''a,{b,c}d,e'') = top_parts 0 (js ''a,{b,c}d,e'')
   \<and> top_parts 0 (js ''a,{b,c}d,e'') = [js ''a'', js ''{b,c}d'', js ''e'']"
proof -
  have "depth 123 125 0 (js ''a,{b,c}d,e'') = Some 0"
    "top_parts 0 (js ''a,{b,c}d,e'') = [js ''a'', js ''{b,c}d'', js ''e'']" by code_simp+
  then show ?thesis using parseCommaParts_spec [of "js ''a,{b,c}d,e''"] by simp
qed

section \<open>The recursion is bounded by the closing braces\<close>

abbreviation (input) closing :: "jsstring \<Rightarrow> nat" where
  "closing s \<equiv> count_list s 125"

lemma count_join_le: "w \<in> set ws \<Longrightarrow> count_list w c \<le> count_list (join ws d) c"
  by (induction ws d rule: join.induct) auto

lemma closing_match:
  assumes "brace_match s = Some (Inr (Some m))"
  shows "closing s = Suc (closing (bm_pre m) + closing (bm_body m) + closing (bm_post m))"
proof -
  have "closing s = closing (bm_pre m @ [123] @ bm_body m @ [125] @ bm_post m)"
    using brace_match_parts [OF assms] by (metis (lifting))
  then show ?thesis by simp
qed

lemma closing_comma_part: "w \<in> set (parseCommaParts s) \<Longrightarrow> closing w \<le> closing s"
  using count_join_le [of w "parseCommaParts s" 125 "[44]"] by (simp add: join_parseCommaParts)

text \<open>An expansion has at most the closing braces of the string, and fewer when the string
  was really expanded.\<close>

definition expansion_of :: "jsstring \<Rightarrow> jsstring list \<Rightarrow> bool" where
  "expansion_of str es \<longleftrightarrow>
     (\<forall>e \<in> set es. closing e \<le> closing str \<and> (length es \<noteq> 1 \<longrightarrow> closing e < closing str))"

lemma expansion_ofD:
  "expansion_of str es \<Longrightarrow> e \<in> set es \<Longrightarrow> closing e \<le> closing str"
  "expansion_of str es \<Longrightarrow> e \<in> set es \<Longrightarrow> length es \<noteq> 1 \<Longrightarrow> closing e < closing str"
  by (auto simp: expansion_of_def)

lemma expansion_of_less: "(\<And>e. e \<in> set es \<Longrightarrow> closing e < closing str) \<Longrightarrow> expansion_of str es"
  by (force simp: expansion_of_def)

lemma concatMap_from_Inr:
  "concatMap_from i xs (\<lambda>el _. bind_js (f el) (\<lambda>es. Inr (Many es))) = Inr N \<Longrightarrow> e \<in> set N
    \<Longrightarrow> \<exists>x \<in> set xs. \<exists>es. f x = Inr es \<and> e \<in> set es"
  by (induction xs arbitrary: i N) (auto simp: bind_js_Inr, blast)

lemma concatMap_from_Inl:
  "concatMap_from i xs (\<lambda>el _. bind_js (f el) (\<lambda>es. Inr (Many es))) = Inl er
    \<Longrightarrow> \<exists>x \<in> set xs. f x = Inl er"
proof (induction xs arbitrary: i)
  case (Cons x xs)
  then show ?case by (cases "f x"; cases "concatMap_from (Suc i) xs (\<lambda>el _. bind_js (f el) (\<lambda>es. Inr (Many es)))") auto
qed simp

lemma set_combine: "e \<in> set (combine pre N post keep) \<Longrightarrow> \<exists>x \<in> set N. \<exists>p \<in> set post. e = pre @ x @ p"
  by (auto simp: combine_def)

text \<open>The items of a sequence hold no braces.\<close>

lemma seq_loop_between:
  assumes "seq_loop test i y incr = Some is"
  shows "\<forall>j \<in> set is. test j y \<and> (0 \<le> incr \<longrightarrow> i \<le> j) \<and> (incr \<le> 0 \<longrightarrow> j \<le> i)"
proof (rule seq_loop.raw_induct
    [where P = "\<lambda>test i y incr is. \<forall>j \<in> set is. test j y \<and> (0 \<le> incr \<longrightarrow> i \<le> j) \<and> (incr \<le> 0 \<longrightarrow> j \<le> i)",
      OF _ assms], goal_cases)
  case (1 sl test i y incr zs)
  show ?case
  proof (cases "test i y")
    case True
    then obtain is' where is': "sl test (i + incr) y incr = Some is'" "zs = i # is'"
      using 1(2) by (auto simp: bind_eq_Some_conv)
    then show ?thesis using 1(1) [OF is'(1)] True by fastforce
  qed (use 1(2) in simp)
qed

lemma closing_digits: "list_all is_digit s \<Longrightarrow> 125 \<notin> set s"
  by (induction s) (auto simp: is_digit_def)

lemma closing_int_string: "125 \<notin> set (int_string i)"
  using closing_digits decimal_digits by (auto simp: int_string_def)

lemma closing_numeric_item: "125 \<notin> set (numeric_item pad width i)"
  using closing_int_string [of i] by (auto simp: numeric_item_def Let_def dest: in_set_dropD)

lemma closing_alpha_item: "65 \<le> i \<Longrightarrow> i \<le> 122 \<Longrightarrow> 125 \<notin> set (alpha_item i)"
proof -
  assume i: "65 \<le> i" "i \<le> 122"
  then have "uint (word_of_int i :: code_unit) = i" by (simp add: uint_word_of_int)
  then have "word_of_int i \<noteq> (125 :: code_unit)" using i by auto
  then show ?thesis by (simp add: alpha_item_def Let_def)
qed

lemma numeric_letter:
  assumes "length x = 1" "ascii_letter (hd x)"
  shows "65 \<le> numeric x \<and> numeric x \<le> 122"
proof -
  obtain c where x: "x = [c]" using assms(1) by (cases x) auto
  have "\<not> is_digit c" "c \<noteq> 45" using assms(2) x by (auto simp: ascii_letter_def is_digit_def word_le_def)
  then have "\<not> is_int x" by (simp add: is_int_def x Let_def)
  moreover have "65 \<le> uint c \<and> uint c \<le> 122" using assms(2) x by (auto simp: ascii_letter_def word_le_def)
  ultimately show ?thesis by (simp add: numeric_def x)
qed

lemma alpha_bounds:
  assumes "isAlphaSequence body"
  shows "65 \<le> numeric (seq_parts body ! 0) \<and> numeric (seq_parts body ! 0) \<le> 122
    \<and> 65 \<le> numeric (seq_parts body ! 1) \<and> numeric (seq_parts body ! 1) \<le> 122"
  using assms numeric_letter unfolding isAlphaSequence_def by (auto split: list.splits)

lemma sequence_items_closing:
  assumes "sequence_items body = Inr N" "x \<in> set N"
  shows "125 \<notin> set x"
proof (cases "isAlphaSequence body")
  case False
  then show ?thesis
    using assms closing_numeric_item
    by (auto simp: sequence_items_def Let_def split: if_splits option.splits)
next
  case True
  note b = alpha_bounds [OF True]
  obtain "is" test incr where sl: "seq_loop test (numeric (seq_parts body ! 0)) (numeric (seq_parts body ! 1)) incr = Some is"
    and t: "test = lte \<and> 0 \<le> incr \<or> test = gte \<and> incr \<le> 0"
    and i: "x \<in> alpha_item ` set is"
    using assms True by (auto simp: sequence_items_def Let_def split: if_splits option.splits)
  then obtain j where j: "j \<in> set is" "x = alpha_item j" by blast
  have "65 \<le> j \<and> j \<le> 122" using seq_loop_between [OF sl] j(1) t b by (auto simp: lte_def gte_def)
  then show ?thesis using closing_alpha_item j(2) by simp
qed

lemma expand_no_match:
  assumes "\<And>m. brace_match str \<noteq> Some (Inr (Some m))"
  shows "expand tk (Suc fuel) str isTop = Inr [str]"
  using assms by (auto simp: expand.simps split: option.splits sum.splits)

lemma expansion_of_self: "expansion_of str [str]"
  by (simp add: expansion_of_def)

lemma combine_less:
  assumes "closing pre + b + closing post < k"
    and "\<And>x. x \<in> set N \<Longrightarrow> closing x \<le> b" "\<And>p. p \<in> set ps \<Longrightarrow> closing p \<le> closing post"
    and "e \<in> set (combine pre N ps keep)"
  shows "closing e < k"
proof -
  obtain x p where "x \<in> set N" "p \<in> set ps" "e = pre @ x @ p" using set_combine [OF assms(4)] by blast
  then show ?thesis using assms(1) assms(2) [of x] assms(3) [of p] by simp
qed

lemma expansion_of_combine:
  assumes "closing pre + b + closing rest < closing str" "\<And>x. x \<in> set N \<Longrightarrow> closing x \<le> b"
    and "expansion_of rest post"
  shows "expansion_of str (combine pre N post keep)"
  by (rule expansion_of_less)
    (rule combine_less [OF assms(1,2) expansion_ofD(1) [OF assms(3)]])

lemma option_parts_closing:
  assumes rec: "\<And>s es. rec s = Inr es \<Longrightarrow> expansion_of s es"
    and n: "option_parts rec parts = Inr n"
    and parts: "\<And>w. w \<in> set parts \<Longrightarrow> closing w \<le> closing body"
    and ns: "\<not> (length parts = 1 \<and> length n = 1)" and el: "el \<in> set n"
  shows "closing el \<le> closing body"
proof (cases "length parts = 1")
  case True
  then have hd_parts: "closing (hd parts) \<le> closing body" using parts by (cases parts) auto
  obtain es' where r: "rec (hd parts) = Inr es'" "n = map embrace es'"
    using n True by (auto simp: option_parts_def bind_js_Inr)
  then obtain e where "e \<in> set es'" "el = embrace e" using el by auto
  then show ?thesis
    using expansion_ofD(2) [OF rec [OF r(1)], of e] ns True r(2) hd_parts by (simp add: embrace_def)
qed (use n parts el in \<open>auto simp: option_parts_def\<close>)

lemma expand_options_closing:
  assumes rec: "\<And>s es. rec s = Inr es \<Longrightarrow> expansion_of s es"
    and c: "closing str = Suc (closing pre + closing body + closing rest)"
    and post: "expansion_of rest post"
    and n: "option_parts rec parts = Inr n"
    and parts: "\<And>w. w \<in> set parts \<Longrightarrow> closing w \<le> closing body"
    and es: "expand_options rec pre parts n post isTop = Inr es"
  shows "expansion_of str es"
proof -
  have hd_parts: "closing (hd parts) \<le> closing body" if "length parts = 1"
    using parts that by (cases parts) auto
  show ?thesis
  proof (cases "length parts = 1 \<and> length n = 1")
    case True
    then obtain e where e: "rec (hd parts) = Inr [e]" "n = [embrace e]"
      using n by (auto simp: option_parts_def bind_js_Inr length_Suc_conv)
    have "closing e \<le> closing body" using expansion_ofD(1) [OF rec [OF e(1)], of e] hd_parts True by simp
    moreover have "es = map (\<lambda>p. pre @ embrace e @ p) post" using es True e by (simp add: expand_options_def)
    ultimately show ?thesis
      using post c unfolding expansion_of_def by (auto simp: embrace_def)
  next
    case False
    note le = option_parts_closing [OF rec n parts False]
    obtain N where N: "concatMap n (\<lambda>el _. bind_js (rec el) (\<lambda>es. Inr (Many es))) = Inr N"
      "es = combine pre N post (\<not> isTop)"
      using es unfolding expand_options_def if_not_P [OF False] bind_js_Inr by blast
    have "closing x \<le> closing body" if x: "x \<in> set N" for x
    proof -
      obtain el es' where el: "el \<in> set n" "rec el = Inr es'" "x \<in> set es'"
        using concatMap_from_Inr [OF N(1) [unfolded concatMap_def] x] by blast
      then show ?thesis using le expansion_ofD(1) [OF rec] order_trans by blast
    qed
    then show ?thesis
      unfolding N(2) using c by (intro expansion_of_combine [OF _ _ post, of _ "closing body"]) simp_all
  qed
qed

text \<open>The recursive calls of \<open>expand\<close>.\<close>

lemma expand_match_cases:
  assumes "expand_match esc rec str isTop m = Inr es"
  obtains (self) "es = [str]"
    | (close) "rec (bm_pre m @ [123] @ bm_body m @ esc @ bm_post m) = Inr es"
    | (seq) N post where "(if bm_post m \<noteq> [] then rec (bm_post m) else Inr [[]]) = Inr post"
        "sequence_items (bm_body m) = Inr N" "es = combine (bm_pre m) N post True"
    | (options) n post where "(if bm_post m \<noteq> [] then rec (bm_post m) else Inr [[]]) = Inr post"
        "option_parts rec (parseCommaParts (bm_body m)) = Inr n"
        "expand_options rec (bm_pre m) (parseCommaParts (bm_body m)) n post isTop = Inr es"
proof -
  let ?post = "if bm_post m \<noteq> [] then rec (bm_post m) else Inr [[]]"
  let ?seq = "isNumericSequence (bm_body m) \<or> isAlphaSequence (bm_body m)"
  let ?dollar = "bm_pre m \<noteq> [] \<and> last (bm_pre m) = 36"
  consider (d) "?dollar" | (o) "\<not> ?dollar" "\<not> ?seq \<and> 44 \<notin> set (bm_body m)"
    | (x) "\<not> ?dollar" "\<not> (\<not> ?seq \<and> 44 \<notin> set (bm_body m))" by blast
  then show thesis
  proof cases
    case d
    then show ?thesis using assms self unfolding expand_match_def Let_def if_P [OF d] by simp
  next
    case o
    show ?thesis
      using assms self close unfolding expand_match_def Let_def if_not_P [OF o(1)] if_P [OF o(2)]
      by (cases "comma_brace (bm_post m)") simp_all
  next
    case x
    have *: "bind_js (if ?seq then Inr [] else option_parts rec (parseCommaParts (bm_body m))) (\<lambda>n.
        bind_js ?post (\<lambda>post.
          if ?seq then bind_js (sequence_items (bm_body m)) (\<lambda>N. Inr (combine (bm_pre m) N post True))
          else expand_options rec (bm_pre m) (parseCommaParts (bm_body m)) n post isTop)) = Inr es"
      using assms unfolding expand_match_def Let_def if_not_P [OF x(1)] if_not_P [OF x(2)] .
    show ?thesis
    proof (cases ?seq)
      case True
      then show ?thesis using * seq unfolding if_P [OF True] bind_js_Inr by blast
    next
      case False
      then show ?thesis using * options unfolding if_not_P [OF False] bind_js_Inr by blast
    qed
  qed
qed

lemma expand_match_closing:
  assumes rec: "\<And>s es. rec s = Inr es \<Longrightarrow> expansion_of s es"
    and m: "brace_match str = Some (Inr (Some m))" and esc: "125 \<notin> set esc"
    and es: "expand_match esc rec str isTop m = Inr es"
  shows "expansion_of str es"
  using es
proof (cases rule: expand_match_cases)
  case self
  then show ?thesis by (simp add: expansion_of_self)
next
  case close
  have "closing (bm_pre m @ [123] @ bm_body m @ esc @ bm_post m) < closing str"
    using closing_match [OF m] esc by (simp add: count_list_0_iff)
  then show ?thesis using expansion_ofD(1) [OF rec [OF close]] by (intro expansion_of_less) fastforce
next
  case (seq N post)
  have "expansion_of (bm_post m) post" using seq(1) rec by (auto simp: expansion_of_self split: if_splits)
  moreover have "closing x \<le> 0" if "x \<in> set N" for x
    using sequence_items_closing [OF seq(2) that] by (simp add: count_list_0_iff)
  ultimately show ?thesis
    unfolding seq(3) using closing_match [OF m]
    by (intro expansion_of_combine [of "bm_pre m" 0 "bm_post m"]) simp_all
next
  case (options n post)
  have "expansion_of (bm_post m) post" using options(1) rec by (auto simp: expansion_of_self split: if_splits)
  then show ?thesis
    using expand_options_closing [OF rec closing_match [OF m] _ options(2) closing_comma_part options(3)] by blast
qed

lemma expand_closing:
  assumes "125 \<notin> set (escClose tk)"
  shows "expand tk fuel str isTop = Inr es \<Longrightarrow> expansion_of str es"
proof (induction fuel arbitrary: str isTop es)
  case (Suc fuel)
  show ?case
  proof (cases "\<exists>m. brace_match str = Some (Inr (Some m))")
    case False
    then show ?thesis using Suc.prems expand_no_match by (auto simp: expansion_of_self)
  next
    case True
    then obtain m where m: "brace_match str = Some (Inr (Some m))" by blast
    then have "expand_match (escClose tk) (\<lambda>s. expand tk fuel s False) str isTop m = Inr es"
      using Suc.prems by (simp add: expand.simps)
    then show ?thesis using expand_match_closing [of "\<lambda>s. expand tk fuel s False", OF _ m assms] Suc.IH by blast
  qed
qed (simp add: expand.simps)

text \<open>When \<open>expand\<close> runs out of fuel, so does a recursive call on a string with fewer closing
  braces.\<close>

lemma sequence_items_fuel: "sequence_items body \<noteq> Inl OutOfFuel"
  by (auto simp: sequence_items_def Let_def split: option.splits if_splits)

lemma expand_match_fuel:
  assumes rec: "\<And>s es. rec s = Inr es \<Longrightarrow> expansion_of s es"
    and m: "brace_match str = Some (Inr (Some m))" and esc: "125 \<notin> set esc"
    and er: "expand_match esc rec str isTop m = Inl OutOfFuel"
  shows "\<exists>s. rec s = Inl OutOfFuel \<and> closing s < closing str"
proof -
  note c = closing_match [OF m]
  let ?parts = "parseCommaParts (bm_body m)"
  let ?post = "if bm_post m \<noteq> [] then rec (bm_post m) else Inr [[]]"
  have post: "?thesis" if "?post = Inl OutOfFuel"
    using that c by (intro exI [of _ "bm_post m"]) (auto split: if_splits)
  have hd: "closing (hd ?parts) \<le> closing (bm_body m)" if "length ?parts = 1"
    using closing_comma_part that by (cases ?parts) auto
  have close: "closing (bm_pre m @ [123] @ bm_body m @ esc @ bm_post m) < closing str"
    using c esc by (simp add: count_list_0_iff)
  have opt: ?thesis if n: "option_parts rec ?parts = Inr n"
    and o: "expand_options rec (bm_pre m) ?parts n ps isTop = Inl OutOfFuel" for n ps
  proof -
    have nl: "\<not> (length ?parts = 1 \<and> length n = 1)" using o by (auto simp: expand_options_def)
    obtain el where el: "el \<in> set n" "rec el = Inl OutOfFuel"
      using o concatMap_from_Inl [of 0 n rec OutOfFuel]
      unfolding expand_options_def if_not_P [OF nl] bind_js_Inl concatMap_def by auto
    have "closing el \<le> closing (bm_body m)"
      using option_parts_closing [OF rec n closing_comma_part nl el(1)] .
    then show ?thesis using el(2) c by (intro exI [of _ el]) simp
  qed
  have parts: ?thesis if "option_parts rec ?parts = Inl OutOfFuel"
  proof -
    have "length ?parts = 1" "rec (hd ?parts) = Inl OutOfFuel"
      using that by (auto simp: option_parts_def bind_js_Inl split: if_splits)
    then show ?thesis using hd c by (intro exI [of _ "hd ?parts"]) simp
  qed
  show ?thesis
    using er close post opt parts sequence_items_fuel
    unfolding expand_match_def Let_def by (fastforce simp: bind_js_Inl split: if_splits)
qed

lemma expand_enough_fuel:
  assumes "125 \<notin> set (escClose tk)"
  shows "closing str < fuel \<Longrightarrow> expand tk fuel str isTop \<noteq> Inl OutOfFuel"
proof (induction fuel arbitrary: str isTop)
  case (Suc fuel)
  show ?case
  proof
    assume er: "expand tk (Suc fuel) str isTop = Inl OutOfFuel"
    then obtain m where m: "brace_match str = Some (Inr (Some m))" using expand_no_match by fastforce
    have "expand_match (escClose tk) (\<lambda>s. expand tk fuel s False) str isTop m = Inl OutOfFuel"
      using er m by (simp add: expand.simps)
    then obtain s where s: "expand tk fuel s False = Inl OutOfFuel" "closing s < closing str"
      using expand_match_fuel [of "\<lambda>s. expand tk fuel s False", OF _ m assms] expand_closing [OF assms] by blast
    moreover have "closing s < fuel" using s(2) Suc.prems by simp
    ultimately show False using Suc.IH by blast
  qed
qed simp

text \<open>
  Claim C19: brace expansion never runs out of recursion: when the random part of the token for
  an escaped closing brace holds no brace, as the notation of a number does not, the fuel
  given to \<open>expand\<close>, one more than the number of closing braces, is enough for every string,
  and \<open>expandTop\<close> returns a list unless a sequence in it has no end or no exact bounds.
\<close>

theorem expandTop_returns:
  assumes "125 \<notin> set r3"
  shows "(\<exists>es. expandTop (make_tokens r1 r2 r3 r4 r5) str = Inr es)
    \<or> expandTop (make_tokens r1 r2 r3 r4 r5) str \<in> {Inl EndlessLoop, Inl UnsafeInteger}"
proof -
  let ?tk = "make_tokens r1 r2 r3 r4 r5"
  have "125 \<notin> set (escClose ?tk)" using assms by (simp add: make_tokens_def js_def of_char_def)
  then have "expand ?tk (expand_fuel s) s True \<noteq> Inl OutOfFuel" for s
    by (rule expand_enough_fuel) (simp add: expand_fuel_def)
  then have "expandTop ?tk str \<noteq> Inl OutOfFuel"
    by (auto simp: expandTop_def Let_def bind_js_Inl split: if_splits)
  then show ?thesis
    by (cases "expandTop ?tk str") (auto, metis expand_stop.exhaust)
qed

lemma expandTop_returns_witness:
  "(125 :: code_unit) \<notin> set (js ''0.3'')
   \<and> expandTop (make_tokens (js ''0.1'') (js ''0.2'') (js ''0.3'') (js ''0.4'') (js ''0.5''))
        (js ''a{b,c{d,e}}f'') = Inr [js ''abf'', js ''acdf'', js ''acef'']
   \<and> ((\<exists>es. expandTop (make_tokens (js ''0.1'') (js ''0.2'') (js ''0.3'') (js ''0.4'') (js ''0.5''))
        (js ''a{b,c{d,e}}f'') = Inr es)
      \<or> expandTop (make_tokens (js ''0.1'') (js ''0.2'') (js ''0.3'') (js ''0.4'') (js ''0.5''))
        (js ''a{b,c{d,e}}f'') \<in> {Inl EndlessLoop, Inl UnsafeInteger})"
proof -
  have h: "(125 :: code_unit) \<notin> set (js ''0.3'')" by code_simp
  moreover have "expandTop (make_tokens (js ''0.1'') (js ''0.2'') (js ''0.3'') (js ''0.4'') (js ''0.5''))
        (js ''a{b,c{d,e}}f'') = Inr [js ''abf'', js ''acdf'', js ''acef'']" by code_simp
  ultimately show ?thesis using expandTop_returns [OF h] by blast
qed

end
