(* ===== verification/Brace_Correct.thy ===== *)
theory Brace_Correct
  imports Brace_Expansion
begin

text \<open>
  What brace expansion returns: when the loop over a sequence ends, what a list of plain
  alternatives expands to, and what a range of integers expands to.
\<close>

section \<open>Sequences\<close>

lemma seq_loop_up: "seq_loop lte x y 1 = Some [x..y]"
proof (induction "nat (y - x + 1)" arbitrary: x)
  case 0
  then show ?case by (subst seq_loop.simps) (simp add: lte_def)
next
  case (Suc n)
  then have "x \<le> y" "n = nat (y - (x + 1) + 1)" by simp_all
  then show ?case using Suc.hyps(1) [of "x + 1"] by (subst seq_loop.simps) (simp add: lte_def upto_rec1)
qed

lemma seq_loop_down: "seq_loop gte x y (- 1) = Some (rev [y..x])"
proof (induction "nat (x - y + 1)" arbitrary: x)
  case 0
  then show ?case by (subst seq_loop.simps) (simp add: gte_def)
next
  case (Suc n)
  then have "y \<le> x" "n = nat (x - 1 - y + 1)" by simp_all
  then show ?case using Suc.hyps(1) [of "x - 1"] by (subst seq_loop.simps) (simp add: gte_def upto_rec2)
qed

lemma seq_loop_lte_ends: "0 < d \<Longrightarrow> \<exists>is. seq_loop lte i y d = Some is"
proof (induction "nat (y - i + 1)" arbitrary: i rule: less_induct)
  case less
  show ?case
  proof (cases "i \<le> y")
    case True
    then have "nat (y - (i + d) + 1) < nat (y - i + 1)" using less.prems by simp
    then obtain "is" where "seq_loop lte (i + d) y d = Some is" using less by blast
    then show ?thesis using True by (subst seq_loop.simps) (simp add: lte_def)
  qed (subst seq_loop.simps, simp add: lte_def)
qed

lemma seq_loop_gte_ends: "d < 0 \<Longrightarrow> \<exists>is. seq_loop gte i y d = Some is"
proof (induction "nat (i - y + 1)" arbitrary: i rule: less_induct)
  case less
  show ?case
  proof (cases "y \<le> i")
    case True
    then have "nat (i + d - y + 1) < nat (i - y + 1)" using less.prems by simp
    then obtain "is" where "seq_loop gte (i + d) y d = Some is" using less by blast
    then show ?thesis using True by (subst seq_loop.simps) (simp add: gte_def)
  qed (subst seq_loop.simps, simp add: gte_def)
qed

lemma seq_loop_zero:
  assumes "test i y"
  shows "seq_loop test i y 0 = None"
proof (rule ccontr)
  assume "seq_loop test i y 0 \<noteq> None"
  then obtain zs where "seq_loop test i y 0 = Some zs" by blast
  then have "0 = (0 :: int) \<longrightarrow> \<not> test i y"
    by (rule seq_loop.raw_induct [where P = "\<lambda>test i y d zs. d = 0 \<longrightarrow> \<not> test i y", rotated])
      (auto simp: bind_eq_Some_conv split: if_splits, blast)
  then show False using assms by blast
qed

definition safe_sequence :: "jsstring \<Rightarrow> bool" where
  "safe_sequence body \<longleftrightarrow>
     (\<forall>w \<in> set (seq_parts body). \<bar>numeric w\<bar> \<le> max_safe)"

lemma sequence_length: "isNumericSequence body \<or> isAlphaSequence body \<Longrightarrow>
    length (seq_parts body) = 2 \<or> length (seq_parts body) = 3"
  by (auto simp: isNumericSequence_def isAlphaSequence_def Let_def split: list.splits)

text \<open>
  Claim C22: the loop over a sequence such as \<open>{1..9..2}\<close> ends for every pair of bounds that are
  exact integers, except when a step is given and it is 0; then it never ends.
\<close>

theorem sequence_ends_iff_step:
  assumes "isNumericSequence body \<or> isAlphaSequence body" "safe_sequence body"
  shows "if length (seq_parts body) = 3 \<and> numeric (seq_parts body ! 2) = 0
    then sequence_items body = Inl EndlessLoop else \<exists>N. sequence_items body = Inr N"
proof -
  let ?n = "seq_parts body"
  let ?x = "numeric (?n ! 0)" and ?y = "numeric (?n ! 1)"
  let ?incr = "if length ?n = 3 then \<bar>numeric (?n ! 2)\<bar> else 1"
  let ?sl = "seq_loop (if ?y < ?x then gte else lte) ?x ?y (if ?y < ?x then - ?incr else ?incr)"
  have len: "length ?n = 2 \<or> length ?n = 3" using sequence_length [OF assms(1)] .
  have bound: "i < length ?n \<Longrightarrow> \<bar>numeric (?n ! i)\<bar> \<le> max_safe" for i
    using assms(2) by (simp add: safe_sequence_def)
  have safe: "\<not> (max_safe < \<bar>?x\<bar> \<or> max_safe < \<bar>?y\<bar> \<or> max_safe < ?incr)"
  proof -
    have "0 < length ?n" "1 < length ?n" "length ?n = 3 \<Longrightarrow> 2 < length ?n" using len by linarith+
    then have "\<bar>?x\<bar> \<le> max_safe" "\<bar>?y\<bar> \<le> max_safe" "length ?n = 3 \<Longrightarrow> \<bar>numeric (?n ! 2)\<bar> \<le> max_safe"
      using bound by blast+
    then show ?thesis by (auto simp: max_safe_def)
  qed
  have items: "sequence_items body = (case ?sl of None \<Rightarrow> Inl EndlessLoop
      | Some is \<Rightarrow> Inr (map (if isAlphaSequence body then alpha_item
          else numeric_item (list_ex isPadded ?n) (max (length (?n ! 0)) (length (?n ! 1)))) is))"
    unfolding sequence_items_def Let_def if_not_P [OF safe] ..
  show ?thesis
  proof (cases "?incr = 0")
    case True
    then have "?sl = None" by (simp add: seq_loop_zero gte_def lte_def)
    then show ?thesis using True items by (auto split: if_splits)
  next
    case False
    then have "0 < ?incr" by auto
    then obtain "is" where "?sl = Some is"
      using seq_loop_lte_ends [of ?incr ?x ?y] seq_loop_gte_ends [of "- ?incr" ?x ?y]
      by (cases "?y < ?x") (simp_all del: abs_less_iff, blast+)
    then show ?thesis using False items by auto
  qed
qed

lemma sequence_ends_iff_step_witness:
  "(isNumericSequence (js ''1..2..0'') \<or> isAlphaSequence (js ''1..2..0'')) \<and> safe_sequence (js ''1..2..0'')
   \<and> sequence_items (js ''1..2..0'') = Inl EndlessLoop"
proof -
  have h: "isNumericSequence (js ''1..2..0'') \<or> isAlphaSequence (js ''1..2..0'')" "safe_sequence (js ''1..2..0'')"
    by code_simp+
  have "length (seq_parts (js ''1..2..0'')) = 3 \<and> numeric (seq_parts (js ''1..2..0'') ! 2) = 0" by code_simp
  then show ?thesis using h sequence_ends_iff_step [OF h] by simp
qed

section \<open>Plain alternatives and ranges\<close>

lemma balanced_prefix_unique:
  "depth a b 0 u = Some 0 \<Longrightarrow> u @ b # v = w @ b # z \<Longrightarrow> a \<notin> set w \<Longrightarrow> b \<notin> set w \<Longrightarrow> a \<noteq> b
    \<Longrightarrow> u = w \<and> v = z"
proof (induction w arbitrary: u)
  case Nil
  then show ?case by (cases u) auto
next
  case (Cons c w)
  then obtain u' where "u = c # u'" by (cases u) auto
  then show ?case using Cons by auto
qed

lemma closes_simple:
  assumes "a \<notin> set body" "b \<notin> set body"
  shows "closes a b (pre @ a # body @ b # post) (length pre) (Suc (length pre + length body))"
proof -
  have "slice (pre @ a # body @ b # post) (Suc (length pre)) (Suc (length pre + length body)) = body"
    by (simp add: slice_def)
  then show ?thesis using assms by (simp add: closes_def nth_append depth_plain)
qed

text \<open>The match of a string with one pair of braces.\<close>

lemma brace_match_simple:
  assumes "123 \<notin> set pre" "123 \<notin> set body" "125 \<notin> set body"
  shows "\<exists>m. brace_match (pre @ 123 # body @ 125 # post) = Some (Inr (Some m))
    \<and> bm_pre m = pre \<and> bm_body m = body \<and> bm_post m = post"
proof -
  let ?s = "pre @ 123 # body @ 125 # post"
  have cl: "closes 123 125 ?s (length pre) (Suc (length pre + length body))"
    using closes_simple assms by blast
  then obtain m r where m: "brace_match ?s = Some (Inr (Some m))" "closes 123 125 ?s (bm_start m) r"
      "\<forall>l' < bm_start m. \<forall>r'. \<not> closes 123 125 ?s l' r'" "length (bm_pre m) = bm_start m"
    using balanced_parts [of 123 125 ?s] by auto
  have "\<not> bm_start m < length pre"
  proof
    assume "bm_start m < length pre"
    then have "pre ! bm_start m = 123" "bm_start m < length pre"
      using m(2) by (simp_all add: closes_def nth_append)
    then show False using assms(1) nth_mem by metis
  qed
  moreover have "\<not> length pre < bm_start m" using m(3) cl by blast
  ultimately have len: "length (bm_pre m) = length pre" using m(4) by simp
  have s: "?s = bm_pre m @ [123] @ bm_body m @ [125] @ bm_post m" "depth 123 125 0 (bm_body m) = Some 0"
    using brace_match_parts [OF m(1)] by blast+
  then have "bm_pre m = pre \<and> bm_body m @ 125 # bm_post m = body @ 125 # post" using len by auto
  then show ?thesis
    using m(1) balanced_prefix_unique [OF s(2)] assms(2,3) by (intro exI [of _ m]) auto
qed

lemma brace_match_none: "123 \<notin> set s \<Longrightarrow> brace_match s = Some (Inr None)"
  using balanced_parts [of 123 125 s] by (auto simp: closes_def in_set_conv_nth)

lemma expand_plain: "123 \<notin> set s \<Longrightarrow> 0 < fuel \<Longrightarrow> expand tk fuel s isTop = Inr [s]"
  by (cases fuel) (simp_all add: expand.simps brace_match_none)

lemma split_join_absent: "a \<noteq> [] \<Longrightarrow> hd a \<notin> set s \<Longrightarrow> split_join a b s = s"
  by (simp add: split_join_def split_str_def split_at_no_hd)

lemma escapeBraces_plain: "92 \<notin> set s \<Longrightarrow> escapeBraces tk s = s"
  by (simp add: escapeBraces_def split_join_absent)

lemma unescapeBraces_plain: "0 \<notin> set s \<Longrightarrow> unescapeBraces (make_tokens r1 r2 r3 r4 r5) s = s"
  by (simp add: unescapeBraces_def make_tokens_def split_join_absent)

text \<open>A string without the characters that brace expansion treats specially.\<close>

definition plain :: "jsstring \<Rightarrow> bool" where
  "plain s \<longleftrightarrow> set s \<inter> {0, 36, 44, 92, 123, 125} = {}"

lemma plainD: "plain s \<Longrightarrow> 0 \<notin> set s \<and> 36 \<notin> set s \<and> 44 \<notin> set s \<and> 92 \<notin> set s \<and> 123 \<notin> set s \<and> 125 \<notin> set s"
  by (auto simp: plain_def)

lemma set_join: "set (join ws d) \<subseteq> (\<Union>w \<in> set ws. set w) \<union> set d"
  by (induction ws d rule: join.induct) auto

lemma is_int_no_comma: "is_int s \<Longrightarrow> 44 \<notin> set s"
  by (cases s) (auto simp: is_int_def Let_def is_digit_def list_all_iff split: if_splits)

lemma sequence_no_comma:
  assumes "isNumericSequence body \<or> isAlphaSequence body"
  shows "44 \<notin> set body"
proof -
  have "44 \<notin> set w" if "w \<in> set (seq_parts body)" for w
  proof -
    have "is_int w \<or> (length w = 1 \<and> ascii_letter (hd w))"
      using assms that
      by (auto simp: isNumericSequence_def isAlphaSequence_def Let_def list_all_iff split: list.splits)
    then show ?thesis
    proof
      assume "length w = 1 \<and> ascii_letter (hd w)"
      then show ?thesis by (cases w) (auto simp: ascii_letter_def)
    qed (rule is_int_no_comma)
  qed
  moreover have "body = join (seq_parts body) [46, 46]"
    by (simp add: seq_parts_def split_str_def join_split_at)
  ultimately show ?thesis using set_join [of "seq_parts body" "[46, 46]"] by auto
qed

lemma concatMap_singletons:
  "(\<And>x. x \<in> set xs \<Longrightarrow> f x = Inr [x]) \<Longrightarrow>
    concatMap_from i xs (\<lambda>el _. bind_js (f el) (\<lambda>es. Inr (Many es))) = Inr xs"
  by (induction xs arbitrary: i) auto

lemma expand_alternatives:
  assumes pre: "plain pre" and parts: "2 \<le> length parts" "\<forall>w \<in> set parts. plain w" and post: "plain post"
    and fuel: "2 \<le> fuel"
  shows "expand tk fuel (pre @ 123 # join parts [44] @ 125 # post) True
    = Inr (filter (\<lambda>e. e \<noteq> []) (map (\<lambda>w. pre @ w @ post) parts))"
proof -
  let ?body = "join parts [44]"
  obtain f where f: "fuel = Suc f" "0 < f" using fuel by (cases fuel) auto
  have sb: "123 \<notin> set ?body" "125 \<notin> set ?body"
    using set_join [of parts "[44]"] parts(2) by (auto dest!: plainD)
  then obtain m where m: "brace_match (pre @ 123 # ?body @ 125 # post) = Some (Inr (Some m))"
      "bm_pre m = pre" "bm_body m = ?body" "bm_post m = post"
    using brace_match_simple plainD [OF pre] by blast
  have pc: "parseCommaParts ?body = parts"
  proof -
    have "parseCommaParts ?body = split_on 44 ?body"
      using sb(1) by (intro parseCommaParts_no_match) (simp add: brace_match_none)
    also have "\<dots> = parts" using parts by (intro split_on_join) (auto dest: plainD)
    finally show ?thesis .
  qed
  have comma: "44 \<in> set ?body" using parts(1) by (cases "(parts, [44 :: code_unit])" rule: join.cases) auto
  then have nseq: "\<not> (isNumericSequence ?body \<or> isAlphaSequence ?body)" using sequence_no_comma by blast
  have rec: "expand tk f s False = Inr [s]" if "plain s" for s
    using that f(2) by (auto intro: expand_plain dest: plainD)
  have cm: "concatMap parts (\<lambda>el _. bind_js (expand tk f el False) (\<lambda>es. Inr (Many es))) = Inr parts"
    unfolding concatMap_def by (rule concatMap_singletons) (use rec parts(2) in blast)
  have dollar: "\<not> (pre \<noteq> [] \<and> last pre = 36)" using plainD [OF pre] by (metis last_in_set)
  have comb: "combine pre N [post] False = filter (\<lambda>e. e \<noteq> []) (map (\<lambda>w. pre @ w @ post) N)" for N
    by (induction N) (auto simp: combine_def)
  have "expand_match (escClose tk) (\<lambda>s. expand tk f s False) (pre @ 123 # ?body @ 125 # post) True m
      = Inr (combine pre parts [post] False)"
    using m nseq comma dollar pc parts(1) cm rec [OF post]
    by (cases "post = []") (auto simp: expand_match_def Let_def option_parts_def expand_options_def)
  then show ?thesis using m(1) by (simp add: f(1) expand.simps comb)
qed

text \<open>
  Claim C20: a pattern with one list of plain alternatives, such as \<open>a{b,c,}d\<close>, expands to the
  alternatives in order, each between the text before and the text after the braces; an
  expansion that would be empty is left out.
\<close>

theorem expandTop_alternatives:
  assumes "plain pre" "2 \<le> length parts" "\<forall>w \<in> set parts. plain w" "plain post"
  shows "expandTop (make_tokens r1 r2 r3 r4 r5) (pre @ [123] @ join parts [44] @ [125] @ post)
    = Inr (filter (\<lambda>e. e \<noteq> []) (map (\<lambda>w. pre @ w @ post) parts))"
proof -
  let ?tk = "make_tokens r1 r2 r3 r4 r5"
  let ?s = "pre @ 123 # join parts [44] @ 125 # post"
  have "92 \<notin> set ?s" using assms set_join [of parts "[44]"] by (auto dest!: plainD)
  then have esc: "escapeBraces ?tk ?s = ?s" by (rule escapeBraces_plain)
  have "take 2 ?s \<noteq> [123, 125]"
  proof (cases pre)
    case Nil
    obtain x y ys where p: "parts = x # y # ys" using assms(2) by (metis Suc_le_length_iff numeral_2_eq_2)
    have "hd (join parts [44] @ 125 # post) \<noteq> 125" using assms(3) p by (cases x) (auto dest: plainD)
    then show ?thesis using Nil by (cases "join parts [44]") auto
  qed (use plainD [OF assms(1)] in auto)
  moreover have "map (unescapeBraces ?tk) (filter (\<lambda>e. e \<noteq> []) (map (\<lambda>w. pre @ w @ post) parts))
      = filter (\<lambda>e. e \<noteq> []) (map (\<lambda>w. pre @ w @ post) parts)"
    using assms by (intro map_idI unescapeBraces_plain) (auto dest!: plainD)
  moreover have "2 \<le> expand_fuel ?s" by (simp add: expand_fuel_def)
  ultimately show ?thesis
    using expand_alternatives [OF assms, of "expand_fuel ?s" ?tk] esc by (simp add: expandTop_def Let_def)
qed

lemma expandTop_alternatives_witness:
  "plain (js ''a'') \<and> 2 \<le> length [js ''b'', []] \<and> plain (js ''b'') \<and> plain [] \<and> plain (js ''d'')
   \<and> expandTop (make_tokens [] [] [] [] []) (js ''a'' @ [123] @ join [js ''b'', []] [44] @ [125] @ js ''d'')
     = Inr [js ''abd'', js ''ad'']"
proof -
  have h: "plain (js ''a'')" "2 \<le> length [js ''b'', []]" "\<forall>w \<in> set [js ''b'', []]. plain w" "plain (js ''d'')"
    by (simp_all add: plain_def js_def of_char_def)
  then show ?thesis using expandTop_alternatives [OF h, of "[]" "[]" "[]" "[]" "[]"] by (simp add: js_def)
qed

lemma split_at_two:
  assumes "46 \<notin> set u" "46 \<notin> set v"
  shows "split_at [46, 46] (u @ 46 # 46 # v) = [u, v]"
  using assms(1)
proof (induction u)
  case Nil
  then show ?case using assms(2) by (subst split_at.simps) (simp add: split_at_no_hd)
next
  case (Cons c u)
  then show ?case by (subst split_at.simps) auto
qed

lemma int_string_units: "c \<in> set (int_string i) \<Longrightarrow> c = 45 \<or> is_digit c"
  using decimal_digits by (auto simp: int_string_def list_all_iff split: if_splits)

lemma int_string_plain: "plain (int_string i)" "46 \<notin> set (int_string i)"
  using int_string_units by (fastforce simp: plain_def is_digit_def)+

lemma decimal_leading: "hd (decimal n) = 48 \<Longrightarrow> length (decimal n) = 1"
proof (induction n rule: decimal.induct)
  case (1 n)
  show ?case
  proof (cases "n < 10")
    case True
    then show ?thesis by (subst decimal.simps) simp
  next
    case False
    then have d: "decimal n = decimal (n div 10) @ [digit_unit (n mod 10)]" by (subst decimal.simps) simp
    then have "hd (decimal (n div 10)) = 48" using 1(2) decimal_digits by simp
    then have "length (decimal (n div 10)) = 1" using 1(1) False by blast
    then have "decimal (n div 10) = [48]"
      using \<open>hd (decimal (n div 10)) = 48\<close> by (cases "decimal (n div 10)") auto
    then have "n div 10 = 0" using digits_value_decimal [of "n div 10"] by (simp add: digits_value_def)
    then show ?thesis using False by simp
  qed
qed

lemma int_string_not_padded: "\<not> isPadded (int_string i)"
proof -
  have "\<not> (2 \<le> length (decimal n) \<and> decimal n ! 0 = 48)" for n
    using decimal_leading [of n] decimal_digits [of n] by (metis hd_conv_nth one_less_numeral_iff leD semiring_norm(76))
  moreover have "decimal n \<noteq> []" for n using decimal_digits by blast
  ultimately show ?thesis
    using decimal_hd by (auto simp: isPadded_def int_string_def Let_def split: if_splits)
qed

lemma numeric_int_string: "numeric (int_string i) = i"
  by (simp add: numeric_def is_int_string parse_int_string)

lemma sequence_items_range:
  assumes "\<bar>x\<bar> \<le> max_safe" "\<bar>y\<bar> \<le> max_safe"
  shows "isNumericSequence (int_string x @ 46 # 46 # int_string y)"
    and "sequence_items (int_string x @ 46 # 46 # int_string y)
      = Inr (map int_string (if x \<le> y then [x..y] else rev [y..x]))"
proof -
  let ?b = "int_string x @ 46 # 46 # int_string y"
  have n: "seq_parts ?b = [int_string x, int_string y]"
    using split_at_two int_string_plain(2) by (simp add: seq_parts_def split_str_def)
  then show "isNumericSequence ?b" by (simp add: isNumericSequence_def is_int_string)
  have "\<not> (length (int_string x) = 1 \<and> ascii_letter (hd (int_string x)))"
    using int_string_units [of "hd (int_string x)" x]
    by (cases "int_string x") (auto simp: ascii_letter_def is_digit_def word_le_def)
  then have na: "\<not> isAlphaSequence ?b" by (auto simp: isAlphaSequence_def n)
  have it: "numeric_item False w = int_string" for w by (auto simp: numeric_item_def Let_def)
  show "sequence_items ?b = Inr (map int_string (if x \<le> y then [x..y] else rev [y..x]))"
    using assms na seq_loop_up [of x y] seq_loop_down [of x y]
    by (simp add: sequence_items_def Let_def n numeric_int_string int_string_not_padded it max_safe_def)
qed

text \<open>
  Claim C21: a range of integers expands to the decimal notation of every integer from the first
  bound to the second, counting up or down.
\<close>

theorem expandTop_integer_range:
  assumes "\<bar>x\<bar> \<le> max_safe" "\<bar>y\<bar> \<le> max_safe"
  shows "expandTop (make_tokens r1 r2 r3 r4 r5) ([123] @ int_string x @ js ''..'' @ int_string y @ [125])
    = Inr (map int_string (if x \<le> y then [x..y] else rev [y..x]))"
proof -
  let ?tk = "make_tokens r1 r2 r3 r4 r5"
  let ?b = "int_string x @ 46 # 46 # int_string y"
  let ?s = "123 # ?b @ [125]"
  have pl: "plain ?b" using int_string_plain by (auto simp: plain_def)
  have s: "[123] @ int_string x @ js ''..'' @ int_string y @ [125] = ?s" by (simp add: js_def of_char_def)
  obtain m where m: "brace_match ?s = Some (Inr (Some m))" "bm_pre m = []" "bm_body m = ?b" "bm_post m = []"
    using brace_match_simple [of "[]" ?b "[]"] plainD [OF pl] by auto
  have fuel: "expand_fuel ?s = Suc (Suc 0)"
    using plainD [OF pl] by (simp add: expand_fuel_def count_list_0_iff)
  have "combine [] N [[]] True = N" for N by (induction N) (auto simp: combine_def)
  then have e: "expand ?tk (expand_fuel ?s) ?s True = Inr (map int_string (if x \<le> y then [x..y] else rev [y..x]))"
    using m sequence_items_range [OF assms] unfolding fuel
    by (simp only: expand.simps expand_match_def Let_def option.case sum.case) simp
  have "92 \<notin> set ?s" using plainD [OF pl] by simp
  then have esc: "escapeBraces ?tk ?s = ?s" by (rule escapeBraces_plain)
  have "int_string x \<noteq> []" using is_int_string [of x] by (auto simp: is_int_def)
  then have "take 2 ?s \<noteq> [123, 125]" using plainD [OF pl] by (cases "int_string x") auto
  moreover have "map (unescapeBraces ?tk) (map int_string is) = map int_string is" for "is"
    using plainD [OF int_string_plain(1)] by (simp add: unescapeBraces_plain)
  ultimately show ?thesis
    unfolding s expandTop_def Let_def using e esc by (simp del: map_map)
qed

lemma expandTop_integer_range_witness:
  "\<bar>- 1\<bar> \<le> max_safe \<and> \<bar>1\<bar> \<le> max_safe \<and>
   expandTop (make_tokens [] [] [] [] []) ([123] @ int_string (- 1) @ js ''..'' @ int_string 1 @ [125])
   = Inr [js ''-1'', js ''0'', js ''1'']"
proof -
  have h: "\<bar>- 1\<bar> \<le> max_safe" "\<bar>1\<bar> \<le> max_safe" by (simp_all add: max_safe_def)
  have "map int_string (if - 1 \<le> (1 :: int) then [- 1..1] else rev [1..- 1]) = [js ''-1'', js ''0'', js ''1'']"
    by code_simp
  then show ?thesis using h expandTop_integer_range [OF h, of "[]" "[]" "[]" "[]" "[]"] by simp
qed

end
