(* ===== verification/Events.thy ===== *)
theory Events
  imports Js_Strings
begin

text \<open>
  The event emitter (module 14 of \<open>wordcut.js\<close>), which the glob walkers extend.  A listener is a
  function of the client, known by a number, or the wrapper that \<open>once\<close> makes.  What a client's
  function does is the argument \<open>act\<close>: it gets the arguments and the emitter, may change the
  emitter in any way (so it may add and remove listeners while an event is being emitted),
  and may throw.  The arrays of listeners live in a store, because the emitter and a running
  loop may share one.  An event name is any string that is not a property of
  \<open>Object.prototype\<close>.
\<close>

section \<open>State\<close>

text \<open>A wrapper made by \<open>once\<close> has an identity, the event it waits for and the function in its
  \<open>listener\<close> property.\<close>

datatype listener = Fn nat | Once_wrapper nat jsstring listener

datatype event_arg = Name jsstring | Listener listener | Error_object jsstring | Other nat

text \<open>\<open>_events[type]\<close>: one function, or the address of an array.\<close>

datatype handlers = Single listener | Arr nat

text \<open>\<open>_events\<close> is an association list in the order of insertion; \<open>undefined\<close> acts like the
  empty object in every method.  \<open>console\<close> collects the counts of the leak warnings, \<open>fired\<close> the
  wrappers whose flag is set; \<open>fresh\<close> is the next unused address or wrapper identity.\<close>

record 'w emitter =
  events :: "(jsstring \<times> handlers) list"
  arrays :: "nat \<Rightarrow> listener list"
  warned :: "nat \<Rightarrow> bool"
  maxListeners :: "int option"
  fired :: "nat list"
  fresh :: nat
  console :: "nat list"
  world :: 'w

definition EventEmitter :: "'w \<Rightarrow> 'w emitter" where
  "EventEmitter w =
     \<lparr>events = [], arrays = (\<lambda>_. []), warned = (\<lambda>_. False), maxListeners = None, fired = [],
      fresh = 0, console = [], world = w\<rparr>"

definition defaultMaxListeners :: int where
  "defaultMaxListeners = 10"

text \<open>A call returns a value or throws, and leaves a state either way; \<open>None\<close> when the fuel for
  nested calls ran out.\<close>

type_synonym ('w, 'a) run = "('w emitter \<times> (js_error + 'a)) option"

fun bind_run :: "('w, 'a) run \<Rightarrow> ('w emitter \<Rightarrow> 'a \<Rightarrow> ('w, 'b) run) \<Rightarrow> ('w, 'b) run" where
  "bind_run None f = None"
| "bind_run (Some (s, Inl e)) f = Some (s, Inl e)"
| "bind_run (Some (s, Inr x)) f = f s x"

abbreviation (input) ret :: "'w emitter \<Rightarrow> 'a \<Rightarrow> ('w, 'a) run" where
  "ret s x \<equiv> Some (s, Inr x)"

fun each :: "('a \<Rightarrow> 'w emitter \<Rightarrow> ('w, unit) run) \<Rightarrow> 'a list \<Rightarrow> 'w emitter \<Rightarrow> ('w, unit) run" where
  "each f [] s = ret s ()"
| "each f (x # xs) s = bind_run (f x s) (\<lambda>s' _. each f xs s')"

section \<open>Methods\<close>

text \<open>The argument of \<open>setMaxListeners\<close>: not a number, \<open>NaN\<close>, or an integer.\<close>

datatype max_arg = Not_a_number | NaN | Number int

definition setMaxListeners :: "max_arg \<Rightarrow> 'w emitter \<Rightarrow> ('w, unit) run" where
  "setMaxListeners n s =
     (case n of
        Number k \<Rightarrow> if k < 0 then Some (s, Inl TypeError) else ret (s\<lparr>maxListeners := Some k\<rparr>) ()
      | _ \<Rightarrow> Some (s, Inl TypeError))"

definition delete :: "jsstring \<Rightarrow> (jsstring \<times> 'b) list \<Rightarrow> (jsstring \<times> 'b) list" where
  "delete ty ev = filter (\<lambda>(k, _). k \<noteq> ty) ev"

text \<open>The array or function registered for an event, as a list.\<close>

definition listeners :: "'w emitter \<Rightarrow> jsstring \<Rightarrow> listener list" where
  "listeners s ty =
     (case map_of (events s) ty of
        None \<Rightarrow> [] | Some (Single l) \<Rightarrow> [l] | Some (Arr a) \<Rightarrow> arrays s a)"

definition listenerCount :: "'w emitter \<Rightarrow> jsstring \<Rightarrow> nat" where
  "listenerCount s ty =
     (case map_of (events s) ty of
        None \<Rightarrow> 0 | Some (Single l) \<Rightarrow> 1 | Some (Arr a) \<Rightarrow> length (arrays s a))"

definition wraps :: "listener \<Rightarrow> listener \<Rightarrow> bool" where
  "wraps l m \<longleftrightarrow> (case l of Fn _ \<Rightarrow> False | Once_wrapper _ _ inner \<Rightarrow> inner = m)"

text \<open>The position of the last element that is the listener or wraps it.\<close>

definition last_position :: "listener list \<Rightarrow> listener \<Rightarrow> nat option" where
  "last_position ls l = find (\<lambda>i. ls ! i = l \<or> wraps (ls ! i) l) (rev [0..<length ls])"

text \<open>\<open>removeListener\<close> up to its emission: the new state, and whether something was removed.\<close>

definition remove_entry :: "jsstring \<Rightarrow> listener \<Rightarrow> 'w emitter \<Rightarrow> 'w emitter \<times> bool" where
  "remove_entry ty l s =
     (case map_of (events s) ty of
        None \<Rightarrow> (s, False)
      | Some (Single m) \<Rightarrow>
          if m = l \<or> wraps m l then (s\<lparr>events := delete ty (events s)\<rparr>, True) else (s, False)
      | Some (Arr a) \<Rightarrow>
          (case last_position (arrays s a) l of
             None \<Rightarrow> (s, False)
           | Some i \<Rightarrow>
               if length (arrays s a) = 1
               then (s\<lparr>arrays := (arrays s)(a := []), events := delete ty (events s)\<rparr>, True)
               else (s\<lparr>arrays := (arrays s)(a := take i (arrays s a) @ drop (Suc i) (arrays s a))\<rparr>, True)))"

abbreviation (input) removeListener_event :: jsstring where
  "removeListener_event \<equiv> js ''removeListener''"

text \<open>\<open>emit\<close>, the call of a listener and \<open>removeListener\<close> call one another: the wrapper of \<open>once\<close>
  removes itself, and a removal is announced by an event.  The fuel bounds the depth of these
  nested calls.\<close>

fun invoke :: "(nat \<Rightarrow> event_arg list \<Rightarrow> 'w emitter \<Rightarrow> 'w emitter \<times> js_error option) \<Rightarrow> nat
      \<Rightarrow> listener \<Rightarrow> event_arg list \<Rightarrow> 'w emitter \<Rightarrow> ('w, unit) run"
  and emit :: "(nat \<Rightarrow> event_arg list \<Rightarrow> 'w emitter \<Rightarrow> 'w emitter \<times> js_error option) \<Rightarrow> nat
      \<Rightarrow> jsstring \<Rightarrow> event_arg list \<Rightarrow> 'w emitter \<Rightarrow> ('w, bool) run"
  and removeListener :: "(nat \<Rightarrow> event_arg list \<Rightarrow> 'w emitter \<Rightarrow> 'w emitter \<times> js_error option) \<Rightarrow> nat
      \<Rightarrow> jsstring \<Rightarrow> listener \<Rightarrow> 'w emitter \<Rightarrow> ('w, unit) run" where
  "invoke act 0 l args s = None"
| "invoke act (Suc n) l args s =
     (case l of
        Fn f \<Rightarrow>
          (case act f args s of (s', None) \<Rightarrow> ret s' () | (s', Some e) \<Rightarrow> Some (s', Inl e))
      | Once_wrapper g ty inner \<Rightarrow>
          bind_run (removeListener act n ty l s) (\<lambda>s' _.
            if g \<in> set (fired s') then ret s' ()
            else invoke act n inner args (s'\<lparr>fired := g # fired s'\<rparr>)))"
| "emit act 0 ty args s = None"
| "emit act (Suc n) ty args s =
     (if ty = js ''error'' \<and> listeners s ty = [] then
        (case args of
           Error_object e # _ \<Rightarrow> Some (s, Inl (JsError e))
         | _ \<Rightarrow> Some (s, Inl TypeError))
      else case map_of (events s) ty of
        None \<Rightarrow> ret s False
      | Some (Single l) \<Rightarrow> bind_run (invoke act n l args s) (\<lambda>s' _. ret s' True)
      | Some (Arr a) \<Rightarrow>
          bind_run (each (\<lambda>l s. invoke act n l args s) (arrays s a) s) (\<lambda>s' _. ret s' True))"
| "removeListener act 0 ty l s = None"
| "removeListener act (Suc n) ty l s =
     (let (s', removed) = remove_entry ty l s
      in if removed \<and> map_of (events s') removeListener_event \<noteq> None
         then bind_run (emit act n removeListener_event [Name ty, Listener l] s') (\<lambda>s'' _. ret s'' ())
         else ret s' ())"

declare invoke.simps [simp del] emit.simps [simp del] removeListener.simps [simp del]

definition set_event :: "jsstring \<Rightarrow> handlers \<Rightarrow> (jsstring \<times> handlers) list \<Rightarrow> (jsstring \<times> handlers) list" where
  "set_event ty h ev =
     (if ty \<in> fst ` set ev then map (\<lambda>(k, v). (k, if k = ty then h else v)) ev else ev @ [(ty, h)])"

text \<open>The listener is stored as a function, pushed on the array, or put in a new array after
  the function that was there.\<close>

definition store_listener :: "jsstring \<Rightarrow> listener \<Rightarrow> 'w emitter \<Rightarrow> 'w emitter" where
  "store_listener ty l s =
     (case map_of (events s) ty of
        None \<Rightarrow> s\<lparr>events := set_event ty (Single l) (events s)\<rparr>
      | Some (Arr a) \<Rightarrow> s\<lparr>arrays := (arrays s)(a := arrays s a @ [l])\<rparr>
      | Some (Single m) \<Rightarrow>
          s\<lparr>arrays := (arrays s)(fresh s := [m, l]), warned := (warned s)(fresh s := False),
            events := set_event ty (Arr (fresh s)) (events s), fresh := Suc (fresh s)\<rparr>)"

definition check_leak :: "jsstring \<Rightarrow> 'w emitter \<Rightarrow> 'w emitter" where
  "check_leak ty s =
     (case map_of (events s) ty of
        Some (Arr a) \<Rightarrow>
          let m = (case maxListeners s of None \<Rightarrow> defaultMaxListeners | Some k \<Rightarrow> k)
          in if \<not> warned s a \<and> m > 0 \<and> int (length (arrays s a)) > m
             then s\<lparr>warned := (warned s)(a := True), console := console s @ [length (arrays s a)]\<rparr>
             else s
      | _ \<Rightarrow> s)"

abbreviation (input) newListener_event :: jsstring where
  "newListener_event \<equiv> js ''newListener''"

definition announced :: "listener \<Rightarrow> listener" where
  "announced l = (case l of Fn _ \<Rightarrow> l | Once_wrapper _ _ inner \<Rightarrow> inner)"

text \<open>\<open>None\<close> as the listener stands for a value that is not a function.\<close>

definition addListener :: "(nat \<Rightarrow> event_arg list \<Rightarrow> 'w emitter \<Rightarrow> 'w emitter \<times> js_error option) \<Rightarrow> nat
    \<Rightarrow> jsstring \<Rightarrow> listener option \<Rightarrow> 'w emitter \<Rightarrow> ('w, unit) run" where
  "addListener act n ty listener s =
     (case listener of
        None \<Rightarrow> Some (s, Inl TypeError)
      | Some l \<Rightarrow>
          bind_run
            (if map_of (events s) newListener_event \<noteq> None
             then emit act n newListener_event [Name ty, Listener (announced l)] s
             else ret s True) (\<lambda>s' _.
          ret (check_leak ty (store_listener ty l s')) ()))"

definition once :: "(nat \<Rightarrow> event_arg list \<Rightarrow> 'w emitter \<Rightarrow> 'w emitter \<times> js_error option) \<Rightarrow> nat
    \<Rightarrow> jsstring \<Rightarrow> listener option \<Rightarrow> 'w emitter \<Rightarrow> ('w, unit) run" where
  "once act n ty listener s =
     (case listener of
        None \<Rightarrow> Some (s, Inl TypeError)
      | Some l \<Rightarrow>
          addListener act n ty (Some (Once_wrapper (fresh s) ty l)) (s\<lparr>fresh := Suc (fresh s)\<rparr>))"

text \<open>The loop that removes the last listener of an array until it is empty; the array stays
  the one that was registered when the loop began.\<close>

fun drain :: "(nat \<Rightarrow> event_arg list \<Rightarrow> 'w emitter \<Rightarrow> 'w emitter \<times> js_error option) \<Rightarrow> nat
    \<Rightarrow> jsstring \<Rightarrow> nat \<Rightarrow> 'w emitter \<Rightarrow> ('w, unit) run" where
  "drain act 0 ty a s = None"
| "drain act (Suc n) ty a s =
     (if arrays s a = [] then ret s ()
      else bind_run (removeListener act n ty (last (arrays s a)) s) (\<lambda>s' _. drain act n ty a s'))"

text \<open>\<open>removeAllListeners(type)\<close>.  When nothing is registered for the event, reading \<open>length\<close> of
  \<open>undefined\<close> throws.\<close>

definition removeAllListeners_of ::
  "(nat \<Rightarrow> event_arg list \<Rightarrow> 'w emitter \<Rightarrow> 'w emitter \<times> js_error option) \<Rightarrow> nat
    \<Rightarrow> jsstring \<Rightarrow> 'w emitter \<Rightarrow> ('w, unit) run" where
  "removeAllListeners_of act n ty s =
     (if map_of (events s) removeListener_event = None
      then ret (s\<lparr>events := delete ty (events s)\<rparr>) ()
      else bind_run
        (case map_of (events s) ty of
           None \<Rightarrow> Some (s, Inl TypeError)
         | Some (Single l) \<Rightarrow> removeListener act n ty l s
         | Some (Arr a) \<Rightarrow> drain act n ty a s) (\<lambda>s' _.
        ret (s'\<lparr>events := delete ty (events s')\<rparr>) ()))"

text \<open>The order of \<open>for (key in _events)\<close>: keys that are array indices first, by value, and then
  the others in the order of insertion.  A key that was deleted meanwhile is skipped.\<close>

definition index_key :: "jsstring \<Rightarrow> bool" where
  "index_key k \<longleftrightarrow> k = decimal (digits_value k) \<and> digits_value k < 2 ^ 32 - 1"

definition for_in_keys :: "(jsstring \<times> 'b) list \<Rightarrow> jsstring list" where
  "for_in_keys ev =
     (let ks = map fst ev in sort_key digits_value (filter index_key ks) @ filter (\<lambda>k. \<not> index_key k) ks)"

definition removeAllListeners ::
  "(nat \<Rightarrow> event_arg list \<Rightarrow> 'w emitter \<Rightarrow> 'w emitter \<times> js_error option) \<Rightarrow> nat
    \<Rightarrow> jsstring option \<Rightarrow> 'w emitter \<Rightarrow> ('w, unit) run" where
  "removeAllListeners act n ty s =
     (case ty of
        Some t \<Rightarrow> removeAllListeners_of act n t s
      | None \<Rightarrow>
          if map_of (events s) removeListener_event = None then ret (s\<lparr>events := []\<rparr>) ()
          else bind_run
            (each (\<lambda>k s. if k = removeListener_event \<or> map_of (events s) k = None then ret s ()
                         else removeAllListeners_of act n k s) (for_in_keys (events s)) s) (\<lambda>s1 _.
            bind_run (removeAllListeners_of act n removeListener_event s1) (\<lambda>s2 _.
              ret (s2\<lparr>events := []\<rparr>) ())))"

section \<open>The registry as a map from events to lists of listeners\<close>

text \<open>The invariant: an event occurs once, an array belongs to one event, has an address in use,
  and is not empty.\<close>

definition array_of :: "handlers \<Rightarrow> nat list" where
  "array_of h = (case h of Single _ \<Rightarrow> [] | Arr a \<Rightarrow> [a])"

definition addresses :: "(jsstring \<times> handlers) list \<Rightarrow> nat list" where
  "addresses ev = concat (map (array_of \<circ> snd) ev)"

definition wf_emitter :: "'w emitter \<Rightarrow> bool" where
  "wf_emitter s \<longleftrightarrow>
     distinct (map fst (events s)) \<and> distinct (addresses (events s)) \<and>
     (\<forall>a \<in> set (addresses (events s)). a < fresh s \<and> arrays s a \<noteq> [])"

lemma addresses_simps [simp]:
  "addresses [] = []"
  "addresses ((k, Single l) # ev) = addresses ev"
  "addresses ((k, Arr a) # ev) = a # addresses ev"
  "addresses (ev @ ev') = addresses ev @ addresses ev'"
  by (simp_all add: addresses_def array_of_def)

lemma map_of_address: "map_of ev ty = Some (Arr a) \<Longrightarrow> a \<in> set (addresses ev)"
  by (induction ev) (auto simp: addresses_def array_of_def split: if_splits)

lemma address_unique:
  "distinct (addresses ev) \<Longrightarrow> map_of ev k = Some (Arr a) \<Longrightarrow> map_of ev k' = Some (Arr a) \<Longrightarrow> k = k'"
proof (induction ev)
  case (Cons e ev)
  obtain j h where e: "e = (j, h)" by (cases e)
  show ?case
  proof (cases h)
    case (Single l)
    then show ?thesis using Cons e by (auto split: if_splits)
  next
    case (Arr b)
    then show ?thesis using Cons e map_of_address by (auto split: if_splits)
  qed
qed simp

lemma map_of_delete: "map_of (delete ty ev) k = (if k = ty then None else map_of ev k)"
  by (induction ev) (auto simp: delete_def)

lemma map_of_set_event: "map_of (set_event ty h ev) k = (if k = ty then Some h else map_of ev k)"
proof (cases "ty \<in> fst ` set ev")
  case True
  have "map_of (map (\<lambda>(k, v). (k, if k = ty then h else v)) ev) k
      = (if k = ty then map_option (\<lambda>_. h) (map_of ev k) else map_of ev k)"
    by (induction ev) auto
  moreover have "\<exists>v. map_of ev ty = Some v" using True by (metis dom_map_of_conv_image_fst domD)
  ultimately show ?thesis using True by (auto simp: set_event_def)
next
  case False
  moreover have "map_of ev ty = None" using False by (simp add: map_of_eq_None_iff)
  ultimately show ?thesis by (cases "map_of ev k") (auto simp: set_event_def map_add_def)
qed

lemma set_addresses_delete: "set (addresses (delete ty ev)) \<subseteq> set (addresses ev)"
  by (induction ev) (auto simp: delete_def addresses_def)

lemma distinct_addresses_delete: "distinct (addresses ev) \<Longrightarrow> distinct (addresses (delete ty ev))"
proof (induction ev)
  case (Cons e ev)
  then show ?case
    using set_addresses_delete [of ty ev] by (cases e; cases "snd e") (auto simp: delete_def)
qed (simp add: delete_def)

lemma distinct_keys_delete: "distinct (map fst ev) \<Longrightarrow> distinct (map fst (delete ty ev))"
  by (induction ev) (auto simp: delete_def)

lemma address_deleted:
  assumes "distinct (map fst ev)" "distinct (addresses ev)" "map_of ev ty = Some (Arr a)"
  shows "a \<notin> set (addresses (delete ty ev))"
  using assms
proof (induction ev)
  case (Cons e ev)
  obtain k h where e: "e = (k, h)" by (cases e)
  show ?case
  proof (cases "k = ty")
    case True
    then show ?thesis
      using Cons.prems e set_addresses_delete [of ty ev] by (auto simp: delete_def)
  next
    case False
    then show ?thesis using Cons e map_of_address [of ev ty a] by (cases h) (auto simp: delete_def)
  qed
qed simp

lemma map_fst_set_event:
  "map fst (set_event ty h ev) = (if ty \<in> fst ` set ev then map fst ev else map fst ev @ [ty])"
  by (auto simp: set_event_def)

lemma addresses_update_single:
  assumes "map_of ev ty = Some (Single m)" "distinct (map fst ev)" "a \<notin> set (addresses ev)"
    "distinct (addresses ev)"
  shows "distinct (addresses (set_event ty (Arr a) ev))"
    "set (addresses (set_event ty (Arr a) ev)) = insert a (set (addresses ev))"
proof -
  have absent: "map (\<lambda>(k, v). (k, if k = ty then h else v)) ev = ev" if "ty \<notin> fst ` set ev" for h :: handlers and ev
    using that by (induction ev) auto
  have "distinct (addresses (map (\<lambda>(k, v). (k, if k = ty then Arr a else v)) ev)) \<and>
      set (addresses (map (\<lambda>(k, v). (k, if k = ty then Arr a else v)) ev)) = insert a (set (addresses ev))"
    using assms
  proof (induction ev)
    case (Cons e ev)
    obtain k h where e: "e = (k, h)" by (cases e)
    show ?case
    proof (cases "k = ty")
      case True
      then show ?thesis using Cons.prems e by (auto simp: absent)
    next
      case False
      then show ?thesis using Cons e by (cases h) auto
    qed
  qed simp
  moreover have "ty \<in> fst ` set ev" using assms(1) by (metis domI dom_map_of_conv_image_fst)
  ultimately show "distinct (addresses (set_event ty (Arr a) ev))"
    "set (addresses (set_event ty (Arr a) ev)) = insert a (set (addresses ev))"
    by (auto simp: set_event_def)
qed

text \<open>The list an entry of the registry stands for.\<close>

fun entry_list :: "(nat \<Rightarrow> listener list) \<Rightarrow> handlers option \<Rightarrow> listener list" where
  "entry_list arr None = []"
| "entry_list arr (Some (Single l)) = [l]"
| "entry_list arr (Some (Arr a)) = arr a"

lemma listeners_entry: "listeners s k = entry_list (arrays s) (map_of (events s) k)"
  by (simp add: listeners_def split: option.split handlers.split)

lemma entry_list_upd: "h \<noteq> Some (Arr a) \<Longrightarrow> entry_list (arr(a := ls)) h = entry_list arr h"
  by (cases "(arr, h)" rule: entry_list.cases) auto

lemma wf_emitterI:
  "distinct (map fst (events s)) \<Longrightarrow> distinct (addresses (events s)) \<Longrightarrow>
    (\<And>a. a \<in> set (addresses (events s)) \<Longrightarrow> a < fresh s \<and> arrays s a \<noteq> []) \<Longrightarrow> wf_emitter s"
  by (simp add: wf_emitter_def)

lemma wf_emitterD:
  assumes "wf_emitter s"
  shows "distinct (map fst (events s))" "distinct (addresses (events s))"
    and "a \<in> set (addresses (events s)) \<Longrightarrow> a < fresh s" "a \<in> set (addresses (events s)) \<Longrightarrow> arrays s a \<noteq> []"
    and "map_of (events s) k = Some (Arr a) \<Longrightarrow> map_of (events s) k' = Some (Arr a) \<Longrightarrow> k = k'"
    and "map_of (events s) k \<noteq> Some (Arr (fresh s))"
proof -
  show d: "distinct (map fst (events s))" "distinct (addresses (events s))"
    and "a \<in> set (addresses (events s)) \<Longrightarrow> a < fresh s" "a \<in> set (addresses (events s)) \<Longrightarrow> arrays s a \<noteq> []"
    using assms by (simp_all add: wf_emitter_def)
  show "map_of (events s) k = Some (Arr a) \<Longrightarrow> map_of (events s) k' = Some (Arr a) \<Longrightarrow> k = k'"
    using address_unique [OF d(2)] .
  show "map_of (events s) k \<noteq> Some (Arr (fresh s))"
    using assms map_of_address unfolding wf_emitter_def by blast
qed

lemma entry_cases:
  obtains (none) "map_of (events s) ty = None" | (arr) a where "map_of (events s) ty = Some (Arr a)"
    | (single) m where "map_of (events s) ty = Some (Single m)"
  by (cases "map_of (events s) ty"; cases "the (map_of (events s) ty)") auto

lemma store_listener_wf:
  assumes wf: "wf_emitter s"
  shows "wf_emitter (store_listener ty l s)"
proof (cases rule: entry_cases [of s ty])
  case none
  then have "ty \<notin> fst ` set (events s)" by (simp add: map_of_eq_None_iff)
  then show ?thesis
    using wf_emitterD(1-4) [OF wf] none by (intro wf_emitterI) (auto simp: store_listener_def set_event_def)
next
  case (arr a)
  then show ?thesis
    using wf_emitterD(1-4) [OF wf] by (intro wf_emitterI) (auto simp: store_listener_def)
next
  case (single m)
  have fr: "fresh s \<notin> set (addresses (events s))" using wf_emitterD(3) [OF wf] by blast
  have "ty \<in> fst ` set (events s)" using single by (metis domI dom_map_of_conv_image_fst)
  then show ?thesis
    using wf_emitterD(1-4) [OF wf] addresses_update_single [OF single _ fr]
    by (intro wf_emitterI) (auto simp: store_listener_def single map_fst_set_event less_SucI)
qed

lemma store_listener_listeners:
  assumes wf: "wf_emitter s"
  shows "listeners (store_listener ty l s) = (listeners s)(ty := listeners s ty @ [l])"
proof (rule ext)
  fix k
  show "listeners (store_listener ty l s) k = ((listeners s)(ty := listeners s ty @ [l])) k"
  proof (cases rule: entry_cases [of s ty])
    case none
    then show ?thesis by (simp add: listeners_entry store_listener_def map_of_set_event)
  next
    case (arr a)
    then have "k \<noteq> ty \<Longrightarrow> map_of (events s) k \<noteq> Some (Arr a)" using wf_emitterD(5) [OF wf] by blast
    then show ?thesis using arr by (simp add: listeners_entry store_listener_def entry_list_upd)
  next
    case (single m)
    then show ?thesis
      using wf_emitterD(6) [OF wf]
      by (simp add: listeners_entry store_listener_def map_of_set_event entry_list_upd)
  qed
qed

lemma check_leak_wf: "wf_emitter (check_leak ty s) = wf_emitter s" "listeners (check_leak ty s) = listeners s"
  by (auto simp: check_leak_def wf_emitter_def listeners_def Let_def fun_eq_iff split: option.split handlers.split)

definition remove_last :: "listener \<Rightarrow> listener list \<Rightarrow> listener list" where
  "remove_last l ls =
     (case last_position ls l of None \<Rightarrow> ls | Some i \<Rightarrow> take i ls @ drop (Suc i) ls)"

lemma last_position_Some:
  "last_position ls l = Some i \<Longrightarrow> i < length ls \<and> (ls ! i = l \<or> wraps (ls ! i) l)"
  by (auto simp: last_position_def find_Some_iff rev_nth)

lemma last_position_None: "last_position ls l = None \<longleftrightarrow> (\<forall>m \<in> set ls. m \<noteq> l \<and> \<not> wraps m l)"
  unfolding last_position_def find_None_iff by (auto simp: in_set_conv_nth) (metis nth_mem)+

lemma last_position_single:
  "last_position [m] l = (if m = l \<or> wraps m l then Some 0 else None)"
  by (simp add: last_position_def)

lemma remove_entry_listeners:
  assumes wf: "wf_emitter s" and r: "remove_entry ty l s = (s', removed)"
  shows "listeners s' = (listeners s)(ty := remove_last l (listeners s ty))"
    and "removed \<longleftrightarrow> (\<exists>m \<in> set (listeners s ty). m = l \<or> wraps m l)"
    and "wf_emitter s'"
proof -
  have "listeners s' = (listeners s)(ty := remove_last l (listeners s ty))
      \<and> (removed \<longleftrightarrow> (\<exists>m \<in> set (listeners s ty). m = l \<or> wraps m l)) \<and> wf_emitter s'"
  proof (cases rule: entry_cases [of s ty])
    case none
    then have "s' = s" "\<not> removed" "listeners s ty = []"
      using r by (simp_all add: remove_entry_def listeners_entry)
    then show ?thesis using wf by (auto simp: remove_last_def last_position_def fun_upd_idem)
  next
    case (single m)
    then have ls: "listeners s ty = [m]" by (simp add: listeners_entry)
    show ?thesis
    proof (cases "m = l \<or> wraps m l")
      case True
      then have s': "s' = s\<lparr>events := delete ty (events s)\<rparr>" "removed"
        using single r by (simp_all add: remove_entry_def)
      have "wf_emitter s'"
        using wf_emitterD(1-4) [OF wf] set_addresses_delete [of ty "events s"]
        by (intro wf_emitterI) (auto simp: s' distinct_addresses_delete distinct_keys_delete)
      then show ?thesis
        using True s' ls by (auto simp: listeners_entry map_of_delete remove_last_def last_position_single fun_eq_iff)
    next
      case False
      then have "s' = s" "\<not> removed" using single r by (simp_all add: remove_entry_def)
      then show ?thesis using False ls wf by (auto simp: remove_last_def last_position_single fun_upd_idem)
    qed
  next
    case (arr a)
    then have ls: "listeners s ty = arrays s a" and ia: "a \<in> set (addresses (events s))"
      by (simp_all add: listeners_entry map_of_address)
    have other: "k \<noteq> ty \<longrightarrow> map_of (events s) k \<noteq> Some (Arr a)" for k using wf_emitterD(5) [OF wf arr] by blast
    show ?thesis
    proof (cases "last_position (arrays s a) l")
      case None
      then have "s' = s" "\<not> removed" using arr r by (simp_all add: remove_entry_def)
      moreover have "remove_last l (listeners s ty) = listeners s ty" using None ls by (simp add: remove_last_def)
      ultimately show ?thesis using None ls wf by (auto simp: fun_upd_idem last_position_None)
    next
      case (Some i)
      have i: "i < length (arrays s a)" "arrays s a ! i = l \<or> wraps (arrays s a ! i) l"
        using last_position_Some [OF Some] by auto
      then have rm: "\<exists>m \<in> set (listeners s ty). m = l \<or> wraps m l" using ls nth_mem by auto
      show ?thesis
      proof (cases "length (arrays s a) = 1")
        case True
        then have s': "s' = s\<lparr>arrays := (arrays s)(a := []), events := delete ty (events s)\<rparr>" "removed"
          using arr Some r by (simp_all add: remove_entry_def)
        have na: "a \<notin> set (addresses (delete ty (events s)))"
          using address_deleted [OF wf_emitterD(1,2) [OF wf] arr] .
        have "wf_emitter s'"
          using wf_emitterD(1-4) [OF wf] set_addresses_delete [of ty "events s"] na
          by (intro wf_emitterI) (auto simp: s' distinct_addresses_delete distinct_keys_delete)
        moreover have "listeners s' k = (if k = ty then [] else listeners s k)" for k
          using other [of k] by (auto simp: s' listeners_entry map_of_delete entry_list_upd)
        moreover have "remove_last l (listeners s ty) = []" using True i Some ls by (simp add: remove_last_def)
        ultimately show ?thesis using s' rm by (auto simp: fun_eq_iff)
      next
        case False
        let ?ls = "take i (arrays s a) @ drop (Suc i) (arrays s a)"
        have s': "s' = s\<lparr>arrays := (arrays s)(a := ?ls)\<rparr>" "removed"
          using False arr Some r by (simp_all add: remove_entry_def)
        have "length ?ls \<noteq> 0" using False i by simp
        then have "?ls \<noteq> []" by (simp only: length_0_conv not_False_eq_True)
        then have "wf_emitter s'" using wf_emitterD(1-4) [OF wf] by (intro wf_emitterI) (auto simp: s')
        moreover have "listeners s' k = (if k = ty then ?ls else listeners s k)" for k
          using other [of k] arr by (auto simp: s' listeners_entry entry_list_upd)
        ultimately show ?thesis using s' rm ls Some by (auto simp: fun_eq_iff remove_last_def)
      qed
    qed
  qed
  then show "listeners s' = (listeners s)(ty := remove_last l (listeners s ty))"
    "removed \<longleftrightarrow> (\<exists>m \<in> set (listeners s ty). m = l \<or> wraps m l)" "wf_emitter s'" by blast+
qed

end
