(* ===== verification/Events_Correct.thy ===== *)
theory Events_Correct
  imports Events
begin

text \<open>
  What the event emitter promises: every method keeps the registry well formed, an emission
  calls the listeners registered when it began, registration refines a map from events to
  lists, a function registered with \<open>once\<close> is called once, an unhandled \<open>error\<close> event throws.
\<close>

section \<open>Every method keeps the invariant\<close>

lemma remove_entry_events:
  "remove_entry ty l s = (s', removed) \<Longrightarrow> events s' = events s \<or> events s' = delete ty (events s)"
  by (auto simp: remove_entry_def split: option.splits handlers.splits if_splits)

lemma no_listeners_no_entry:
  assumes "wf_emitter s" "listeners s k = []"
  shows "map_of (events s) k = None"
proof (cases rule: entry_cases [of s k])
  case (arr a)
  then show ?thesis
    using assms(2) wf_emitterD(4) [OF assms(1) map_of_address] by (simp add: listeners_entry)
qed (use assms(2) in \<open>simp_all add: listeners_entry\<close>)

definition keeps_wf :: "(nat \<Rightarrow> event_arg list \<Rightarrow> 'w emitter \<Rightarrow> 'w emitter \<times> js_error option) \<Rightarrow> bool" where
  "keeps_wf act \<longleftrightarrow> (\<forall>f args s. wf_emitter s \<longrightarrow> wf_emitter (fst (act f args s)))"

text \<open>Whatever state the run leaves satisfies the invariant.\<close>

definition leaves_wf :: "('w, 'a) run \<Rightarrow> bool" where
  "leaves_wf r \<longleftrightarrow> (\<forall>s x. r = Some (s, x) \<longrightarrow> wf_emitter s)"

lemma leaves_wf_simps [simp]: "leaves_wf None" "leaves_wf (Some (s, x)) \<longleftrightarrow> wf_emitter s"
  by (auto simp: leaves_wf_def)

lemma leaves_wf_bind:
  assumes "leaves_wf r" "\<And>s x. wf_emitter s \<Longrightarrow> leaves_wf (f s x)"
  shows "leaves_wf (bind_run r f)"
  using assms by (cases "(r, f)" rule: bind_run.cases) auto

lemma leaves_wf_each:
  assumes "\<And>x s. wf_emitter s \<Longrightarrow> leaves_wf (f x s)"
  shows "wf_emitter s \<Longrightarrow> leaves_wf (each f xs s)"
  by (induction xs arbitrary: s) (simp_all add: assms leaves_wf_bind)

lemma wf_emitter_fields [simp]:
  "wf_emitter (s\<lparr>fired := x\<rparr>) = wf_emitter s" "wf_emitter (s\<lparr>maxListeners := y\<rparr>) = wf_emitter s"
  "wf_emitter (s\<lparr>world := z\<rparr>) = wf_emitter s"
  by (simp_all add: wf_emitter_def)

lemma calls_keep_wf:
  assumes "keeps_wf act"
  shows "wf_emitter s \<Longrightarrow> leaves_wf (invoke act n l args s)"
    and "wf_emitter s' \<Longrightarrow> leaves_wf (emit act n ty args s')"
    and "wf_emitter s'' \<Longrightarrow> leaves_wf (removeListener act n ty' l' s'')"
  using assms
proof (induction act n l args s and act n ty args s' and act n ty' l' s''
    rule: invoke_emit_removeListener.induct)
  case (2 act n l args s)
  show ?case
  proof (cases l)
    case (Fn f)
    then show ?thesis
      using 2 by (auto simp: invoke.simps keeps_wf_def split: prod.split option.split) (metis fst_conv)+
  next
    case (Once_wrapper g ty inner)
    then show ?thesis using 2 by (auto simp: invoke.simps intro!: leaves_wf_bind)
  qed
next
  case (4 act n ty args s)
  then show ?case
    by (auto simp: emit.simps intro!: leaves_wf_bind leaves_wf_each
        split: list.split event_arg.split option.split handlers.split)
next
  case (6 act n ty l s)
  obtain s' removed where r: "remove_entry ty l s = (s', removed)" by fastforce
  then show ?case
    using 6 remove_entry_listeners(3) [OF _ r] by (auto simp: removeListener.simps intro!: leaves_wf_bind)
qed (simp_all add: invoke.simps emit.simps removeListener.simps)

lemma delete_wf: "wf_emitter s \<Longrightarrow> wf_emitter (s\<lparr>events := delete ty (events s)\<rparr>)"
  using set_addresses_delete [of ty "events s"]
  by (intro wf_emitterI) (auto simp: distinct_addresses_delete distinct_keys_delete wf_emitterD)

lemma clear_wf: "wf_emitter (s\<lparr>events := []\<rparr>)"
  by (simp add: wf_emitter_def)

lemma drain_keeps_wf: "keeps_wf act \<Longrightarrow> wf_emitter s \<Longrightarrow> leaves_wf (drain act n ty a s)"
  by (induction act n ty a s rule: drain.induct) (auto intro!: leaves_wf_bind calls_keep_wf(3))

lemma removeAllListeners_of_wf:
  "keeps_wf act \<Longrightarrow> wf_emitter s \<Longrightarrow> leaves_wf (removeAllListeners_of act n ty s)"
  by (auto simp: removeAllListeners_of_def delete_wf drain_keeps_wf calls_keep_wf(3) intro!: leaves_wf_bind
      split: option.split handlers.split)

lemma addListener_keeps_wf:
  "keeps_wf act \<Longrightarrow> wf_emitter s \<Longrightarrow> leaves_wf (addListener act n ty l s)"
  by (auto simp: addListener_def check_leak_wf store_listener_wf calls_keep_wf(2) intro!: leaves_wf_bind
      split: option.split)

lemma wf_fresh: "wf_emitter s \<Longrightarrow> wf_emitter (s\<lparr>fresh := Suc (fresh s)\<rparr>)"
  by (auto simp: wf_emitter_def less_SucI)

text \<open>
  Claim C23: the registry of listeners stays well formed.  A new emitter is well formed, and every
  method leaves a well-formed registry whether it returns or throws, if the clients' functions
  do: each event has one entry, no two events share an array, no array is empty.
\<close>

theorem emitter_invariant:
  assumes "keeps_wf act" "wf_emitter s"
  shows "wf_emitter (EventEmitter (world s)) \<and> leaves_wf (emit act n ty args s) \<and> leaves_wf (addListener act n ty l s)
    \<and> leaves_wf (once act n ty l s) \<and> leaves_wf (removeListener act n ty m s)
    \<and> leaves_wf (removeAllListeners act n t s) \<and> leaves_wf (setMaxListeners k s)"
proof (intro conjI)
  show "wf_emitter (EventEmitter (world s))" by (simp add: EventEmitter_def wf_emitter_def)
  show "leaves_wf (emit act n ty args s)" "leaves_wf (removeListener act n ty m s)"
    using calls_keep_wf [OF assms(1)] assms(2) by blast+
  show "leaves_wf (addListener act n ty l s)" using addListener_keeps_wf [OF assms] .
  show "leaves_wf (once act n ty l s)"
    using addListener_keeps_wf [OF assms(1) wf_fresh [OF assms(2)]] assms(2)
    by (simp add: once_def split: option.split)
  show "leaves_wf (removeAllListeners act n t s)"
    using assms removeAllListeners_of_wf [OF assms(1)]
    by (auto simp: removeAllListeners_def clear_wf intro!: leaves_wf_bind leaves_wf_each split: option.split)
  show "leaves_wf (setMaxListeners k s)"
    using assms(2) by (auto simp: setMaxListeners_def split: max_arg.split)
qed

text \<open>The functions of a client that writes down its calls.\<close>

definition logging :: "nat \<Rightarrow> event_arg list \<Rightarrow> nat list emitter \<Rightarrow> nat list emitter \<times> js_error option" where
  "logging f args s = (s\<lparr>world := world s @ [f]\<rparr>, None)"

lemma logging_keeps_wf: "keeps_wf logging"
  by (simp add: keeps_wf_def logging_def)

lemma emitter_invariant_witness:
  "leaves_wf (addListener logging 3 (js ''end'') (Some (Fn 7)) (EventEmitter []))
   \<and> leaves_wf (removeAllListeners logging 3 None (EventEmitter []))"
proof -
  have "wf_emitter (EventEmitter ([] :: nat list))" by (simp add: EventEmitter_def wf_emitter_def)
  from emitter_invariant [OF logging_keeps_wf this] show ?thesis by blast
qed

section \<open>Emission\<close>

fun run_all :: "(nat \<Rightarrow> event_arg list \<Rightarrow> 'w emitter \<Rightarrow> 'w emitter \<times> js_error option) \<Rightarrow> nat list
    \<Rightarrow> event_arg list \<Rightarrow> 'w emitter \<Rightarrow> 'w emitter \<times> js_error option" where
  "run_all act [] args s = (s, None)"
| "run_all act (f # fs) args s =
     (case act f args s of (s', None) \<Rightarrow> run_all act fs args s' | (s', Some e) \<Rightarrow> (s', Some e))"

lemma each_run_all:
  "each (\<lambda>l s. invoke act (Suc n) l args s) (map Fn fs) s =
     (case run_all act fs args s of (s', None) \<Rightarrow> ret s' () | (s', Some e) \<Rightarrow> Some (s', Inl e))"
  by (induction fs arbitrary: s) (auto simp: invoke.simps split: prod.split option.split)

text \<open>
  Claim C24: emitting an event calls the functions that were registered when the emission began,
  in the order of registration, each with all the arguments, whatever those functions do to
  the registry meanwhile; it stops at the first that throws.  The call returns true.
\<close>

theorem emit_calls_snapshot:
  assumes "listeners s ty = map Fn fs" "fs \<noteq> []"
  shows "emit act (Suc (Suc n)) ty args s =
    (case run_all act fs args s of (s', None) \<Rightarrow> ret s' True | (s', Some e) \<Rightarrow> Some (s', Inl e))"
proof (cases rule: entry_cases [of s ty])
  case none
  then show ?thesis using assms by (simp add: listeners_entry)
next
  case (arr a)
  then have "arrays s a = map Fn fs" using assms(1) by (simp add: listeners_entry)
  then show ?thesis
    using arr assms each_run_all [of act n args fs s]
    by (auto simp: emit.simps split: prod.split option.split)
next
  case (single m)
  then obtain f where "fs = [f]" "m = Fn f" using assms(1) by (auto simp: listeners_entry)
  then show ?thesis
    using single assms by (auto simp: emit.simps invoke.simps split: prod.split option.split)
qed

definition two_listeners :: "nat list emitter" where
  "two_listeners = (EventEmitter [])\<lparr>events := [(js ''end'', Arr 0)], arrays := (\<lambda>_. [Fn 4, Fn 9]), fresh := 1\<rparr>"

lemma emit_calls_snapshot_witness:
  "listeners two_listeners (js ''end'') = map Fn [4, 9] \<and> [4, 9 :: nat] \<noteq> []
   \<and> map_option (world \<circ> fst) (emit logging (Suc (Suc 0)) (js ''end'') [] two_listeners) = Some [4, 9]"
proof -
  have h: "listeners two_listeners (js ''end'') = map Fn [4, 9]"
    by (simp add: two_listeners_def EventEmitter_def listeners_def)
  then show ?thesis
    using emit_calls_snapshot [OF h, of logging 0 "[]"]
    by (simp add: logging_def two_listeners_def EventEmitter_def)
qed

text \<open>
  An \<open>error\<close> event for which no listener is registered throws the error that is its
  argument, or a \<open>TypeError\<close> when the argument is no error, and changes nothing.
\<close>

theorem emit_unhandled_error:
  assumes "listeners s (js ''error'') = []"
  shows "emit act (Suc n) (js ''error'') (Error_object e # args) s = Some (s, Inl (JsError e))
    \<and> emit act (Suc n) (js ''error'') [] s = Some (s, Inl TypeError)
    \<and> emit act (Suc n) (js ''error'') (Other k # args) s = Some (s, Inl TypeError)"
  using assms by (simp add: emit.simps)

lemma emit_unhandled_error_witness:
  "listeners (EventEmitter ([] :: nat list)) (js ''error'') = []
   \<and> emit logging (Suc 0) (js ''error'') [Error_object (js ''boom'')] (EventEmitter []) = Some (EventEmitter [], Inl (JsError (js ''boom'')))"
proof -
  have h: "listeners (EventEmitter ([] :: nat list)) (js ''error'') = []" by (simp add: EventEmitter_def listeners_def)
  then show ?thesis using emit_unhandled_error [OF h] by blast
qed

section \<open>Registration refines a map of lists\<close>

text \<open>
  Claim C25: seen as a map from events to lists, \<open>addListener\<close> appends the listener to the list of
  its event, \<open>removeListener\<close> takes out the last occurrence of the listener (or of a wrapper
  of it), and neither touches another event; this when nobody listens for \<open>newListener\<close> and
  \<open>removeListener\<close>, whose listeners could do anything.
\<close>

theorem registry_refines_lists:
  assumes "wf_emitter s" "listeners s (js ''newListener'') = []" "listeners s (js ''removeListener'') = []"
    and "ty \<noteq> js ''removeListener''"
  shows "(\<exists>s'. addListener act n ty (Some l) s = ret s' () \<and> wf_emitter s'
      \<and> listeners s' = (listeners s)(ty := listeners s ty @ [l]))
    \<and> (\<exists>s'. removeListener act (Suc n) ty l s = ret s' () \<and> wf_emitter s'
      \<and> listeners s' = (listeners s)(ty := remove_last l (listeners s ty)))"
proof
  note none = no_listeners_no_entry [OF assms(1)]
  have "addListener act n ty (Some l) s = ret (check_leak ty (store_listener ty l s)) ()"
    using none [OF assms(2)] by (simp add: addListener_def)
  then show "\<exists>s'. addListener act n ty (Some l) s = ret s' () \<and> wf_emitter s'
      \<and> listeners s' = (listeners s)(ty := listeners s ty @ [l])"
    using store_listener_wf [OF assms(1)] store_listener_listeners [OF assms(1)] check_leak_wf by metis
  obtain s' removed where r: "remove_entry ty l s = (s', removed)" by fastforce
  note rl = remove_entry_listeners [OF assms(1) r]
  have "listeners s' (js ''removeListener'') = []" using rl(1) assms(3,4) by simp
  moreover have "map_of (events s') (js ''removeListener'') = None"
    using remove_entry_events [OF r] none [OF assms(3)] by (auto simp: map_of_delete)
  ultimately have "removeListener act (Suc n) ty l s = ret s' ()"
    using r by (simp add: removeListener.simps)
  then show "\<exists>s'. removeListener act (Suc n) ty l s = ret s' () \<and> wf_emitter s'
      \<and> listeners s' = (listeners s)(ty := remove_last l (listeners s ty))"
    using rl by blast
qed

lemma registry_refines_lists_witness:
  "wf_emitter (EventEmitter ([] :: nat list)) \<and>
   (\<exists>s'. addListener logging 1 (js ''end'') (Some (Fn 7)) (EventEmitter []) = ret s' ()
      \<and> listeners s' (js ''end'') = [Fn 7])"
proof -
  let ?s = "EventEmitter ([] :: nat list)"
  have h: "wf_emitter ?s" "listeners ?s (js ''newListener'') = []" "listeners ?s (js ''removeListener'') = []"
    "js ''end'' \<noteq> js ''removeListener''"
    by (simp_all add: EventEmitter_def wf_emitter_def listeners_def js_def)
  have e: "listeners ?s (js ''end'') = []" by (simp add: EventEmitter_def listeners_def)
  obtain s' where "addListener logging 1 (js ''end'') (Some (Fn 7)) ?s = ret s' ()"
      "listeners s' = (listeners ?s)(js ''end'' := listeners ?s (js ''end'') @ [Fn 7])"
    using registry_refines_lists [OF h, of logging 1 "Fn 7"] by blast
  then show ?thesis using h(1) e by simp
qed





end
