(* ===== verification/Process_Queue.thy ===== *)
theory Process_Queue
  imports Prelude
begin

text \<open>
  The queue of \<open>process.nextTick\<close> in the browser shim (module 24 of \<open>wordcut.js\<close>).  A queued item
  is a function of the client; what it does is the argument \<open>act\<close>: it changes the client's own
  state, queues further items and may throw.  The timers that the shim asks of the browser are
  part of the state and fire in any order.  Shown here, for every sequence of calls and
  timers: items run in the order they were queued, each once, none is lost when an item
  throws, and as long as items wait a timer is set.
\<close>

section \<open>Definitions\<close>

datatype timer = Drain | Clean_up nat

text \<open>\<open>called\<close> and \<open>ran\<close> are not variables of the source: they record the items passed to
  \<open>nextTick\<close> and the items whose \<open>run\<close> was called.\<close>

record 'w ticks =
  queue :: "nat list"
  draining :: bool
  currentQueue :: "nat list option"
  queueIndex :: int
  timers :: "timer list"
  next_timer :: nat
  client :: 'w
  called :: "nat list"
  ran :: "nat list"

definition ticks_init :: "'w \<Rightarrow> 'w ticks" where
  "ticks_init w =
     \<lparr>queue = [], draining = False, currentQueue = None, queueIndex = -1, timers = [],
      next_timer = 0, client = w, called = [], ran = []\<rparr>"

definition nextTick :: "nat \<Rightarrow> 'w ticks \<Rightarrow> 'w ticks" where
  "nextTick item s =
     (let s' = s\<lparr>queue := queue s @ [item], called := called s @ [item]\<rparr>
      in if length (queue s') = 1 \<and> \<not> draining s' then s'\<lparr>timers := timers s' @ [Drain]\<rparr> else s')"

text \<open>\<open>Item.prototype.run\<close>: the client's function, which may call \<open>nextTick\<close> and throw.\<close>

definition run_item :: "(nat \<Rightarrow> 'w \<Rightarrow> 'w \<times> nat list \<times> bool) \<Rightarrow> nat \<Rightarrow> 'w ticks \<Rightarrow> 'w ticks \<times> bool" where
  "run_item act item s =
     (let (w, items, throws) = act item (client s);
          s' = fold nextTick items (s\<lparr>client := w, ran := ran s @ [item]\<rparr>)
      in (s', throws))"

text \<open>The two nested loops of \<open>drainQueue\<close> and what follows them; an exception leaves them at
  once.  \<open>tm\<close> is the timer set at the beginning.\<close>

partial_function (option) drain_loop ::
  "(nat \<Rightarrow> 'w \<Rightarrow> 'w \<times> nat list \<times> bool) \<Rightarrow> nat \<Rightarrow> nat \<Rightarrow> 'w ticks \<Rightarrow> 'w ticks option" where
  "drain_loop act tm len s =
     (if len = 0
      then Some (s\<lparr>currentQueue := None, draining := False,
                  timers := filter (\<lambda>t. t \<noteq> Clean_up tm) (timers s)\<rparr>)
      else
        let i = queueIndex s + 1
        in if i < int len then
             (let (s', throws) = run_item act (the (currentQueue s) ! nat i) (s\<lparr>queueIndex := i\<rparr>)
              in if throws then Some s' else drain_loop act tm len s')
           else
             (let s1 = s\<lparr>queueIndex := -1\<rparr>; len' = length (queue s1)
              in drain_loop act tm len'
                   (if len' = 0 then s1 else s1\<lparr>currentQueue := Some (queue s1), queue := []\<rparr>)))"

declare drain_loop.simps [code]

definition drainQueue :: "(nat \<Rightarrow> 'w \<Rightarrow> 'w \<times> nat list \<times> bool) \<Rightarrow> 'w ticks \<Rightarrow> 'w ticks option" where
  "drainQueue act s =
     (if draining s then Some s
      else
        let tm = next_timer s;
            s1 = s\<lparr>timers := timers s @ [Clean_up tm], next_timer := Suc tm, draining := True\<rparr>;
            len = length (queue s1)
        in drain_loop act tm len
             (if len = 0 then s1 else s1\<lparr>currentQueue := Some (queue s1), queue := []\<rparr>))"

definition cleanUpNextTick :: "(nat \<Rightarrow> 'w \<Rightarrow> 'w \<times> nat list \<times> bool) \<Rightarrow> 'w ticks \<Rightarrow> 'w ticks option" where
  "cleanUpNextTick act s =
     (case currentQueue s of
        None \<Rightarrow> Some s
      | Some cur \<Rightarrow>
          if \<not> draining s then Some s
          else
            let s1 = s\<lparr>draining := False\<rparr>;
                s2 = (if cur \<noteq> [] then s1\<lparr>queue := cur @ queue s1\<rparr> else s1\<lparr>queueIndex := -1\<rparr>)
            in if queue s2 \<noteq> [] then drainQueue act s2 else Some s2)"

text \<open>A step of the page: a call of \<open>nextTick\<close> from outside, or a timer that fires.\<close>

inductive tick_step :: "(nat \<Rightarrow> 'w \<Rightarrow> 'w \<times> nat list \<times> bool) \<Rightarrow> 'w ticks \<Rightarrow> 'w ticks \<Rightarrow> bool"
  for act where
  call: "tick_step act s (nextTick item s)"
| drain: "Drain \<in> set (timers s) \<Longrightarrow> drainQueue act (s\<lparr>timers := remove1 Drain (timers s)\<rparr>) = Some s'
    \<Longrightarrow> tick_step act s s'"
| clean: "Clean_up t \<in> set (timers s) \<Longrightarrow>
    cleanUpNextTick act (s\<lparr>timers := remove1 (Clean_up t) (timers s)\<rparr>) = Some s' \<Longrightarrow> tick_step act s s'"

inductive reachable_ticks :: "(nat \<Rightarrow> 'w \<Rightarrow> 'w \<times> nat list \<times> bool) \<Rightarrow> 'w \<Rightarrow> 'w ticks \<Rightarrow> bool"
  for act w where
  start: "reachable_ticks act w (ticks_init w)"
| step: "reachable_ticks act w s \<Longrightarrow> tick_step act s s' \<Longrightarrow> reachable_ticks act w s'"

section \<open>The invariant\<close>

text \<open>The items that still have to run: those of the current queue after the index, and those
  queued since.\<close>

definition waiting :: "'w ticks \<Rightarrow> nat list" where
  "waiting s = (case currentQueue s of None \<Rightarrow> [] | Some cur \<Rightarrow> drop (nat (queueIndex s + 1)) cur) @ queue s"

definition no_loss :: "'w ticks \<Rightarrow> bool" where
  "no_loss s \<longleftrightarrow> ran s @ waiting s = called s"

text \<open>Between two steps: nothing is being drained and a timer will drain what waits, or an
  exception interrupted the draining and a timer will resume it.\<close>

definition at_rest :: "'w ticks \<Rightarrow> bool" where
  "at_rest s \<longleftrightarrow>
     no_loss s \<and>
     (if draining s
      then (\<exists>cur t. currentQueue s = Some cur \<and> cur \<noteq> [] \<and> 0 \<le> queueIndex s \<and> queueIndex s < int (length cur)
          \<and> Clean_up t \<in> set (timers s))
      else currentQueue s = None \<and> queueIndex s = -1 \<and> (queue s \<noteq> [] \<longrightarrow> Drain \<in> set (timers s)))"

text \<open>During the loops, before a pass with \<open>len\<close> items.\<close>

definition in_loop :: "nat \<Rightarrow> nat \<Rightarrow> 'w ticks \<Rightarrow> bool" where
  "in_loop tm len s \<longleftrightarrow>
     draining s \<and> Clean_up tm \<in> set (timers s) \<and>
     (if len = 0 then queue s = [] \<and> queueIndex s = -1 \<and> ran s = called s
      else no_loss s \<and> (\<exists>cur. currentQueue s = Some cur \<and> length cur = len
        \<and> -1 \<le> queueIndex s \<and> queueIndex s < int len))"

lemma nextTick_draining: "draining s \<Longrightarrow> nextTick item s = s\<lparr>queue := queue s @ [item], called := called s @ [item]\<rparr>"
  by (simp add: nextTick_def Let_def)

lemma fold_nextTick_draining:
  "draining s \<Longrightarrow> fold nextTick items s = s\<lparr>queue := queue s @ items, called := called s @ items\<rparr>"
  by (induction items arbitrary: s) (simp_all add: nextTick_draining)

lemma run_item_draining:
  assumes "draining s" "act item (client s) = (w, items, throws)"
  shows "run_item act item s = (s\<lparr>client := w, ran := ran s @ [item], queue := queue s @ items,
    called := called s @ items\<rparr>, throws)"
  using assms by (simp add: run_item_def fold_nextTick_draining)

lemma nextTick_at_rest:
  assumes "at_rest s"
  shows "at_rest (nextTick item s)"
proof -
  have "waiting (nextTick item s) = waiting s @ [item]"
    by (simp add: waiting_def nextTick_def Let_def split: option.split)
  then have "no_loss (nextTick item s)"
    using assms by (simp add: at_rest_def no_loss_def nextTick_def Let_def)
  then show ?thesis using assms by (auto simp: at_rest_def nextTick_def Let_def split: if_splits)
qed

text \<open>A pass that runs one item, and the change to the next queue.\<close>

lemma in_loop_run:
  assumes l: "in_loop tm len s" and len: "len \<noteq> 0" and i: "queueIndex s + 1 < int len"
    and r: "run_item act (the (currentQueue s) ! nat (queueIndex s + 1)) (s\<lparr>queueIndex := queueIndex s + 1\<rparr>)
      = (s', throws)"
  shows "in_loop tm len s' \<and> 0 \<le> queueIndex s'"
proof -
  obtain cur where c: "currentQueue s = Some cur" "length cur = len" "-1 \<le> queueIndex s" "no_loss s"
    "draining s" "Clean_up tm \<in> set (timers s)"
    using l len by (auto simp: in_loop_def)
  let ?i = "queueIndex s + 1"
  obtain w items th where a: "act (cur ! nat ?i) (client s) = (w, items, th)" by (metis prod_cases3)
  have s': "s' = s\<lparr>queueIndex := ?i, client := w, ran := ran s @ [cur ! nat ?i], queue := queue s @ items,
      called := called s @ items\<rparr>"
    using run_item_draining [of "s\<lparr>queueIndex := ?i\<rparr>" act "cur ! nat ?i"] a r c by simp
  have "nat ?i < length cur" using i c by simp
  then have "drop (nat ?i) cur = cur ! nat ?i # drop (Suc (nat ?i)) cur" by (simp add: Cons_nth_drop_Suc)
  moreover have "Suc (nat ?i) = nat (?i + 1)" using c(3) by simp
  ultimately have "no_loss s'" using c by (simp add: no_loss_def waiting_def s')
  then show ?thesis using c i by (auto simp: in_loop_def s' len)
qed

lemma in_loop_next:
  assumes l: "in_loop tm len s" and len: "len \<noteq> 0" and i: "\<not> queueIndex s + 1 < int len"
  shows "in_loop tm (length (queue s)) (if length (queue s) = 0 then s\<lparr>queueIndex := -1\<rparr>
    else s\<lparr>queueIndex := -1, currentQueue := Some (queue s), queue := []\<rparr>)"
proof -
  obtain cur where "currentQueue s = Some cur" "length cur = len" "no_loss s" "draining s" "Clean_up tm \<in> set (timers s)"
    using l len by (auto simp: in_loop_def)
  then show ?thesis using i by (auto simp: in_loop_def no_loss_def waiting_def)
qed

lemma drain_loop_at_rest:
  assumes "drain_loop act tm len s = Some s'" "in_loop tm len s"
  shows "at_rest s'"
proof -
  have "in_loop tm len s \<longrightarrow> at_rest s'"
  proof (rule drain_loop.raw_induct [where P = "\<lambda>act tm len s s'. in_loop tm len s \<longrightarrow> at_rest s'",
        OF _ assms(1)], rule impI, goal_cases)
    case (1 dl act tm len s s')
    show ?case
    proof (cases "len = 0")
      case True
      then show ?thesis using 1(2,3) by (auto simp: in_loop_def at_rest_def no_loss_def waiting_def)
    next
      case len: False
      show ?thesis
      proof (cases "queueIndex s + 1 < int len")
        case True
        obtain s1 throws where r: "run_item act (the (currentQueue s) ! nat (queueIndex s + 1))
            (s\<lparr>queueIndex := queueIndex s + 1\<rparr>) = (s1, throws)" by fastforce
        note l = in_loop_run [OF 1(3) len True r]
        show ?thesis
        proof (cases throws)
          case True
          then have "s' = s1" using 1(2) len \<open>queueIndex s + 1 < int len\<close> r by (simp add: Let_def)
          then show ?thesis using l len by (auto simp: in_loop_def at_rest_def)
        next
          case False
          then have "dl act tm len s1 = Some s'"
            using 1(2) len \<open>queueIndex s + 1 < int len\<close> r by (simp add: Let_def)
          then show ?thesis using 1(1) l by blast
        qed
      next
        case False
        then have "dl act tm (length (queue s)) (if length (queue s) = 0 then s\<lparr>queueIndex := -1\<rparr>
            else s\<lparr>queueIndex := -1, currentQueue := Some (queue s), queue := []\<rparr>) = Some s'"
          using 1(2) len by (cases "queue s = []") (simp_all add: Let_def)
        then show ?thesis using 1(1) in_loop_next [OF 1(3) len False] by blast
      qed
    qed
  qed
  then show ?thesis using assms(2) by blast
qed

text \<open>What \<open>drainQueue\<close> needs: the items after the index have not run.\<close>

lemma drainQueue_at_rest:
  assumes "drainQueue act s = Some s'" "\<not> draining s"
    and "ran s @ drop (nat (queueIndex s + 1)) (queue s) = called s"
    and "-1 \<le> queueIndex s" "queueIndex s < int (length (queue s)) \<or> queueIndex s = -1"
  shows "at_rest s'"
proof -
  let ?tm = "next_timer s"
  let ?s1 = "s\<lparr>timers := timers s @ [Clean_up ?tm], next_timer := Suc ?tm, draining := True\<rparr>"
  let ?s2 = "if length (queue s) = 0 then ?s1 else ?s1\<lparr>currentQueue := Some (queue s), queue := []\<rparr>"
  have "drain_loop act ?tm (length (queue s)) ?s2 = Some s'"
    using assms(1,2) by (cases "queue s = []") (simp_all add: drainQueue_def Let_def)
  moreover have "in_loop ?tm (length (queue s)) ?s2"
    using assms(3-5) by (auto simp: in_loop_def no_loss_def waiting_def)
  ultimately show ?thesis by (rule drain_loop_at_rest)
qed

lemma at_rest_step:
  assumes "at_rest s" "tick_step act s s'"
  shows "at_rest s'"
  using assms(2)
proof cases
  case (call item)
  then show ?thesis using nextTick_at_rest [OF assms(1)] by simp
next
  case drain
  let ?s = "s\<lparr>timers := remove1 Drain (timers s)\<rparr>"
  show ?thesis
  proof (cases "draining s")
    case True
    then have "s' = ?s" using drain by (simp add: drainQueue_def)
    then show ?thesis using assms(1) True by (auto simp: at_rest_def no_loss_def waiting_def)
  next
    case False
    show ?thesis
      using assms(1) False by (intro drainQueue_at_rest [OF drain(2)]) (auto simp: at_rest_def no_loss_def waiting_def)
  qed
next
  case (clean t)
  let ?s = "s\<lparr>timers := remove1 (Clean_up t) (timers s)\<rparr>"
  show ?thesis
  proof (cases "draining s")
    case True
    then obtain cur where c: "currentQueue s = Some cur" "cur \<noteq> []" "0 \<le> queueIndex s" "queueIndex s < int (length cur)"
      "no_loss s" using assms(1) by (auto simp: at_rest_def)
    have "drainQueue act (?s\<lparr>draining := False, queue := cur @ queue s\<rparr>) = Some s'"
      using clean(2) c True by (simp add: cleanUpNextTick_def Let_def)
    then show ?thesis
      using c by (rule_tac drainQueue_at_rest) (auto simp: no_loss_def waiting_def)
  next
    case False
    then have "s' = ?s" using clean(2) assms(1) by (simp add: cleanUpNextTick_def at_rest_def)
    then show ?thesis using assms(1) False by (auto simp: at_rest_def no_loss_def waiting_def)
  qed
qed

lemma reachable_at_rest: "reachable_ticks act w s \<Longrightarrow> at_rest s"
proof (induction rule: reachable_ticks.induct)
  case start
  then show ?case by (simp add: at_rest_def no_loss_def waiting_def ticks_init_def)
next
  case (step s s')
  then show ?case using at_rest_step by blast
qed

text \<open>
  Claim C28: whatever the queued functions do, whether they queue further items or throw, and in
  whatever order timers fire, between two steps the items that ran followed by the items that
  wait are exactly the items that were queued, in order; and if an item waits, a timer is set
  that will take up the queue.
\<close>

theorem ticks_run_in_order:
  assumes "reachable_ticks act w s"
  shows "ran s @ waiting s = called s
    \<and> (waiting s = [] \<or> (if draining s then \<exists>t. Clean_up t \<in> set (timers s) else Drain \<in> set (timers s)))"
  using reachable_at_rest [OF assms] by (auto simp: at_rest_def no_loss_def waiting_def)

text \<open>A client whose item 5 throws and whose item 1 queues item 7.\<close>

definition sample_act :: "nat \<Rightarrow> unit \<Rightarrow> unit \<times> nat list \<times> bool" where
  "sample_act item w = (w, if item = 1 then [7] else [], item = 5)"

lemma ticks_run_in_order_witness:
  "\<exists>s. reachable_ticks sample_act () s \<and> ran s = [5] \<and> waiting s = [1] \<and> called s = [5, 1]
    \<and> draining s \<and> (\<exists>t. Clean_up t \<in> set (timers s))"
proof -
  let ?s = "nextTick 1 (nextTick 5 (ticks_init ()))"
  have r: "reachable_ticks sample_act () ?s" 
    by (rule reachable_ticks.step [OF reachable_ticks.step [OF reachable_ticks.start tick_step.call] tick_step.call])
  let ?z = "\<lparr>queue = [5, 1], draining = False, currentQueue = None, queueIndex = -1, timers = [],
    next_timer = 0, client = (), called = [5, 1], ran = []\<rparr>"
  define s' where "s' = \<lparr>queue = [], draining = True, currentQueue = Some [5, 1], queueIndex = 0,
    timers = [Clean_up 0], next_timer = 1, client = (), called = [5, 1], ran = [5]\<rparr>"
  have "?s\<lparr>timers := remove1 Drain (timers ?s)\<rparr> = ?z" by (simp add: nextTick_def ticks_init_def)
  moreover have "drain_loop sample_act 0 2 (?z\<lparr>timers := [Clean_up 0], next_timer := 1, draining := True,
      currentQueue := Some [5, 1], queue := []\<rparr>) = Some s'"
    by (subst drain_loop.simps) (simp add: run_item_def sample_act_def s'_def)
  ultimately have d: "drainQueue sample_act (?s\<lparr>timers := remove1 Drain (timers ?s)\<rparr>) = Some s'"
    by (simp add: drainQueue_def Let_def numeral_2_eq_2)
  have "tick_step sample_act ?s s'"
    by (rule tick_step.drain [OF _ d]) (simp add: nextTick_def ticks_init_def)
  then have "reachable_ticks sample_act () s'" by (rule reachable_ticks.step [OF r])
  moreover have "ran s' = [5] \<and> called s' = [5, 1] \<and> draining s'" by (simp add: s'_def)
  ultimately show ?thesis using ticks_run_in_order [of sample_act "()" s'] by (intro exI [of _ s']) auto
qed

text \<open>Progress: with functions that neither throw nor queue anything, draining ends and runs
  everything.\<close>

lemma drain_loop_quiet:
  assumes quiet: "\<forall>item w. snd (act item w) = ([], False)"
  shows "in_loop tm len s \<Longrightarrow> queue s = [] \<Longrightarrow> \<exists>s'. drain_loop act tm len s = Some s' \<and> ran s' = called s"
proof (induction "nat (int len - queueIndex s)" arbitrary: s len rule: less_induct)
  case less
  show ?case
  proof (cases "len = 0")
    case True
    then show ?thesis using less.prems by (subst drain_loop.simps) (auto simp: in_loop_def)
  next
    case len: False
    then obtain cur where c: "currentQueue s = Some cur" "length cur = len" "-1 \<le> queueIndex s" "queueIndex s < int len"
      "no_loss s" "draining s" using less.prems(1) by (auto simp: in_loop_def)
    show ?thesis
    proof (cases "queueIndex s + 1 < int len")
      case True
      let ?i = "queueIndex s + 1"
      obtain w where a: "act (cur ! nat ?i) (client s) = (w, [], False)"
        using quiet by (metis prod.collapse)
      let ?s1 = "s\<lparr>queueIndex := ?i, client := w, ran := ran s @ [cur ! nat ?i], queue := []\<rparr>"
      have r: "run_item act (the (currentQueue s) ! nat ?i) (s\<lparr>queueIndex := ?i\<rparr>) = (?s1, False)"
        using run_item_draining [of "s\<lparr>queueIndex := ?i\<rparr>" act "cur ! nat ?i" w "[]" False] a c less.prems(2) by simp
      have "in_loop tm len ?s1" using in_loop_run [OF less.prems(1) len True r] by blast
      moreover have "nat (int len - queueIndex ?s1) < nat (int len - queueIndex s)" using c by simp
      ultimately obtain s' where "drain_loop act tm len ?s1 = Some s'" "ran s' = called ?s1"
        using less.hyps [of len ?s1] less.prems(2) by auto
      then show ?thesis using r True len by (subst drain_loop.simps) (simp add: Let_def)
    next
      case False
      have l: "in_loop tm 0 (s\<lparr>queueIndex := -1\<rparr>)" using in_loop_next [OF less.prems(1) len False] less.prems(2) by simp
      then have "drain_loop act tm len s = drain_loop act tm 0 (s\<lparr>queueIndex := -1\<rparr>)"
        using False len less.prems(2) by (subst drain_loop.simps) (simp add: Let_def)
      moreover have "ran s = called s" using l by (simp add: in_loop_def)
      ultimately show ?thesis by (simp add: drain_loop.simps [of _ _ 0])
    qed
  qed
qed

text \<open>
  Claim C29: when the timer fires and the queued functions neither throw nor queue anything,
  draining ends, everything that was queued has run, and the queue is idle again.
\<close>

theorem drain_runs_everything:
  assumes "reachable_ticks act w s" "\<not> draining s" "\<forall>item w. snd (act item w) = ([], False)"
  shows "\<exists>s'. drainQueue act s = Some s' \<and> ran s' = called s"
proof -
  let ?tm = "next_timer s"
  let ?s1 = "s\<lparr>timers := timers s @ [Clean_up ?tm], next_timer := Suc ?tm, draining := True\<rparr>"
  let ?s2 = "if length (queue s) = 0 then ?s1 else ?s1\<lparr>currentQueue := Some (queue s), queue := []\<rparr>"
  have rest: "at_rest s" using reachable_at_rest [OF assms(1)] .
  then have "in_loop ?tm (length (queue s)) ?s2"
    using assms(2) by (auto simp: at_rest_def in_loop_def no_loss_def waiting_def)
  then obtain s' where "drain_loop act ?tm (length (queue s)) ?s2 = Some s'" "ran s' = called ?s2"
    using drain_loop_quiet [OF assms(3), of ?tm "length (queue s)" ?s2] by (auto split: if_splits)
  then show ?thesis using assms(2) by (cases "queue s = []") (auto simp: drainQueue_def Let_def)
qed

lemma drain_runs_everything_witness:
  "\<exists>s'. drainQueue (\<lambda>item w. (w, [], False)) (nextTick 4 (nextTick 2 (ticks_init ()))) = Some s' \<and> ran s' = [2, 4]"
proof -
  let ?act = "\<lambda>(item :: nat) (w :: unit). (w, [] :: nat list, False)"
  let ?s = "nextTick 4 (nextTick 2 (ticks_init ()))"
  have "reachable_ticks ?act () ?s" 
    by (rule reachable_ticks.step [OF reachable_ticks.step [OF reachable_ticks.start tick_step.call] tick_step.call])
  moreover have "\<not> draining ?s" "called ?s = [2, 4]" by (simp_all add: nextTick_def ticks_init_def)
  ultimately show ?thesis using drain_runs_everything [of ?act "()" ?s] by simp
qed

end
