(* ===== verification/Process_Timers.thy ===== *)
theory Process_Timers
  imports Prelude
begin

text \<open>
  The rest of module 24 of the bundle, the process shim: how it chooses between the global timer
  functions and the ones it remembered, and its constant members.  A timer function is known by a
  number; what happens when one is called with a certain \<open>this\<close> is an argument.
\<close>

datatype timer_fun = Default | Host nat

datatype this_arg = Plain | Null_this | Shim_this

text \<open>A global name is not declared, holds \<open>undefined\<close>, or holds a function.\<close>

datatype global = Undeclared | NoFunction | Function timer_fun

datatype timer_error = NotDefined | Thrown

text \<open>The first block: the function that is remembered when the module is loaded.\<close>

definition remember :: "global \<Rightarrow> timer_fun" where
  "remember g = (case g of Function f \<Rightarrow> f | _ \<Rightarrow> Default)"

text \<open>\<open>works f t\<close> holds when calling \<open>f\<close> with \<open>this\<close> as \<open>t\<close> does not throw; the fallbacks
  \<open>defaultSetTimout\<close> and \<open>defaultClearTimeout\<close> always throw.\<close>

definition call_timer :: "(timer_fun \<Rightarrow> this_arg \<Rightarrow> bool) \<Rightarrow> timer_fun \<Rightarrow> this_arg \<Rightarrow> timer_error + timer_fun \<times> this_arg" where
  "call_timer works f t = (if f = Default \<or> \<not> works f t then Inl Thrown else Inr (f, t))"

definition or_else :: "timer_error + 'a \<Rightarrow> timer_error + 'a \<Rightarrow> timer_error + 'a" where
  "or_else a b = (case a of Inl _ \<Rightarrow> b | Inr x \<Rightarrow> Inr x)"

text \<open>\<open>runTimeout\<close>: the remembered function afterwards, and the call that was made.  Reading a
  global that is not declared throws.\<close>

definition runTimeout ::
  "(timer_fun \<Rightarrow> this_arg \<Rightarrow> bool) \<Rightarrow> global \<Rightarrow> timer_fun \<Rightarrow> timer_fun \<times> (timer_error + timer_fun \<times> this_arg)" where
  "runTimeout works g cached =
     (case g of
        Undeclared \<Rightarrow> (cached, Inl NotDefined)
      | NoFunction \<Rightarrow> (cached,
          or_else (call_timer works cached Plain)
            (or_else (call_timer works cached Null_this) (call_timer works cached Shim_this)))
      | Function f \<Rightarrow>
          if cached = f then (cached, call_timer works f Plain)
          else if cached = Default then (f, call_timer works f Plain)
          else (cached,
            or_else (call_timer works cached Plain)
              (or_else (call_timer works cached Null_this) (call_timer works cached Shim_this))))"

text \<open>\<open>runClearTimeout\<close> chooses in the same way among the functions that clear a timer.\<close>

definition runClearTimeout ::
  "(timer_fun \<Rightarrow> this_arg \<Rightarrow> bool) \<Rightarrow> global \<Rightarrow> timer_fun \<Rightarrow> timer_fun \<times> (timer_error + timer_fun \<times> this_arg)" where
  "runClearTimeout works g cached =
     (case g of
        Undeclared \<Rightarrow> (cached, Inl NotDefined)
      | NoFunction \<Rightarrow> (cached,
          or_else (call_timer works cached Plain)
            (or_else (call_timer works cached Null_this) (call_timer works cached Shim_this)))
      | Function f \<Rightarrow>
          if cached = f then (cached, call_timer works f Plain)
          else if cached = Default then (f, call_timer works f Plain)
          else (cached,
            or_else (call_timer works cached Plain)
              (or_else (call_timer works cached Null_this) (call_timer works cached Shim_this))))"

section \<open>Constant members\<close>

definition process_title :: jsstring where
  "process_title = js ''browser''"

definition process_version :: jsstring where
  "process_version = []"

definition process_listeners :: "jsstring \<Rightarrow> nat list" where
  "process_listeners name = []"

definition process_binding :: "jsstring \<Rightarrow> js_error + unit" where
  "process_binding name = Inl (JsError (js ''process.binding is not supported''))"

definition process_chdir :: "jsstring \<Rightarrow> js_error + unit" where
  "process_chdir dir = Inl (JsError (js ''process.chdir is not supported''))"

definition process_umask :: int where
  "process_umask = 0"

section \<open>Which timer runs\<close>

lemma or_else_Inr: "or_else a b = Inr x \<longleftrightarrow> a = Inr x \<or> (\<exists>e. a = Inl e) \<and> b = Inr x"
  by (auto simp: or_else_def split: sum.split)

lemma runClearTimeout_eq: "runClearTimeout = runTimeout"
  by (simp add: runClearTimeout_def runTimeout_def fun_eq_iff)

text \<open>
  A timer is set whenever one can be.  If the function remembered at load time can be
  called in one of the three ways, or was missing and a working one has been defined since, the
  shim makes such a call; stubbing the global afterwards makes no difference to it.
\<close>

theorem runTimeout_robust:
  assumes "g \<noteq> Undeclared" "f \<noteq> Default"
    and "cached = f \<and> (works f Plain \<or> g \<noteq> Function f \<and> (works f Null_this \<or> works f Shim_this))
      \<or> cached = Default \<and> g = Function f \<and> works f Plain"
  shows "\<exists>t. runTimeout works g cached = (f, Inr (f, t)) \<and> works f t"
  using assms by (cases g) (auto simp: runTimeout_def call_timer_def or_else_def)

lemma runTimeout_robust_witness:
  "\<exists>t. runTimeout (\<lambda>f t. t = Null_this) (Function (Host 2)) (Host 1) = (Host 1, Inr (Host 1, t)) \<and> t = Null_this"
  using runTimeout_robust [of "Function (Host 2)" "Host 1" "Host 1" "\<lambda>f t. t = Null_this"] by simp

end
