(* ===== verification/Regexp.thy ===== *)
theory Regexp
  imports Js_Strings
begin

text \<open>
  The regular expressions of the language, as far as the glob matcher uses them: the source text
  is parsed into a tree, and a tree is matched against a string by the set of positions where a
  match may end.  Captures play no role in the sources, so greedy and lazy quantifiers and the
  order of alternatives make no difference to whether a string matches.  Escapes of letters and
  digits (\<open>\d\<close>, \<open>\w\<close>, back references) do not occur in generated text; the parser reports them as
  \<open>Unsupported\<close>.
\<close>

section \<open>Trees and matching\<close>

datatype re =
    Eps
  | Chr code_unit
  | Dot
  | Class bool "(code_unit \<times> code_unit) list"
  | Seq re re
  | Alt re re
  | Rep re nat "nat option"
  | Look bool re
  | Bol
  | Eol

definition re_line_terminator :: "code_unit \<Rightarrow> bool" where
  "re_line_terminator c \<longleftrightarrow> c = 10 \<or> c = 13 \<or> c = 0x2028 \<or> c = 0x2029"

text \<open>\<open>canon\<close> maps a unit to the one it is compared by: the identity, or the upper case when the
  flag \<open>i\<close> is set.\<close>

definition in_ranges :: "(code_unit \<Rightarrow> code_unit) \<Rightarrow> code_unit \<Rightarrow> (code_unit \<times> code_unit) list \<Rightarrow> bool" where
  "in_ranges canon c rs \<longleftrightarrow> list_ex (\<lambda>(a, b). list_ex (\<lambda>n. canon (word_of_nat n) = canon c) [unat a..<Suc (unat b)]) rs"

text \<open>The positions reached by at most \<open>n\<close> steps of \<open>f\<close>.\<close>

fun reach :: "nat \<Rightarrow> (nat \<Rightarrow> nat list) \<Rightarrow> nat list \<Rightarrow> nat list" where
  "reach 0 f ps = ps"
| "reach (Suc n) f ps = (let qs = remdups (ps @ concat (map f ps)) in if length qs = length ps then ps else reach n f qs)"

fun repeat_ends :: "nat \<Rightarrow> (nat \<Rightarrow> nat list) \<Rightarrow> nat list \<Rightarrow> nat list" where
  "repeat_ends 0 f ps = ps"
| "repeat_ends (Suc n) f ps = repeat_ends n f (remdups (concat (map f ps)))"

fun upto_ends :: "nat \<Rightarrow> (nat \<Rightarrow> nat list) \<Rightarrow> nat list \<Rightarrow> nat list" where
  "upto_ends 0 f ps = ps"
| "upto_ends (Suc n) f ps = remdups (ps @ upto_ends n f (remdups (concat (map f ps))))"

fun ends :: "(code_unit \<Rightarrow> code_unit) \<Rightarrow> re \<Rightarrow> jsstring \<Rightarrow> nat \<Rightarrow> nat list" where
  "ends canon Eps s i = [i]"
| "ends canon (Chr c) s i = (if i < length s \<and> canon (s ! i) = canon c then [Suc i] else [])"
| "ends canon Dot s i = (if i < length s \<and> \<not> re_line_terminator (s ! i) then [Suc i] else [])"
| "ends canon (Class neg rs) s i =
     (if i < length s \<and> in_ranges canon (s ! i) rs \<noteq> neg then [Suc i] else [])"
| "ends canon (Seq r q) s i = concat (map (ends canon q s) (ends canon r s i))"
| "ends canon (Alt r q) s i = ends canon r s i @ ends canon q s i"
| "ends canon (Rep r m k) s i =
     (let ps = repeat_ends m (ends canon r s) [i]
      in case k of
           None \<Rightarrow> reach (Suc (length s)) (ends canon r s) (remdups ps)
         | Some k' \<Rightarrow> upto_ends (k' - m) (ends canon r s) ps)"
| "ends canon (Look neg r) s i = (if (ends canon r s i \<noteq> []) \<noteq> neg then [i] else [])"
| "ends canon Bol s i = (if i = 0 then [i] else [])"
| "ends canon Eol s i = (if i = length s then [i] else [])"

text \<open>\<open>s.match(r)\<close> is not \<open>null\<close>.\<close>

definition re_test :: "(code_unit \<Rightarrow> code_unit) \<Rightarrow> re \<Rightarrow> jsstring \<Rightarrow> bool" where
  "re_test canon r s \<longleftrightarrow> list_ex (\<lambda>i. ends canon r s i \<noteq> []) [0..<Suc (length s)]"

section \<open>Parsing\<close>

datatype re_problem = SyntaxError | Unsupported

definition alnum :: "code_unit \<Rightarrow> bool" where
  "alnum c \<longleftrightarrow> (48 \<le> c \<and> c \<le> 57) \<or> (65 \<le> c \<and> c \<le> 90) \<or> (97 \<le> c \<and> c \<le> 122)"

text \<open>One member of a class: a unit or the escape of one.\<close>

fun class_atom :: "jsstring \<Rightarrow> re_problem + code_unit \<times> jsstring" where
  "class_atom [] = Inl SyntaxError"
| "class_atom [c] = (if c = 92 then Inl SyntaxError else Inr (c, []))"
| "class_atom (c # d # s) =
     (if c = 92 then (if alnum d then Inl Unsupported else Inr (d, s)) else Inr (c, d # s))"

text \<open>The members of a class up to its \<open>]\<close>; the fuel is the length of the text.\<close>

fun class_items :: "nat \<Rightarrow> jsstring \<Rightarrow> re_problem + (code_unit \<times> code_unit) list \<times> jsstring" where
  "class_items 0 s = Inl SyntaxError"
| "class_items (Suc n) s =
     (if s \<noteq> [] \<and> hd s = 93 then Inr ([], tl s)
      else
        case class_atom s of
          Inl e \<Rightarrow> Inl e
        | Inr (a, s1) \<Rightarrow>
            if 2 \<le> length s1 \<and> s1 ! 0 = 45 \<and> s1 ! 1 \<noteq> 93 then
              (case class_atom (tl s1) of
                 Inl e \<Rightarrow> Inl e
               | Inr (b, s2) \<Rightarrow>
                   if b < a then Inl SyntaxError
                   else (case class_items n s2 of Inl e \<Rightarrow> Inl e | Inr (rs, s3) \<Rightarrow> Inr ((a, b) # rs, s3)))
            else (case class_items n s1 of Inl e \<Rightarrow> Inl e | Inr (rs, s3) \<Rightarrow> Inr ((a, a) # rs, s3)))"

definition parse_class :: "jsstring \<Rightarrow> re_problem + re \<times> jsstring" where
  "parse_class s =
     (let neg = (s \<noteq> [] \<and> hd s = 94)
      in bind_js (class_items (Suc (length s)) (if neg then tl s else s)) (\<lambda>(rs, s').
           Inr (Class neg rs, s')))"

text \<open>A quantifier in braces: \<open>{n}\<close>, \<open>{n,}\<close> or \<open>{n,m}\<close>, after the opening brace.\<close>

definition braced :: "jsstring \<Rightarrow> ((nat \<times> nat option) \<times> jsstring) option" where
  "braced s =
     (let ds = takeWhile is_digit s; r = dropWhile is_digit s
      in if ds = [] \<or> r = [] then None
         else if hd r = 125 then Some ((digits_value ds, Some (digits_value ds)), tl r)
         else if hd r = 44 then
           (let es = takeWhile is_digit (tl r); q = dropWhile is_digit (tl r)
            in if q = [] \<or> hd q \<noteq> 125 then None
               else Some ((digits_value ds, if es = [] then None else Some (digits_value es)), tl q))
         else None)"

definition quantifier :: "jsstring \<Rightarrow> ((nat \<times> nat option) \<times> jsstring) option" where
  "quantifier s =
     (case s of
        [] \<Rightarrow> None
      | c # t \<Rightarrow>
          map_option (\<lambda>(q, r). (q, if r \<noteq> [] \<and> hd r = 63 then tl r else r))
            (if c = 42 then Some ((0, None), t)
             else if c = 43 then Some ((1, None), t)
             else if c = 63 then Some ((0, Some 1), t)
             else if c = 123 then braced t
             else None))"

definition apply_quantifier :: "re \<Rightarrow> jsstring \<Rightarrow> re_problem + re \<times> jsstring" where
  "apply_quantifier r s =
     (case quantifier s of
        None \<Rightarrow> Inr (r, s)
      | Some ((m, k), s') \<Rightarrow>
          if (case k of None \<Rightarrow> False | Some k' \<Rightarrow> k' < m) then Inl SyntaxError
          else Inr (Rep r m k, s'))"

text \<open>An atom that is no group: the text after it remains.\<close>

definition parse_atom :: "jsstring \<Rightarrow> re_problem + re \<times> jsstring" where
  "parse_atom s =
     (case s of
        [] \<Rightarrow> Inl SyntaxError
      | c # t \<Rightarrow>
          if c = 46 then Inr (Dot, t)
          else if c = 91 then parse_class t
          else if c = 92 then
            (case t of
               [] \<Rightarrow> Inl SyntaxError
             | d # u \<Rightarrow> if alnum d then Inl Unsupported else Inr (Chr d, u))
          else if c \<in> {42, 43, 63, 41} \<or> c = 123 \<and> braced t \<noteq> None then Inl SyntaxError
          else Inr (Chr c, t))"

text \<open>The opening of a group, with what becomes of its content.\<close>

definition group_kind :: "jsstring \<Rightarrow> ((re \<Rightarrow> re) \<times> jsstring) option" where
  "group_kind s =
     (if s = [] \<or> hd s \<noteq> 40 then None
      else if take 3 s = [40, 63, 58] then Some (\<lambda>r. r, drop 3 s)
      else if take 3 s = [40, 63, 61] then Some (Look False, drop 3 s)
      else if take 3 s = [40, 63, 33] then Some (Look True, drop 3 s)
      else Some (\<lambda>r. r, drop 1 s))"

text \<open>\<open>parse_alts\<close> reads alternatives up to a closing parenthesis or the end, \<open>parse_terms\<close> the
  terms of one alternative, \<open>parse_item\<close> one term with its quantifier.  The fuel bounds the steps; the length of the text is enough.\<close>

fun parse_alts :: "nat \<Rightarrow> jsstring \<Rightarrow> re_problem + re \<times> jsstring"
  and parse_terms :: "nat \<Rightarrow> jsstring \<Rightarrow> re_problem + re \<times> jsstring"
  and parse_item :: "nat \<Rightarrow> jsstring \<Rightarrow> re_problem + re \<times> jsstring" where
  "parse_alts 0 s = Inl Unsupported"
| "parse_alts (Suc n) s =
     (case parse_terms n s of
        Inl e \<Rightarrow> Inl e
      | Inr (r, s') \<Rightarrow>
          if s' \<noteq> [] \<and> hd s' = 124
          then (case parse_alts n (tl s') of Inl e \<Rightarrow> Inl e | Inr (q, s'') \<Rightarrow> Inr (Alt r q, s''))
          else Inr (r, s'))"
| "parse_terms 0 s = Inl Unsupported"
| "parse_terms (Suc n) s =
     (if s = [] \<or> hd s = 124 \<or> hd s = 41 then Inr (Eps, s)
      else
        case parse_item n s of
          Inl e \<Rightarrow> Inl e
        | Inr (r, s2) \<Rightarrow>
            (case parse_terms n s2 of Inl e \<Rightarrow> Inl e | Inr (q, s3) \<Rightarrow> Inr (Seq r q, s3)))"
| "parse_item 0 s = Inl Unsupported"
| "parse_item (Suc n) s =
     (if hd s = 94 then Inr (Bol, tl s)
      else if hd s = 36 then Inr (Eol, tl s)
      else
        case group_kind s of
          None \<Rightarrow>
            (case parse_atom s of Inl e \<Rightarrow> Inl e | Inr (r, s1) \<Rightarrow> apply_quantifier r s1)
        | Some (mk, t) \<Rightarrow>
            (case parse_alts n t of
               Inl e \<Rightarrow> Inl e
             | Inr (r, t') \<Rightarrow>
                 if t' \<noteq> [] \<and> hd t' = 41 then apply_quantifier (mk r) (tl t') else Inl SyntaxError))"

declare parse_alts.simps [simp del] parse_terms.simps [simp del] parse_item.simps [simp del]

text \<open>\<open>new RegExp(text)\<close>.\<close>

definition regexp :: "jsstring \<Rightarrow> re_problem + re" where
  "regexp s =
     (case parse_alts (Suc (Suc (3 * length s))) s of
        Inl e \<Rightarrow> Inl e
      | Inr (r, s') \<Rightarrow> if s' = [] then Inr r else Inl SyntaxError)"

end
