(* ===== verification/Minimatch.thy ===== *)
theory Minimatch
  imports Regexp Brace_Expansion
begin

text \<open>
  Module 20 of the bundle, the glob matcher: options, the translation of one path portion of a
  pattern into a regular expression (\<open>parse\<close>, a state machine over the characters), the object
  that holds a compiled pattern (\<open>Minimatch\<close>, \<open>make\<close>, \<open>parseNegate\<close>, \<open>braceExpand\<close>), matching
  (\<open>matchOne\<close>, \<open>match\<close>, \<open>minimatch\<close>) and the regular expression for whole paths (\<open>makeRe\<close>).

  The platform's separator is the slash, as in the module \<open>path\<close> of the same bundle.  The random
  tokens of the brace expansion and the case tables of Unicode are arguments.
\<close>

section \<open>Options and constants\<close>

datatype opt_name =
    Nobrace | Nocomment | Nonegate | Noglobstar | DotOpt | Nocase | Noext | MatchBase
  | FlipNegate | Nonull | DebugOpt

text \<open>An options object: its keys in order, each with the truth of its value.\<close>

type_synonym options = "(opt_name \<times> bool) list"

definition opt :: "options \<Rightarrow> opt_name \<Rightarrow> bool" where
  "opt os k \<longleftrightarrow> map_of os k = Some True"

definition ext :: "options \<Rightarrow> options \<Rightarrow> options" where
  "ext a b = fold (\<lambda>(k, v). set_key k v) a (fold (\<lambda>(k, v). set_key k v) b [])"

datatype glob_error =
    NotAString
  | TooLong
  | NotAFunction
  | Slash
  | NoFuel
  | ReUnsupported
  | Braces expand_stop

definition qmark :: jsstring where
  "qmark = js ''[^/]''"

definition star :: jsstring where
  "star = qmark @ js ''*?''"

definition twoStarDot :: jsstring where
  "twoStarDot = js ''(?:(?!(?:'' @ [92] @ js ''/|^)(?:'' @ [92] @ js ''.{1,2})($|'' @ [92] @ js ''/)).)*?''"

definition twoStarNoDot :: jsstring where
  "twoStarNoDot = js ''(?:(?!(?:'' @ [92] @ js ''/|^)'' @ [92] @ js ''.).)*?''"

definition charSet :: "jsstring \<Rightarrow> code_unit set" where
  "charSet s = fold insert s {}"

definition reSpecials :: "code_unit set" where
  "reSpecials = charSet (js ''().*{}+?[]^$'' @ [92] @ js ''!'')"

record pl_type =
  pl_open :: jsstring
  pl_close :: jsstring

definition plTypes :: "code_unit \<Rightarrow> pl_type" where
  "plTypes c =
     (if c = 33 then \<lparr>pl_open = js ''(?:(?!(?:'', pl_close = js ''))[^/]*?)''\<rparr>
      else if c = 63 then \<lparr>pl_open = js ''(?:'', pl_close = js '')?''\<rparr>
      else if c = 43 then \<lparr>pl_open = js ''(?:'', pl_close = js '')+''\<rparr>
      else if c = 42 then \<lparr>pl_open = js ''(?:'', pl_close = js '')*''\<rparr>
      else \<lparr>pl_open = js ''(?:'', pl_close = js '')''\<rparr>)"

text \<open>White space of \<open>trim\<close> and of \<open>\s\<close>.\<close>

definition white_space :: "code_unit \<Rightarrow> bool" where
  "white_space c \<longleftrightarrow>
     (9 \<le> c \<and> c \<le> 13) \<or> c = 32 \<or> c = 160 \<or> c = 0x1680 \<or> (0x2000 \<le> c \<and> c \<le> 0x200A)
     \<or> c = 0x2028 \<or> c = 0x2029 \<or> c = 0x202F \<or> c = 0x205F \<or> c = 0x3000 \<or> c = 0xFEFF"

definition trim :: "jsstring \<Rightarrow> jsstring" where
  "trim s = rev (dropWhile white_space (rev (dropWhile white_space s)))"

text \<open>\<open>s.replace(/\\(.)/g, '$1')\<close>.\<close>

fun globUnescape :: "jsstring \<Rightarrow> jsstring" where
  "globUnescape [] = []"
| "globUnescape [c] = [c]"
| "globUnescape (c # d # s) =
     (if c = 92 \<and> \<not> re_line_terminator d then d # globUnescape s else c # globUnescape (d # s))"

definition regExpEscape :: "jsstring \<Rightarrow> jsstring" where
  "regExpEscape s =
     concat (map (\<lambda>c. if c \<in> set (js ''-[]{}()*+?.,'' @ [92] @ js ''^$|#'') \<or> white_space c
                      then [92, c] else [c]) s)"

section \<open>The translation of one path portion\<close>

text \<open>An entry of \<open>patternListStack\<close> or \<open>negativeLists\<close>.\<close>

record pattern_list =
  pl_kind :: code_unit
  pl_reStart :: nat
  pl_reEnd :: nat

record parse_state =
  ps_re :: jsstring
  ps_hasMagic :: bool
  ps_escaping :: bool
  ps_lists :: "pattern_list list"
  ps_negative :: "pattern_list list"
  ps_stateChar :: "code_unit option"
  ps_inClass :: bool
  ps_reClassStart :: int
  ps_classStart :: int

definition parse_init :: "options \<Rightarrow> parse_state" where
  "parse_init os = \<lparr>ps_re = [], ps_hasMagic = opt os Nocase, ps_escaping = False, ps_lists = [],
     ps_negative = [], ps_stateChar = None, ps_inClass = False, ps_reClassStart = -1,
     ps_classStart = -1\<rparr>"

definition emit_re :: "jsstring \<Rightarrow> parse_state \<Rightarrow> parse_state" where
  "emit_re t st = st\<lparr>ps_re := ps_re st @ t\<rparr>"

definition clearStateChar :: "parse_state \<Rightarrow> parse_state" where
  "clearStateChar st =
     (case ps_stateChar st of
        None \<Rightarrow> st
      | Some c \<Rightarrow>
          (if c = 42 then (emit_re star st)\<lparr>ps_hasMagic := True\<rparr>
           else if c = 63 then (emit_re qmark st)\<lparr>ps_hasMagic := True\<rparr>
           else emit_re [92, c] st)\<lparr>ps_stateChar := None\<rparr>)"

text \<open>What \<open>parse\<close> returns: a portion of a pattern, or the pair of a nested call.  A compiled
  expression keeps its \<open>_src\<close>, which the one for invalid text lacks.\<close>

datatype part =
    GLOBSTAR
  | Text jsstring
  | Pattern re "jsstring option" bool
  | FalsePart

datatype parsed =
    Part part
  | SubPair jsstring bool

definition undefined_text :: jsstring where
  "undefined_text = js ''undefined''"

text \<open>\<open>sp[0]\<close> in a concatenation of strings, and the truth of \<open>sp[1]\<close>.\<close>

fun sp_re :: "parsed \<Rightarrow> jsstring" where
  "sp_re (SubPair r m) = r"
| "sp_re (Part (Text (c # s))) = [c]"
| "sp_re _ = undefined_text"

fun sp_magic :: "parsed \<Rightarrow> bool" where
  "sp_magic (SubPair r m) = m"
| "sp_magic (Part (Text s)) = (1 < length s)"
| "sp_magic _ = False"

text \<open>One definition per case of the loop over the characters.\<close>

definition on_state_char :: "options \<Rightarrow> nat \<Rightarrow> code_unit \<Rightarrow> parse_state \<Rightarrow> parse_state" where
  "on_state_char os i c st =
     (if ps_inClass st
      then emit_re [if c = 33 \<and> int i = ps_classStart st + 1 then 94 else c] st
      else
        let st1 = (clearStateChar st)\<lparr>ps_stateChar := Some c\<rparr>
        in if opt os Noext then clearStateChar st1 else st1)"

definition on_open_paren :: "parse_state \<Rightarrow> parse_state" where
  "on_open_paren st =
     (if ps_inClass st then emit_re [40] st
      else
        case ps_stateChar st of
          None \<Rightarrow> emit_re [92, 40] st
        | Some c \<Rightarrow>
            (emit_re (if c = 33 then js ''(?:(?!(?:'' else js ''(?:'') st)
              \<lparr>ps_lists := \<lparr>pl_kind = c, pl_reStart = length (ps_re st), pl_reEnd = 0\<rparr> # ps_lists st,
               ps_stateChar := None\<rparr>)"

definition on_close_paren :: "parse_state \<Rightarrow> parse_state" where
  "on_close_paren st =
     (if ps_inClass st \<or> ps_lists st = [] then emit_re [92, 41] st
      else
        let st1 = clearStateChar st;
            pl = hd (ps_lists st1);
            st2 = emit_re (pl_close (plTypes (pl_kind pl))) (st1\<lparr>ps_hasMagic := True, ps_lists := tl (ps_lists st1)\<rparr>)
        in if pl_kind pl = 33
           then st2\<lparr>ps_negative := ps_negative st2 @ [pl\<lparr>pl_reEnd := length (ps_re st2)\<rparr>]\<rparr>
           else st2)"

definition on_pipe :: "parse_state \<Rightarrow> parse_state" where
  "on_pipe st =
     (if ps_inClass st \<or> ps_lists st = [] \<or> ps_escaping st
      then (emit_re [92, 124] st)\<lparr>ps_escaping := False\<rparr>
      else emit_re [124] (clearStateChar st))"

definition on_open_class :: "nat \<Rightarrow> parse_state \<Rightarrow> parse_state" where
  "on_open_class i st =
     (let st1 = clearStateChar st
      in if ps_inClass st1 then emit_re [92, 91] st1
         else (emit_re [91] st1)
           \<lparr>ps_inClass := True, ps_classStart := int i, ps_reClassStart := int (length (ps_re st1))\<rparr>)"

text \<open>\<open>sub\<close> is the recursive call \<open>this.parse(cs, SUBPARSE)\<close>.\<close>

definition on_close_class ::
  "(jsstring \<Rightarrow> glob_error + parsed) \<Rightarrow> jsstring \<Rightarrow> nat \<Rightarrow> parse_state \<Rightarrow> glob_error + parse_state" where
  "on_close_class sub pattern i st =
     (if int i = ps_classStart st + 1 \<or> \<not> ps_inClass st
      then Inr ((emit_re [92, 93] st)\<lparr>ps_escaping := False\<rparr>)
      else
        let cs = substring pattern (nat (ps_classStart st + 1)) i
        in case regexp ([91] @ cs @ [93]) of
             Inl Unsupported \<Rightarrow> Inl ReUnsupported
           | Inl SyntaxError \<Rightarrow>
               bind_js (sub cs) (\<lambda>sp.
                 Inr (st\<lparr>ps_re := take (nat (ps_reClassStart st)) (ps_re st) @ [92, 91] @ sp_re sp @ [92, 93],
                         ps_hasMagic := ps_hasMagic st \<or> sp_magic sp, ps_inClass := False\<rparr>))
           | Inr r \<Rightarrow> Inr ((emit_re [93] st)\<lparr>ps_hasMagic := True, ps_inClass := False\<rparr>))"

definition on_other :: "code_unit \<Rightarrow> parse_state \<Rightarrow> parse_state" where
  "on_other c st =
     (let st1 = clearStateChar st
      in if ps_escaping st1 then emit_re [c] (st1\<lparr>ps_escaping := False\<rparr>)
         else if c \<in> reSpecials \<and> \<not> (c = 94 \<and> ps_inClass st1) then emit_re [92, c] st1
         else emit_re [c] st1)"

definition parse_char ::
  "options \<Rightarrow> (jsstring \<Rightarrow> glob_error + parsed) \<Rightarrow> jsstring \<Rightarrow> nat \<Rightarrow> code_unit \<Rightarrow> parse_state
   \<Rightarrow> glob_error + parse_state" where
  "parse_char os sub pattern i c st =
     (if ps_escaping st \<and> c \<in> reSpecials then Inr ((emit_re [92, c] st)\<lparr>ps_escaping := False\<rparr>)
      else if c = 47 then Inl Slash
      else if c = 92 then Inr ((clearStateChar st)\<lparr>ps_escaping := True\<rparr>)
      else if c \<in> set [63, 42, 43, 64, 33] then Inr (on_state_char os i c st)
      else if c = 40 then Inr (on_open_paren st)
      else if c = 41 then Inr (on_close_paren st)
      else if c = 124 then Inr (on_pipe st)
      else if c = 91 then Inr (on_open_class i st)
      else if c = 93 then on_close_class sub pattern i st
      else Inr (on_other c st))"

fun parse_chars ::
  "options \<Rightarrow> (jsstring \<Rightarrow> glob_error + parsed) \<Rightarrow> jsstring \<Rightarrow> nat \<Rightarrow> jsstring \<Rightarrow> parse_state
   \<Rightarrow> glob_error + parse_state" where
  "parse_chars os sub pattern i [] st = Inr st"
| "parse_chars os sub pattern i (c # s) st =
     bind_js (parse_char os sub pattern i c st) (parse_chars os sub pattern (Suc i) s)"

text \<open>After the loop: a class left open, then the lists left open, from the innermost.\<close>

definition close_class ::
  "(jsstring \<Rightarrow> glob_error + parsed) \<Rightarrow> jsstring \<Rightarrow> parse_state \<Rightarrow> glob_error + parse_state" where
  "close_class sub pattern st =
     (if \<not> ps_inClass st then Inr st
      else bind_js (sub (drop (nat (ps_classStart st + 1)) pattern)) (\<lambda>sp.
        Inr (st\<lparr>ps_re := take (nat (ps_reClassStart st)) (ps_re st) @ [92, 91] @ sp_re sp,
                ps_hasMagic := ps_hasMagic st \<or> sp_magic sp\<rparr>)))"

text \<open>The replacement of \<open>|\<close> in the tail.  \<open>n\<close> counts the backslashes just before the current
  character; the expression of the source sees at most 129 of them.\<close>

definition escape_run :: "nat \<Rightarrow> jsstring" where
  "escape_run n =
     (let k = min n 129; pairs = replicate (2 * (k div 2)) 92
      in replicate (n - k) 92 @ pairs @ pairs @ [92, 124])"

fun escape_pipes :: "nat \<Rightarrow> jsstring \<Rightarrow> jsstring" where
  "escape_pipes n [] = replicate n 92"
| "escape_pipes n (c # s) =
     (if c = 92 then escape_pipes (Suc n) s
      else if c = 124 then escape_run n @ escape_pipes 0 s
      else replicate n 92 @ c # escape_pipes 0 s)"

definition close_list :: "pattern_list \<Rightarrow> parse_state \<Rightarrow> parse_state" where
  "close_list pl st =
     (let tail = escape_pipes 0 (drop (pl_reStart pl + length (pl_open (plTypes (pl_kind pl)))) (ps_re st));
          t = (if pl_kind pl = 42 then star else if pl_kind pl = 63 then qmark else [92, pl_kind pl])
      in st\<lparr>ps_hasMagic := True, ps_re := take (pl_reStart pl) (ps_re st) @ t @ [92, 40] @ tail\<rparr>)"

definition close_lists :: "parse_state \<Rightarrow> parse_state" where
  "close_lists st = (fold close_list (ps_lists st) st)\<lparr>ps_lists := []\<rparr>"

text \<open>The lists under negation, from the last: each lookahead is made to see the rest.\<close>

fun drop_close_paren :: "jsstring \<Rightarrow> jsstring" where
  "drop_close_paren [] = []"
| "drop_close_paren (c # s) =
     (if c = 41 then (if s \<noteq> [] \<and> hd s \<in> set [43, 42, 63] then tl s else s)
      else c # drop_close_paren s)"

definition look_ahead :: "bool \<Rightarrow> pattern_list \<Rightarrow> jsstring \<Rightarrow> jsstring" where
  "look_ahead isSub nl r =
     (let nlBefore = take (pl_reStart nl) r;
          nlFirst = slice r (pl_reStart nl) (pl_reEnd nl - 8);
          nlLast = slice r (pl_reEnd nl - 8) (pl_reEnd nl);
          nlAfter = drop (pl_reEnd nl) r;
          cleanAfter = (drop_close_paren ^^ count_list nlBefore 40) nlAfter;
          dollar = (if cleanAfter = [] \<and> \<not> isSub then [36] else [])
      in nlBefore @ nlFirst @ cleanAfter @ dollar @ nlLast @ nlAfter)"

definition patternStart :: "options \<Rightarrow> jsstring \<Rightarrow> jsstring" where
  "patternStart os pattern =
     (if take 1 pattern = [46] then []
      else if opt os DotOpt
        then js ''(?!(?:^|'' @ [92] @ js ''/)'' @ [92] @ js ''.{1,2}(?:$|'' @ [92] @ js ''/))''
      else js ''(?!'' @ [92] @ js ''.)'')"

definition parse_finish :: "options \<Rightarrow> bool \<Rightarrow> jsstring \<Rightarrow> parse_state \<Rightarrow> jsstring" where
  "parse_finish os isSub pattern st =
     (let re1 = ps_re st @ (if ps_escaping st then [92, 92] else []);
          addPatternStart = (re1 \<noteq> [] \<and> hd re1 \<in> set [46, 91, 40]);
          re2 = fold (look_ahead isSub) (rev (ps_negative st)) re1;
          re3 = (if re2 \<noteq> [] \<and> ps_hasMagic st then js ''(?=.)'' @ re2 else re2)
      in if addPatternStart then patternStart os pattern @ re3 else re3)"

text \<open>The last step: the pair of a nested call, plain text, or an expression.\<close>

definition never_matches :: re where
  "never_matches = Seq Eol (Seq Dot Eps)"

definition parse_result ::
  "options \<Rightarrow> bool \<Rightarrow> jsstring \<Rightarrow> bool \<Rightarrow> jsstring \<Rightarrow> glob_error + parsed" where
  "parse_result os isSub pattern magic r =
     (if isSub then Inr (SubPair r magic)
      else if \<not> magic then Inr (Part (Text (globUnescape pattern)))
      else
        case regexp ([94] @ r @ [36]) of
          Inl Unsupported \<Rightarrow> Inl ReUnsupported
        | Inl SyntaxError \<Rightarrow> Inr (Part (Pattern never_matches None False))
        | Inr e \<Rightarrow> Inr (Part (Pattern e (Some r) (opt os Nocase))))"

text \<open>The fuel bounds the depth of nested calls; each is on a shorter text.\<close>

fun parse_fuel :: "nat \<Rightarrow> options \<Rightarrow> bool \<Rightarrow> jsstring \<Rightarrow> glob_error + parsed" where
  "parse_fuel 0 os isSub pattern = Inl NoFuel"
| "parse_fuel (Suc n) os isSub pattern =
     (if 1024 * 64 < length pattern then Inl TooLong
      else if \<not> opt os Noglobstar \<and> pattern = [42, 42] then Inr (Part GLOBSTAR)
      else if pattern = [] then Inr (Part (Text []))
      else
        case parse_chars os (parse_fuel n os True) pattern 0 pattern (parse_init os) of
          Inl Slash \<Rightarrow> Inr (Part FalsePart)
        | Inl e \<Rightarrow> Inl e
        | Inr st \<Rightarrow>
            (case close_class (parse_fuel n os True) pattern st of
               Inl e \<Rightarrow> Inl e
             | Inr st1 \<Rightarrow>
                 let st2 = clearStateChar (close_lists st1)
                 in parse_result os isSub pattern (ps_hasMagic st2) (parse_finish os isSub pattern st2)))"

declare parse_fuel.simps [simp del]

definition glob_parse :: "options \<Rightarrow> jsstring \<Rightarrow> glob_error + part" where
  "glob_parse os pattern =
     bind_js (parse_fuel (Suc (length pattern)) os False pattern)
       (\<lambda>r. case r of Part p \<Rightarrow> Inr p | SubPair _ _ \<Rightarrow> Inl NoFuel)"

section \<open>Compiled patterns\<close>

datatype cached_regexp = Null | NoRegexp | Cached re bool

record minimatch_object =
  mm_options :: options
  mm_set :: "part list list"
  mm_pattern :: jsstring
  mm_regexp :: cached_regexp
  mm_negate :: bool
  mm_comment :: bool
  mm_empty :: bool

text \<open>\<open>split(/\/+/)\<close>: a run of slashes separates.\<close>

fun split_slashes :: "jsstring \<Rightarrow> jsstring list" where
  "split_slashes [] = [[]]"
| "split_slashes (c # s) =
     (if c = 47
      then (if s \<noteq> [] \<and> hd s = 47 then split_slashes s else [] # split_slashes s)
      else (c # hd (split_slashes s)) # tl (split_slashes s))"

definition parseNegate :: "minimatch_object \<Rightarrow> minimatch_object" where
  "parseNegate mm =
     (if opt (mm_options mm) Nonegate then mm
      else
        let negateOffset = length (takeWhile (\<lambda>c. c = 33) (mm_pattern mm))
        in mm\<lparr>mm_pattern := drop negateOffset (mm_pattern mm), mm_negate := odd negateOffset\<rparr>)"

text \<open>\<open>pattern.match(/\{.*\}/)\<close>.\<close>

fun has_braces :: "jsstring \<Rightarrow> bool" where
  "has_braces [] = False"
| "has_braces (c # s) =
     (c = 123 \<and> 125 \<in> set (takeWhile (\<lambda>d. \<not> re_line_terminator d) s) \<or> has_braces s)"

definition braceExpand :: "brace_tokens \<Rightarrow> jsstring \<Rightarrow> options \<Rightarrow> glob_error + jsstring list" where
  "braceExpand tk pattern os =
     (if opt os Nobrace \<or> \<not> has_braces pattern then Inr [pattern]
      else case expandTop tk pattern of Inl e \<Rightarrow> Inl (Braces e) | Inr ps \<Rightarrow> Inr ps)"

fun map_js :: "('a \<Rightarrow> 'e + 'b) \<Rightarrow> 'a list \<Rightarrow> 'e + 'b list" where
  "map_js f [] = Inr []"
| "map_js f (x # xs) = bind_js (f x) (\<lambda>y. bind_js (map_js f xs) (\<lambda>ys. Inr (y # ys)))"

definition mm_make :: "brace_tokens \<Rightarrow> minimatch_object \<Rightarrow> glob_error + minimatch_object" where
  "mm_make tk mm =
     (if \<not> opt (mm_options mm) Nocomment \<and> take 1 (mm_pattern mm) = [35] then Inr (mm\<lparr>mm_comment := True\<rparr>)
      else if mm_pattern mm = [] then Inr (mm\<lparr>mm_empty := True\<rparr>)
      else
        let mm1 = parseNegate mm
        in bind_js (braceExpand tk (mm_pattern mm1) (mm_options mm1)) (\<lambda>globSet.
             let globParts = map split_slashes globSet
             in bind_js (map_js (map_js (glob_parse (mm_options mm1))) globParts) (\<lambda>set1.
                  Inr (mm1\<lparr>mm_set := filter (\<lambda>s. FalsePart \<notin> set s) set1\<rparr>))))"

text \<open>A pattern argument that is no string is \<open>None\<close>.\<close>

definition Minimatch :: "brace_tokens \<Rightarrow> jsstring option \<Rightarrow> options \<Rightarrow> glob_error + minimatch_object" where
  "Minimatch tk pattern os =
     (case pattern of
        None \<Rightarrow> Inl NotAString
      | Some p \<Rightarrow>
          mm_make tk \<lparr>mm_options = os, mm_set = [], mm_pattern = trim p, mm_regexp = Null,
                   mm_negate = False, mm_comment = False, mm_empty = False\<rparr>)"

section \<open>Matching\<close>

text \<open>The case tables: \<open>toLowerCase\<close>, and the canonical unit of an expression with flag \<open>i\<close>.\<close>

record case_tables =
  toLowerCase :: "jsstring \<Rightarrow> jsstring"
  canonicalize :: "code_unit \<Rightarrow> code_unit"

definition part_hit :: "case_tables \<Rightarrow> options \<Rightarrow> jsstring \<Rightarrow> part \<Rightarrow> bool" where
  "part_hit tab os f p \<longleftrightarrow>
     (case p of
        Text t \<Rightarrow> if opt os Nocase then toLowerCase tab f = toLowerCase tab t else f = t
      | Pattern e src i \<Rightarrow> re_test (if i then canonicalize tab else (\<lambda>c. c)) e f
      | _ \<Rightarrow> False)"

definition unswallowable :: "options \<Rightarrow> jsstring \<Rightarrow> bool" where
  "unswallowable os f \<longleftrightarrow> f = [46] \<or> f = [46, 46] \<or> \<not> opt os DotOpt \<and> take 1 f = [46]"

text \<open>The loop of a \<open>**\<close> with more pattern behind it; \<open>rest\<close> is \<open>matchOne\<close> on that pattern.\<close>

fun swallow :: "(jsstring list \<Rightarrow> bool) \<Rightarrow> options \<Rightarrow> bool \<Rightarrow> jsstring list \<Rightarrow> bool" where
  "swallow rest os partial [] = partial"
| "swallow rest os partial (f # fs) =
     (if rest (f # fs) then True
      else if unswallowable os f then False
      else swallow rest os partial fs)"

fun matchOne :: "case_tables \<Rightarrow> options \<Rightarrow> bool \<Rightarrow> jsstring list \<Rightarrow> part list \<Rightarrow> bool" where
  "matchOne tab os partial [] [] = True"
| "matchOne tab os partial [] (p # ps) = partial"
| "matchOne tab os partial (f # fs) [] = (fs = [] \<and> f = [])"
| "matchOne tab os partial (f # fs) (p # ps) =
     (case p of
        FalsePart \<Rightarrow> False
      | GLOBSTAR \<Rightarrow>
          if ps = [] then \<not> list_ex (unswallowable os) (f # fs)
          else swallow (\<lambda>gs. matchOne tab os partial gs ps) os partial (f # fs)
      | _ \<Rightarrow> part_hit tab os f p \<and> matchOne tab os partial fs ps)"

text \<open>The last portion that is not empty, or else the first one.\<close>

fun base_name :: "jsstring list \<Rightarrow> jsstring" where
  "base_name [] = []"
| "base_name (f # fs) = (if list_ex (\<lambda>g. g \<noteq> []) fs then base_name fs else f)"

definition match :: "case_tables \<Rightarrow> minimatch_object \<Rightarrow> jsstring \<Rightarrow> bool \<Rightarrow> bool" where
  "match tab mm f partial =
     (if mm_comment mm then False
      else if mm_empty mm then f = []
      else if f = [47] \<and> partial then True
      else
        let os = mm_options mm; fs = split_slashes f;
            hit = list_ex (\<lambda>pattern.
              matchOne tab os partial
                (if opt os MatchBase \<and> length pattern = 1 then [base_name fs] else fs) pattern) (mm_set mm)
        in if hit then opt os FlipNegate \<or> \<not> mm_negate mm
           else \<not> opt os FlipNegate \<and> mm_negate mm)"

definition minimatch ::
  "brace_tokens \<Rightarrow> case_tables \<Rightarrow> jsstring \<Rightarrow> jsstring option \<Rightarrow> options \<Rightarrow> glob_error + bool" where
  "minimatch tk tab p pattern os =
     (case pattern of
        None \<Rightarrow> Inl NotAString
      | Some g \<Rightarrow>
          if \<not> opt os Nocomment \<and> take 1 g = [35] then Inr False
          else if trim g = [] then Inr (p = [])
          else bind_js (Minimatch tk pattern os) (\<lambda>mm. Inr (match tab mm p False)))"

text \<open>\<open>minimatch.filter\<close> gives the predicate for \<open>Array.prototype.filter\<close>.\<close>

definition glob_filter ::
  "brace_tokens \<Rightarrow> case_tables \<Rightarrow> jsstring option \<Rightarrow> options \<Rightarrow> jsstring \<Rightarrow> glob_error + bool" where
  "glob_filter tk tab pattern os p = minimatch tk tab p pattern os"

definition match_list ::
  "brace_tokens \<Rightarrow> case_tables \<Rightarrow> jsstring list \<Rightarrow> jsstring \<Rightarrow> options \<Rightarrow> glob_error + jsstring list" where
  "match_list tk tab list1 pattern os =
     bind_js (Minimatch tk (Some pattern) os) (\<lambda>mm.
       let list2 = filter (\<lambda>f. match tab mm f False) list1
       in Inr (if opt (mm_options mm) Nonull \<and> list2 = [] then list2 @ [pattern] else list2))"

text \<open>\<open>minimatch.defaults(def)\<close>: the function it returns and that function's \<open>Minimatch\<close>.  The
  function calls \<open>orig.minimatch\<close>, a property that nothing in the bundle sets.\<close>

definition defaults ::
  "brace_tokens \<Rightarrow> case_tables \<Rightarrow> options \<Rightarrow> jsstring \<Rightarrow> jsstring option \<Rightarrow> options \<Rightarrow> glob_error + bool" where
  "defaults tk tab def1 p pattern os =
     (if def1 = [] then minimatch tk tab p pattern os else Inl NotAFunction)"

definition defaults_Minimatch ::
  "brace_tokens \<Rightarrow> options \<Rightarrow> jsstring option \<Rightarrow> options \<Rightarrow> glob_error + minimatch_object" where
  "defaults_Minimatch tk def1 pattern os =
     (if def1 = [] then Minimatch tk pattern os else Minimatch tk pattern (ext def1 os))"

section \<open>One expression for whole paths\<close>

definition part_source :: "options \<Rightarrow> part \<Rightarrow> jsstring" where
  "part_source os p =
     (case p of
        GLOBSTAR \<Rightarrow> if opt os Noglobstar then star else if opt os DotOpt then twoStarDot else twoStarNoDot
      | Text t \<Rightarrow> regExpEscape t
      | Pattern e src i \<Rightarrow> (case src of None \<Rightarrow> [] | Some r \<Rightarrow> r)
      | FalsePart \<Rightarrow> [])"

definition makeRe :: "minimatch_object \<Rightarrow> glob_error + minimatch_object \<times> cached_regexp" where
  "makeRe mm =
     (if mm_regexp mm \<noteq> Null then Inr (mm, mm_regexp mm)
      else if mm_set mm = [] then Inr (mm\<lparr>mm_regexp := NoRegexp\<rparr>, NoRegexp)
      else
        let os = mm_options mm;
            re1 = join (map (\<lambda>pattern. join (map (part_source os) pattern) [92, 47]) (mm_set mm)) [124];
            re2 = js ''^(?:'' @ re1 @ js '')$'';
            re3 = (if mm_negate mm then js ''^(?!'' @ re2 @ js '').*$'' else re2)
        in case regexp re3 of
             Inl Unsupported \<Rightarrow> Inl ReUnsupported
           | Inl SyntaxError \<Rightarrow> Inr (mm\<lparr>mm_regexp := NoRegexp\<rparr>, NoRegexp)
           | Inr e \<Rightarrow> Inr (mm\<lparr>mm_regexp := Cached e (opt os Nocase)\<rparr>, Cached e (opt os Nocase)))"

end
