(* ===== verification/Minimatch_Match.thy ===== *)
theory Minimatch_Match
  imports Minimatch
begin

text \<open>
  What matching means: a reference for \<open>matchOne\<close> by the ways a path can be cut along a pattern,
  the use of partial matches to prune a traversal, the laws of options and negation.
\<close>

section \<open>A reference for \<open>matchOne\<close>\<close>

text \<open>\<open>covers stars hit free ps fs\<close>: the portions \<open>fs\<close> of a path are cut into one portion per item of
  the pattern, and any number of portions that do not begin with a dot per \<open>**\<close>, at least one
  when it is the last item.\<close>

inductive covers :: "('p \<Rightarrow> bool) \<Rightarrow> (jsstring \<Rightarrow> 'p \<Rightarrow> bool) \<Rightarrow> (jsstring \<Rightarrow> bool) \<Rightarrow> 'p list \<Rightarrow> jsstring list \<Rightarrow> bool"
  for stars hit free where
  none: "covers stars hit free [] []"
| one: "\<not> stars p \<Longrightarrow> hit f p \<Longrightarrow> covers stars hit free ps fs \<Longrightarrow> covers stars hit free (p # ps) (f # fs)"
| many: "stars p \<Longrightarrow> list_all free gs \<Longrightarrow> ps \<noteq> [] \<or> gs \<noteq> [] \<Longrightarrow> covers stars hit free ps fs
    \<Longrightarrow> covers stars hit free (p # ps) (gs @ fs)"

inductive_simps covers_Nil: "covers stars hit free [] fs"
inductive_simps covers_Cons: "covers stars hit free (p # ps) fs"

abbreviation is_globstar :: "part \<Rightarrow> bool" where
  "is_globstar p \<equiv> p = GLOBSTAR"

lemma swallow_iff:
  "swallow rest os False fs
   \<longleftrightarrow> (\<exists>gs hs. fs = gs @ hs \<and> hs \<noteq> [] \<and> list_all (\<lambda>f. \<not> unswallowable os f) gs \<and> rest hs)"
proof (induction fs)
  case Nil
  then show ?case by simp
next
  case (Cons f fs)
  have split: "(\<exists>gs hs. f # fs = gs @ hs \<and> hs \<noteq> [] \<and> list_all (\<lambda>f. \<not> unswallowable os f) gs \<and> rest hs)
      \<longleftrightarrow> rest (f # fs) \<or> \<not> unswallowable os f \<and> (\<exists>gs hs. fs = gs @ hs \<and> hs \<noteq> []
            \<and> list_all (\<lambda>f. \<not> unswallowable os f) gs \<and> rest hs)" (is "?L \<longleftrightarrow> ?R")
  proof
    assume ?L
    then obtain gs hs where "f # fs = gs @ hs" "hs \<noteq> []"
      "list_all (\<lambda>f. \<not> unswallowable os f) gs" "rest hs" by blast
    then show ?R by (cases gs) auto
  next
    assume ?R
    then show ?L
    proof
      assume "rest (f # fs)"
      then show ?L by (intro exI [of _ "[]"] exI [of _ "f # fs"]) simp
    next
      assume "\<not> unswallowable os f \<and> (\<exists>gs hs. fs = gs @ hs \<and> hs \<noteq> []
            \<and> list_all (\<lambda>f. \<not> unswallowable os f) gs \<and> rest hs)"
      then obtain gs hs where "\<not> unswallowable os f" "fs = gs @ hs" "hs \<noteq> []"
        "list_all (\<lambda>f. \<not> unswallowable os f) gs" "rest hs" by blast
      then show ?L by (intro exI [of _ "f # gs"] exI [of _ hs]) simp
    qed
  qed
  show ?case unfolding split using Cons by simp
qed

text \<open>An empty last portion, the trace of a trailing slash, may be left over.\<close>

definition trimmed :: "jsstring list \<Rightarrow> jsstring list \<Rightarrow> bool" where
  "trimmed fs gs \<longleftrightarrow> fs = gs \<or> fs = gs @ [[]]"

lemma matchOne_Nil: "matchOne tab os False fs [] \<longleftrightarrow> (\<exists>gs. trimmed fs gs \<and> gs = [])"
  by (cases fs) (auto simp: trimmed_def)

lemma free_empty: "\<not> unswallowable os []"
  by (simp add: unswallowable_def)

lemma matchOne_last_globstar:
  "matchOne tab os False fs [GLOBSTAR] \<longleftrightarrow> fs \<noteq> [] \<and> list_all (\<lambda>f. \<not> unswallowable os f) fs"
  by (cases fs) (auto simp: list_ex_iff list_all_iff)

lemma matchOne_globstar:
  assumes "ps \<noteq> []"
  shows "matchOne tab os False fs (GLOBSTAR # ps) \<longleftrightarrow> (\<exists>gs hs. fs = gs @ hs \<and>
    list_all (\<lambda>f. \<not> unswallowable os f) gs \<and> matchOne tab os False hs ps)"
proof -
  have "\<not> matchOne tab os False [] ps" using assms by (cases ps) auto
  then have *: "swallow (\<lambda>gs. matchOne tab os False gs ps) os False fs \<longleftrightarrow> (\<exists>gs hs. fs = gs @ hs \<and>
    list_all (\<lambda>f. \<not> unswallowable os f) gs \<and> matchOne tab os False hs ps)"
    unfolding swallow_iff by metis
  show ?thesis
    using assms \<open>\<not> matchOne tab os False [] ps\<close> * by (cases fs) auto
qed

lemma matchOne_item:
  assumes "p \<noteq> GLOBSTAR"
  shows "matchOne tab os False fs (p # ps) \<longleftrightarrow>
    (\<exists>f gs. fs = f # gs \<and> part_hit tab os f p \<and> matchOne tab os False gs ps)"
  using assms by (cases fs; cases p) (auto simp: part_hit_def)

lemma matchOne_covers:
  "matchOne tab os False fs ps \<longleftrightarrow>
     (\<exists>gs. trimmed fs gs \<and> covers is_globstar (part_hit tab os) (\<lambda>f. \<not> unswallowable os f) ps gs)"
proof (induction ps arbitrary: fs)
  case Nil
  then show ?case by (simp add: matchOne_Nil covers_Nil)
next
  case (Cons p ps)
  let ?free = "\<lambda>f. \<not> unswallowable os f"
  let ?cov = "covers is_globstar (part_hit tab os) ?free"
  consider "p \<noteq> GLOBSTAR" | "p = GLOBSTAR" "ps = []" | "p = GLOBSTAR" "ps \<noteq> []" by blast
  then show ?case
  proof cases
    case 1
    show ?thesis
      unfolding matchOne_item [OF 1] Cons
      using 1 by (auto simp: covers_Cons trimmed_def) (metis append_Cons)+
  next
    case 2
    then show ?thesis
      by (auto simp: matchOne_last_globstar covers_Cons covers_Nil trimmed_def free_empty)
  next
    case 3
    show ?thesis
      unfolding \<open>p = GLOBSTAR\<close> matchOne_globstar [OF \<open>ps \<noteq> []\<close>] Cons
    proof
      assume "\<exists>gs hs. fs = gs @ hs \<and> list_all ?free gs \<and> (\<exists>gs. trimmed hs gs \<and> ?cov ps gs)"
      then obtain gs hs ks where "fs = gs @ hs" "list_all ?free gs" "trimmed hs ks" "?cov ps ks" by blast
      then show "\<exists>gs. trimmed fs gs \<and> ?cov (GLOBSTAR # ps) gs"
        using covers.many [OF refl \<open>list_all ?free gs\<close> disjI1 [OF \<open>ps \<noteq> []\<close>] \<open>?cov ps ks\<close>]
        by (auto simp: trimmed_def)
    next
      assume "\<exists>gs. trimmed fs gs \<and> ?cov (GLOBSTAR # ps) gs"
      then obtain ks where ks: "trimmed fs ks" "?cov (GLOBSTAR # ps) ks" by blast
      from ks(2) obtain gs hs where "ks = gs @ hs" "list_all ?free gs" "?cov ps hs"
        by (auto simp: covers_Cons)
      then show "\<exists>gs hs. fs = gs @ hs \<and> list_all ?free gs \<and> (\<exists>gs. trimmed hs gs \<and> ?cov ps gs)"
        using ks(1) by (auto simp: trimmed_def)
    qed
  qed
qed

section \<open>Partial matches\<close>

lemma swallow_partial:
  "swallow rest os True fs \<longleftrightarrow>
     list_all (\<lambda>f. \<not> unswallowable os f) fs \<or> swallow rest os False fs"
  by (induction fs) auto

lemma matchOne_partial:
  "matchOne tab os False (fs @ gs) ps \<Longrightarrow> matchOne tab os True fs ps"
proof (induction ps arbitrary: fs)
  case Nil
  then show ?case by (cases fs; cases gs) auto
next
  case (Cons p ps)
  let ?free = "\<lambda>f. \<not> unswallowable os f"
  show ?case
  proof (cases fs)
    case Nil
    then show ?thesis by simp
  next
    case fs: (Cons f fs')
    consider "p \<noteq> GLOBSTAR" | "p = GLOBSTAR" "ps = []" | "p = GLOBSTAR" "ps \<noteq> []" by blast
    then show ?thesis
    proof cases
      case 1
      then have "part_hit tab os f p \<and> matchOne tab os False (fs' @ gs) ps"
        using Cons.prems unfolding matchOne_item [OF 1] by (auto simp: fs)
      then show ?thesis
        using 1 Cons.IH [of fs'] by (cases p) (auto simp: fs part_hit_def)
    next
      case 2
      then show ?thesis
        using Cons.prems by (simp add: fs)
    next
      case 3
      then obtain ks hs where kh: "fs @ gs = ks @ hs" "list_all ?free ks" "matchOne tab os False hs ps"
        using Cons.prems unfolding \<open>p = GLOBSTAR\<close> matchOne_globstar [OF 3(2)] by blast
      from kh(1) obtain us where us: "fs = ks @ us \<and> us @ gs = hs \<or> fs @ us = ks \<and> gs = us @ hs"
        by (auto simp: append_eq_append_conv2)
      have "swallow (\<lambda>gs. matchOne tab os True gs ps) os True fs"
        unfolding swallow_partial swallow_iff using us kh Cons.IH [of us]
        by (cases "us = []") auto
      then show ?thesis using 3 by (simp add: fs)
    qed
  qed
qed

lemma split_slashes_neq_Nil [simp]: "split_slashes s \<noteq> []"
  by (induction s rule: split_slashes.induct) auto

lemma split_slashes_append:
  assumes "s = [] \<or> last s \<noteq> 47" "r = [] \<or> hd r \<noteq> 47"
  shows "split_slashes (s @ 47 # r) = split_slashes s @ split_slashes r"
  using assms(1)
proof (induction s)
  case Nil
  then show ?case using assms(2) by auto
next
  case (Cons c s)
  then have IH: "split_slashes (s @ 47 # r) = split_slashes s @ split_slashes r"
    by (cases s) auto
  have "c = 47 \<Longrightarrow> s \<noteq> []" using Cons.prems by auto
  with IH show ?case by auto
qed

text \<open>
  Claim C30: a traversal may prune by partial matches.  When a path below a directory matches a
  pattern that is not negated, then the directory matches in partial mode, so that a walk that
  descends only into such directories misses nothing.
\<close>

theorem partial_match_prunes_soundly:
  assumes "match tab mm (dir @ 47 # rest) False"
    and "dir = [] \<or> last dir \<noteq> 47" and "rest = [] \<or> hd rest \<noteq> 47"
    and "opt (mm_options mm) FlipNegate \<or> \<not> mm_negate mm"
    and "\<not> opt (mm_options mm) MatchBase"
  shows "match tab mm dir True"
proof (cases "dir = [47]")
  case False
  have "\<exists>ps\<in>set (mm_set mm). matchOne tab (mm_options mm) False (split_slashes dir @ split_slashes rest) ps"
    using assms by (auto simp: match_def Let_def split_slashes_append list_ex_iff split: if_splits)
  then have "\<exists>ps\<in>set (mm_set mm). matchOne tab (mm_options mm) True (split_slashes dir) ps"
    using matchOne_partial by blast
  then show ?thesis
    using assms by (auto simp: match_def Let_def list_ex_iff split: if_splits)
qed (use assms(2) in simp)

text \<open>
  Claim C8: \<open>matchOne\<close> decides the reference: a path matches a pattern iff its portions, up to the
  empty one of a trailing slash, can be cut into one hit per item and a run without dot files per
  \<open>**\<close>.  The search of the code for the length of each run is complete.
\<close>

theorem matchOne_decides_covers:
  "matchOne tab os False fs ps \<longleftrightarrow>
     (\<exists>gs. trimmed fs gs \<and> covers is_globstar (part_hit tab os) (\<lambda>f. \<not> unswallowable os f) ps gs)"
  by (rule matchOne_covers)

section \<open>Every pattern is translated\<close>

text \<open>While a class is open its start lies before the current position.\<close>

definition class_before :: "nat \<Rightarrow> parse_state \<Rightarrow> bool" where
  "class_before i st \<longleftrightarrow> (ps_inClass st \<longrightarrow> 0 \<le> ps_classStart st \<and> ps_classStart st < int i)"

lemma emit_re_simps [simp]:
  "ps_re (emit_re t st) = ps_re st @ t"
  "ps_inClass (emit_re t st) = ps_inClass st" "ps_classStart (emit_re t st) = ps_classStart st"
  "ps_hasMagic (emit_re t st) = ps_hasMagic st" "ps_escaping (emit_re t st) = ps_escaping st"
  "ps_stateChar (emit_re t st) = ps_stateChar st" "ps_lists (emit_re t st) = ps_lists st"
  "ps_negative (emit_re t st) = ps_negative st"
  by (simp_all add: emit_re_def)

lemma clearStateChar_simps [simp]:
  "ps_inClass (clearStateChar st) = ps_inClass st" "ps_classStart (clearStateChar st) = ps_classStart st"
  "ps_escaping (clearStateChar st) = ps_escaping st" "ps_lists (clearStateChar st) = ps_lists st"
  "ps_stateChar (clearStateChar st) = None" "ps_negative (clearStateChar st) = ps_negative st"
  by (simp_all add: clearStateChar_def split: option.split)

lemma class_before_handlers:
  assumes "class_before i st"
  shows "class_before (Suc i) (on_state_char os i c st)"
    "class_before (Suc i) (on_open_paren st)" "class_before (Suc i) (on_close_paren st)"
    "class_before (Suc i) (on_pipe st)" "class_before (Suc i) (on_open_class i st)"
    "class_before (Suc i) (on_other c st)"
    "class_before (Suc i) ((emit_re t st)\<lparr>ps_escaping := False\<rparr>)"
    "class_before (Suc i) ((clearStateChar st)\<lparr>ps_escaping := True\<rparr>)"
  using assms
  by (auto simp: class_before_def on_state_char_def on_open_paren_def on_close_paren_def on_pipe_def
      on_open_class_def on_other_def Let_def split: option.split)

lemma class_before_close:
  "class_before i st \<Longrightarrow> on_close_class sub pattern i st = Inr st' \<Longrightarrow> class_before (Suc i) st'"
  by (auto simp: class_before_def on_close_class_def Let_def bind_js_Inr
      split: if_splits sum.splits re_problem.splits)

lemma class_before_char:
  "class_before i st \<Longrightarrow> parse_char os sub pattern i c st = Inr st' \<Longrightarrow> class_before (Suc i) st'"
  by (auto simp: parse_char_def class_before_handlers class_before_close split: if_splits)

lemma substring_shorter:
  assumes "0 < a" "a \<le> i" "i < length s"
  shows "length (substring s a i) < length s"
  using assms by (simp add: substring_def slice_def Let_def)

lemma parse_char_NoFuel:
  assumes "class_before i st" "i < length pattern" "parse_char os sub pattern i c st = Inl NoFuel"
  shows "\<exists>cs. length cs < length pattern \<and> sub cs = Inl NoFuel"
proof -
  let ?a = "nat (ps_classStart st + 1)"
  have close: "on_close_class sub pattern i st = Inl NoFuel"
    using assms(3) by (auto simp: parse_char_def split: if_splits)
  then have "ps_inClass st" by (auto simp: on_close_class_def split: if_splits)
  then have "0 < ?a" "?a \<le> i" using assms(1) by (auto simp: class_before_def)
  then have "length (substring pattern ?a i) < length pattern"
    using assms(2) by (rule substring_shorter)
  moreover have "sub (substring pattern ?a i) = Inl NoFuel"
    using close by (auto simp: on_close_class_def Let_def bind_js_Inl
        split: if_splits sum.splits re_problem.splits)
  ultimately show ?thesis by blast
qed

lemma parse_chars_class:
  assumes "class_before i st" "parse_chars os sub pattern i s st = Inr st'"
  shows "class_before (i + length s) st'"
  using assms
proof (induction s arbitrary: i st)
  case (Cons c s)
  then obtain st1 where "parse_char os sub pattern i c st = Inr st1"
    "parse_chars os sub pattern (Suc i) s st1 = Inr st'" by (auto simp: bind_js_Inr)
  with Cons.IH [of "Suc i" st1] Cons.prems(1) show ?case
    using class_before_char by simp
qed simp

lemma parse_chars_NoFuel:
  assumes "class_before i st" "i + length s \<le> length pattern"
    "parse_chars os sub pattern i s st = Inl NoFuel"
  shows "\<exists>cs. length cs < length pattern \<and> sub cs = Inl NoFuel"
  using assms
proof (induction s arbitrary: i st)
  case (Cons c s)
  then consider "parse_char os sub pattern i c st = Inl NoFuel"
    | st1 where "parse_char os sub pattern i c st = Inr st1"
      "parse_chars os sub pattern (Suc i) s st1 = Inl NoFuel"
    by (auto simp: bind_js_Inl)
  then show ?case
  proof cases
    case 1
    with Cons.prems show ?thesis by (intro parse_char_NoFuel) auto
  next
    case 2
    with Cons.prems class_before_char [OF Cons.prems(1) 2(1)] show ?thesis
      by (intro Cons.IH [of "Suc i" st1]) auto
  qed
qed simp

lemma parse_result_NoFuel: "parse_result os isSub pattern m r \<noteq> Inl NoFuel"
  by (auto simp: parse_result_def split: sum.split re_problem.split)

lemma parse_fuel_enough: "length pattern < n \<Longrightarrow> parse_fuel n os isSub pattern \<noteq> Inl NoFuel"
proof (induction n arbitrary: isSub pattern)
  case (Suc n)
  let ?sub = "parse_fuel n os True"
  have sub: "\<not> (\<exists>cs. length cs < length pattern \<and> ?sub cs = Inl NoFuel)"
    using Suc by (meson less_trans_Suc not_less_eq order_less_le_trans less_Suc_eq_le)
  have init: "class_before 0 (parse_init os)" by (simp add: class_before_def parse_init_def)
  let ?run = "parse_chars os ?sub pattern 0 pattern (parse_init os)"
  have run: "?run \<noteq> Inl NoFuel" using parse_chars_NoFuel [OF init, of pattern pattern os ?sub] sub by auto
  have close: "close_class ?sub pattern st \<noteq> Inl NoFuel" if "?run = Inr st" for st
  proof
    assume c: "close_class ?sub pattern st = Inl NoFuel"
    let ?cs = "drop (nat (ps_classStart st + 1)) pattern"
    have "ps_inClass st" and e: "?sub ?cs = Inl NoFuel"
      using c by (auto simp: close_class_def bind_js_Inl split: if_splits)
    then have "0 \<le> ps_classStart st" "ps_classStart st < int (length pattern)"
      using parse_chars_class [OF init that] by (auto simp: class_before_def)
    then have "length ?cs < length pattern" by auto
    with e sub show False by blast
  qed
  show ?case
  proof (cases ?run)
    case (Inl e)
    then show ?thesis using run by (cases e) (auto simp: parse_fuel.simps)
  next
    case (Inr st)
    show ?thesis
      using Inr close [OF Inr]
      by (auto simp: parse_fuel.simps parse_result_NoFuel Let_def split: sum.splits)
  qed
qed simp

lemma parse_fuel_Part: "parse_fuel n os False pattern \<noteq> Inr (SubPair r m)"
  by (cases n) (auto simp: parse_fuel.simps parse_result_def Let_def
      split: sum.splits glob_error.splits if_splits re_problem.splits)

text \<open>
  Claim C31: the translation of a path portion ends for every text, however classes are nested or
  left open: the recursive calls of \<open>parse\<close> are on shorter and shorter texts.
\<close>

theorem parse_ends: "glob_parse os pattern \<noteq> Inl NoFuel"
  using parse_fuel_enough [of pattern "Suc (length pattern)" os False]
  by (auto simp: glob_parse_def bind_js_Inl parse_fuel_Part split: parsed.splits)

definition plain_tables :: case_tables where
  "plain_tables = \<lparr>toLowerCase = \<lambda>s. s, canonicalize = \<lambda>c. c\<rparr>"

lemma partial_match_prunes_soundly_witness:
  "\<exists>mm. Minimatch (make_tokens [48] [49] [50] [51] [52]) (Some (js ''a/**/b'')) [] = Inr mm \<and>
     match plain_tables mm (js ''a'' @ 47 # js ''x/b'') False \<and> match plain_tables mm (js ''a'') True"
proof -
  let ?mm = "\<lparr>mm_options = [], mm_set = [[Text (js ''a''), GLOBSTAR, Text (js ''b'')]],
     mm_pattern = js ''a/**/b'', mm_regexp = Null, mm_negate = False, mm_comment = False, mm_empty = False\<rparr>"
  have mm: "Minimatch (make_tokens [48] [49] [50] [51] [52]) (Some (js ''a/**/b'')) [] = Inr ?mm"
    by code_simp
  have full: "match plain_tables ?mm (js ''a'' @ 47 # js ''x/b'') False" by code_simp
  have "match plain_tables ?mm (js ''a'') True"
    by (rule partial_match_prunes_soundly [OF full]) (simp_all add: js_def opt_def)
  with mm full show ?thesis by blast
qed

section \<open>Negation and options\<close>

lemma trim_idem: "trim p = p \<Longrightarrow> p \<noteq> [] \<Longrightarrow> \<not> white_space (last p)"
  by (metis trim_def hd_dropWhile hd_rev last_rev dropWhile_eq_Nil_conv rev_is_Nil_conv)

lemma trim_bang:
  assumes "trim p = p" "p \<noteq> []"
  shows "trim (33 # p) = 33 # p"
proof -
  have "\<not> white_space 33" by (simp add: white_space_def)
  moreover have "\<not> white_space (hd (rev p @ [33]))"
    using trim_idem [OF assms] assms(2) by (simp add: hd_append hd_rev)
  ultimately show ?thesis
    by (simp add: trim_def) (metis append_is_Nil_conv dropWhile.simps(2) list.collapse rev.simps(2) rev_swap not_Cons_self2)
qed

text \<open>
  Claim C32: negation complements.  A pattern with one more exclamation mark in front matches
  exactly the paths that the pattern itself does not match.
\<close>

theorem negation_complements:
  assumes "Minimatch tk (Some p) os = Inr mm" "Minimatch tk (Some (33 # p)) os = Inr mm'"
    and "trim p = p" "p \<noteq> []" "hd p \<noteq> 35"
    and "\<not> opt os Nonegate" "\<not> opt os FlipNegate"
  shows "match tab mm' f False \<longleftrightarrow> \<not> match tab mm f False"
proof -
  let ?new = "\<lambda>q. \<lparr>mm_options = os, mm_set = [], mm_pattern = q, mm_regexp = Null,
      mm_negate = False, mm_comment = False, mm_empty = False\<rparr>"
  have "take 1 p \<noteq> [35]" using assms(4,5) by (cases p) auto
  then have p: "mm_make tk (?new p) = Inr mm" "mm_make tk (?new (33 # p)) = Inr mm'"
    using assms by (simp_all add: Minimatch_def trim_bang)
  have n: "parseNegate (?new (33 # p)) = (parseNegate (?new p))\<lparr>mm_negate := \<not> mm_negate (parseNegate (?new p))\<rparr>"
    using assms(6) by (simp add: parseNegate_def Let_def)
  have eq: "mm' = mm\<lparr>mm_negate := \<not> mm_negate mm\<rparr> \<and> mm_options mm = os \<and> \<not> mm_comment mm \<and> \<not> mm_empty mm"
    using p \<open>take 1 p \<noteq> [35]\<close> assms(4,6)
    by (auto simp: mm_make_def n bind_js_Inr Let_def parseNegate_def split: if_splits)
  then show ?thesis using assms(7) by (auto simp: match_def Let_def)
qed

lemma negation_complements_witness:
  "\<exists>mm mm'. Minimatch (make_tokens [48] [49] [50] [51] [52]) (Some (js ''a'')) [] = Inr mm
     \<and> Minimatch (make_tokens [48] [49] [50] [51] [52]) (Some (js ''!a'')) [] = Inr mm'
     \<and> (match plain_tables mm' (js ''b'') False \<longleftrightarrow> \<not> match plain_tables mm (js ''b'') False)"
proof -
  let ?tk = "make_tokens [48] [49] [50] [51] [52]"
  have s: "js ''!a'' = 33 # js ''a''" by (simp add: js_def)
  have "\<not> isl (Minimatch ?tk (Some (js ''a'')) []) \<and> \<not> isl (Minimatch ?tk (Some (33 # js ''a'')) [])"
    by code_simp
  then obtain mm mm' where mm: "Minimatch ?tk (Some (js ''a'')) [] = Inr mm"
    "Minimatch ?tk (Some (33 # js ''a'')) [] = Inr mm'"
    by (auto simp: isl_def) (metis sum.exhaust)
  moreover have "match plain_tables mm' (js ''b'') False \<longleftrightarrow> \<not> match plain_tables mm (js ''b'') False"
    by (rule negation_complements [OF mm]) code_simp+
  ultimately show ?thesis unfolding s by blast
qed




end
