(* ===== verification/Minimatch_Wild.thy ===== *)
theory Minimatch_Wild
  imports Minimatch_Match
begin

text \<open>
  The translation of patterns made of ordinary characters, \<open>*\<close> and \<open>?\<close> against a reference
  matcher that knows nothing of regular expressions, and the consequence for whole patterns.
\<close>

section \<open>Facts about the matcher\<close>

text \<open>The saturation loop computes the reflexive and transitive closure.\<close>

lemma closed_rtrancl_Image:
  assumes "\<forall>a\<in>S. set (f a) \<subseteq> S"
  shows "{(a, b). b \<in> set (f a)}\<^sup>* `` S = S"
proof -
  have "b \<in> S" if "(a, b) \<in> {(a, b). b \<in> set (f a)}\<^sup>*" "a \<in> S" for a b
    using that by (induction rule: rtrancl_induct) (use assms in auto)
  then show ?thesis by auto
qed

lemma rtrancl_Image_step:
  "R\<^sup>* `` (S \<union> R `` S) = R\<^sup>* `` S"
  by (auto intro: converse_rtrancl_into_rtrancl)

declare reach.simps(2) [simp del]

lemma reach_closure:
  assumes "distinct ps" "set ps \<subseteq> {..N}" "\<forall>a\<le>N. set (f a) \<subseteq> {..N}" "Suc N < n + length ps"
  shows "set (reach n f ps) = {(a, b). b \<in> set (f a)}\<^sup>* `` set ps"
  using assms(1,2,4)
proof (induction n arbitrary: ps)
  case 0
  have "length ps \<le> card {..N}" using 0 by (metis card_mono distinct_card finite_atMost)
  with 0 show ?case by simp
next
  case (Suc n)
  let ?R = "{(a, b). b \<in> set (f a)}"
  let ?qs = "remdups (ps @ concat (map f ps))"
  have qs: "set ?qs = set ps \<union> ?R `` set ps" by auto
  have len: "length ps = card (set ps)" "length ?qs = card (set ?qs)"
    using Suc.prems(1) by (simp_all add: distinct_card length_remdups_card_conv)
  have sub: "set ?qs \<subseteq> {..N}" using Suc.prems(2) assms(3) by (auto simp: subset_iff)
  show ?case
  proof (cases "length ?qs = length ps")
    case True
    then have "set ?qs = set ps"
      using len qs by (metis List.finite_set Un_upper1 card_subset_eq)
    then have "\<forall>a\<in>set ps. set (f a) \<subseteq> set ps" using qs by auto
    then have "?R\<^sup>* `` set ps = set ps" by (rule closed_rtrancl_Image)
    with True show ?thesis unfolding reach.simps Let_def by (simp only: if_True refl)
  next
    case False
    have "length ps \<le> length ?qs" unfolding len qs by (intro card_mono) (auto simp: qs [symmetric])
    with False have "Suc N < n + length ?qs" using Suc.prems(3) by linarith
    then have "set (reach n f ?qs) = ?R\<^sup>* `` set ?qs" by (rule Suc.IH [OF distinct_remdups sub])
    also have "\<dots> = ?R\<^sup>* `` set ps" unfolding qs by (rule rtrancl_Image_step)
    finally show ?thesis using False unfolding reach.simps Let_def by (simp only: if_False)
  qed
qed

text \<open>A match does not run past the end.\<close>

lemma steps_bounded:
  assumes "\<forall>a\<le>N. set (f a) \<subseteq> {..N :: nat}" "set ps \<subseteq> {..N}"
  shows "set (remdups (concat (map f ps))) \<subseteq> {..N}"
proof
  fix b assume "b \<in> set (remdups (concat (map f ps)))"
  then obtain a where "a \<in> set ps" "b \<in> set (f a)" by auto
  with assms show "b \<in> {..N}" by blast
qed

lemma repeat_ends_bounded:
  assumes "\<forall>a\<le>N. set (f a) \<subseteq> {..N :: nat}" "set ps \<subseteq> {..N}"
  shows "set (repeat_ends n f ps) \<subseteq> {..N}"
  using assms(2)
proof (induction n arbitrary: ps)
  case (Suc n)
  then show ?case using Suc.IH [OF steps_bounded [OF assms(1) Suc.prems]] by simp
qed simp

lemma upto_ends_bounded:
  assumes "\<forall>a\<le>N. set (f a) \<subseteq> {..N :: nat}" "set ps \<subseteq> {..N}"
  shows "set (upto_ends n f ps) \<subseteq> {..N}"
  using assms(2)
proof (induction n arbitrary: ps)
  case (Suc n)
  then show ?case using Suc.IH [OF steps_bounded [OF assms(1) Suc.prems]] by simp
qed simp

lemma reach_bounded:
  assumes "\<forall>a\<le>N. set (f a) \<subseteq> {..N :: nat}" "set ps \<subseteq> {..N}"
  shows "set (reach n f ps) \<subseteq> {..N}"
  using assms(2)
proof (induction n arbitrary: ps)
  case (Suc n)
  have "set (remdups (ps @ concat (map f ps))) \<subseteq> {..N}"
    using Suc.prems steps_bounded [OF assms(1) Suc.prems] by simp
  from Suc.IH [OF this] Suc.prems show ?case
    unfolding reach.simps Let_def by (cases "length (remdups (ps @ concat (map f ps))) = length ps") (simp_all only: if_True if_False refl)
qed simp

lemma ends_bounded: "i \<le> length s \<Longrightarrow> set (ends canon r s i) \<subseteq> {..length s}"
proof (induction r arbitrary: i)
  case (Rep r m k)
  have b: "\<forall>a\<le>length s. set (ends canon r s a) \<subseteq> {..length s}" using Rep.IH by blast
  have p: "set (repeat_ends m (ends canon r s) [i]) \<subseteq> {..length s}"
    by (rule repeat_ends_bounded [OF b]) (use Rep.prems in auto)
  show ?case
  proof (cases k)
    case None
    have "set (remdups (repeat_ends m (ends canon r s) [i])) \<subseteq> {..length s}" using p by simp
    from reach_bounded [OF b this] None show ?thesis unfolding ends.simps Let_def by (simp only: option.case)
  next
    case (Some k')
    with upto_ends_bounded [OF b p] show ?thesis by (simp add: Let_def)
  qed
next
  case (Seq r q)
  show ?case
  proof
    fix b assume "b \<in> set (ends canon (Seq r q) s i)"
    then obtain a where a: "a \<in> set (ends canon r s i)" and b: "b \<in> set (ends canon q s a)"
      unfolding ends.simps set_concat set_map by blast
    have "a \<le> length s" using Seq.IH(1) [OF Seq.prems] a by auto
    from Seq.IH(2) [OF this] b show "b \<in> {..length s}" by (rule subsetD)
  qed
next
  case (Alt r q)
  show ?case using Alt.IH(1) [OF Alt.prems] Alt.IH(2) [OF Alt.prems] by simp
next
  case (Look neg r)
  have "set (ends canon (Look neg r) s i) \<subseteq> {i}" by auto
  then show ?case using Look.prems by (elim subset_trans) simp
qed (auto split: if_splits)

lemma ends_star:
  assumes "i \<le> length s"
  shows "set (ends canon (Rep r 0 None) s i) = {(a, b). b \<in> set (ends canon r s a)}\<^sup>* `` {i}"
proof -
  have "\<forall>a\<le>length s. set (ends canon r s a) \<subseteq> {..length s}" using ends_bounded by blast
  then show ?thesis
    using reach_closure [of "[i]" "length s" "ends canon r s" "Suc (length s)"] assms by (simp add: Let_def)
qed

lemma ends_Seq:
  "ends canon (Seq r q) s i \<noteq> [] \<longleftrightarrow> (\<exists>j\<in>set (ends canon r s i). ends canon q s j \<noteq> [])"
  by auto

section \<open>Patterns of ordinary characters, \<open>*\<close> and \<open>?\<close>\<close>

definition wildcard :: "code_unit \<Rightarrow> bool" where
  "wildcard c \<longleftrightarrow> c = 42 \<or> c = 63"

definition ordinary :: "code_unit \<Rightarrow> bool" where
  "ordinary c \<longleftrightarrow> c \<notin> set [47, 92, 63, 42, 43, 64, 33, 40, 41, 124, 91, 93]"

abbreviation simple :: "jsstring \<Rightarrow> bool" where
  "simple p \<equiv> \<forall>c\<in>set p. ordinary c \<or> wildcard c"

abbreviation emitted :: "jsstring \<Rightarrow> bool" where
  "emitted p \<equiv> \<forall>c\<in>set p. ordinary c \<or> c \<in> reSpecials"

text \<open>The reference: a star stands for any text, a question mark for one character, without
  slashes.\<close>

fun wild :: "jsstring \<Rightarrow> jsstring \<Rightarrow> bool" where
  "wild [] f = (f = [])"
| "wild (c # p) f =
     (if c = 42 then \<exists>k\<le>length f. 47 \<notin> set (take k f) \<and> wild p (drop k f)
      else f \<noteq> [] \<and> (if c = 63 then hd f \<noteq> 47 else hd f = c) \<and> wild p (tl f))"

text \<open>The text that the translation emits for a character, and the tree of that text.\<close>

definition piece :: "code_unit \<Rightarrow> jsstring" where
  "piece c = (if c = 42 then star else if c = 63 then qmark else if c \<in> reSpecials then [92, c] else [c])"

definition atom :: "code_unit \<Rightarrow> re" where
  "atom c = (if c = 42 then Rep (Class True [(47, 47)]) 0 None
     else if c = 63 then Class True [(47, 47)] else Chr c)"

fun seqs :: "jsstring \<Rightarrow> re" where
  "seqs [] = Seq Eol Eps"
| "seqs (c # p) = Seq (atom c) (seqs p)"

lemma reSpecials_set: "reSpecials = {40, 41, 46, 42, 123, 125, 43, 63, 91, 93, 94, 36, 92, 33}"
  by (auto simp: reSpecials_def charSet_def js_def of_char_def)

lemma wildcard_special: "wildcard c \<Longrightarrow> c \<in> reSpecials"
  by (auto simp: wildcard_def reSpecials_set)

lemma star_units: "star = [91, 94, 47, 93, 42, 63]" and qmark_units: "qmark = [91, 94, 47, 93]"
  by (simp_all add: star_def qmark_def js_def of_char_def)

lemma ordinary_not_wildcard: "ordinary c \<Longrightarrow> \<not> wildcard c"
  by (auto simp: ordinary_def wildcard_def)

lemma piece_simps:
  "piece 42 = star" "piece 63 = qmark"
  "ordinary c \<Longrightarrow> piece c = (if c \<in> reSpecials then [92, c] else [c])"
  by (auto simp: piece_def ordinary_def)

subsection \<open>The state machine emits the pieces\<close>

definition calm :: "parse_state \<Rightarrow> bool" where
  "calm st \<longleftrightarrow> \<not> ps_escaping st \<and> \<not> ps_inClass st \<and> ps_lists st = [] \<and> ps_negative st = []
     \<and> (case ps_stateChar st of None \<Rightarrow> True | Some c \<Rightarrow> wildcard c)"

text \<open>The text and the magic once a pending wildcard is written out.\<close>

definition flushed :: "parse_state \<Rightarrow> jsstring \<times> bool" where
  "flushed st = (ps_re (clearStateChar st), ps_hasMagic (clearStateChar st))"

lemma clearStateChar_wild:
  "calm st \<Longrightarrow> ps_stateChar st = Some c \<Longrightarrow>
   clearStateChar st = st\<lparr>ps_re := ps_re st @ piece c, ps_hasMagic := True, ps_stateChar := None\<rparr>"
  by (auto simp: calm_def wildcard_def clearStateChar_def emit_re_def piece_simps)

lemma clearStateChar_None: "ps_stateChar st = None \<Longrightarrow> clearStateChar st = st"
  by (simp add: clearStateChar_def)

lemma calm_clear: "calm st \<Longrightarrow> calm (clearStateChar st)"
  by (simp add: calm_def)

lemma parse_char_wild:
  assumes "calm st" "wildcard c"
  shows "\<exists>st1. parse_char os sub pattern i c st = Inr st1 \<and> calm st1 \<and>
    flushed st1 = (fst (flushed st) @ piece c, True)"
proof -
  let ?st = "(clearStateChar st)\<lparr>ps_stateChar := Some c\<rparr>"
  have c: "calm ?st" using assms by (simp add: calm_def)
  have f: "clearStateChar ?st = ?st\<lparr>ps_re := ps_re (clearStateChar st) @ piece c, ps_hasMagic := True, ps_stateChar := None\<rparr>"
    using clearStateChar_wild [OF c, of c] by simp
  have r: "parse_char os sub pattern i c st = Inr (if opt os Noext then clearStateChar ?st else ?st)"
    using assms by (auto simp: parse_char_def calm_def wildcard_def on_state_char_def Let_def)
  show ?thesis
  proof (cases "opt os Noext")
    case True
    then show ?thesis using calm_clear [OF c] unfolding r f flushed_def
      by (simp add: clearStateChar_None)
  next
    case False
    then show ?thesis using c unfolding r flushed_def by (simp add: f)
  qed
qed

lemma parse_char_ordinary:
  assumes "calm st" "ordinary c"
  shows "\<exists>st1. parse_char os sub pattern i c st = Inr st1 \<and> calm st1 \<and>
    flushed st1 = (fst (flushed st) @ piece c, snd (flushed st))"
proof -
  have r: "parse_char os sub pattern i c st = Inr (on_other c st)"
    using assms by (simp add: parse_char_def calm_def ordinary_def)
  have "on_other c st = emit_re (piece c) (clearStateChar st)"
    using assms by (simp add: on_other_def Let_def calm_def piece_simps)
  then show ?thesis
    using calm_clear [OF assms(1)] unfolding r flushed_def
    by (simp add: clearStateChar_None calm_def)
qed

lemma parse_chars_simple:
  assumes "calm st" "simple s"
  shows "\<exists>st1. parse_chars os sub pattern i s st = Inr st1 \<and> calm st1 \<and>
    flushed st1 = (fst (flushed st) @ concat (map piece s), snd (flushed st) \<or> (\<exists>c\<in>set s. wildcard c))"
  using assms
proof (induction s arbitrary: st i)
  case (Cons c s)
  obtain st1 where st1: "parse_char os sub pattern i c st = Inr st1" "calm st1"
    "flushed st1 = (fst (flushed st) @ piece c, snd (flushed st) \<or> wildcard c)"
  proof (cases "wildcard c")
    case True
    with parse_char_wild [OF Cons.prems(1) True, of os sub pattern i] show thesis using that by auto
  next
    case False
    then have "ordinary c" using Cons.prems by simp
    with parse_char_ordinary [OF Cons.prems(1) this, of os sub pattern i] False show thesis using that by auto
  qed
  have "simple s" using Cons.prems by simp
  from Cons.IH [OF st1(2) this, of "Suc i"] st1 show ?case by auto
qed simp

subsection \<open>The text is parsed back\<close>

definition no_quantifier :: "jsstring \<Rightarrow> bool" where
  "no_quantifier t \<longleftrightarrow> t = [] \<or> hd t \<notin> {42, 43, 63, 123}"

lemma quantifier_none: "no_quantifier t \<Longrightarrow> quantifier t = None"
  by (cases t) (auto simp: no_quantifier_def quantifier_def)

lemma apply_quantifier_none: "no_quantifier t \<Longrightarrow> apply_quantifier r t = Inr (r, t)"
  by (simp add: apply_quantifier_def quantifier_none)

lemma not_alnum_special: "c \<in> reSpecials \<Longrightarrow> \<not> alnum c"
  by (auto simp: reSpecials_set alnum_def)

lemma parse_class_qmark: "parse_class (94 # 47 # 93 # t) = Inr (Class True [(47, 47)], t)"
  by (simp add: parse_class_def)

lemma parse_item_qmark:
  "parse_item (Suc n) (qmark @ t) = apply_quantifier (Class True [(47, 47)]) t"
  by (simp add: qmark_units parse_item.simps group_kind_def parse_atom_def parse_class_qmark)

lemma quantifier_star: "quantifier (42 # 63 # t) = Some ((0, None), t)"
  by (simp add: quantifier_def)

lemma star_qmark: "star = qmark @ [42, 63]"
  by (simp add: star_units qmark_units)

lemma parse_item_piece:
  assumes "ordinary c \<or> c \<in> reSpecials" "no_quantifier t"
  shows "parse_item (Suc n) (piece c @ t) = Inr (atom c, t)"
proof -
  consider "c = 42" | "c = 63" | "c \<noteq> 42" "c \<noteq> 63" "c \<in> reSpecials" | "ordinary c" "c \<notin> reSpecials"
    using assms(1) by blast
  then show ?thesis
  proof cases
    case 1
    have "parse_item (Suc n) (star @ t) = Inr (Rep (Class True [(47, 47)]) 0 None, t)"
      using parse_item_qmark [of n "42 # 63 # t"]
      by (simp add: star_qmark apply_quantifier_def quantifier_star)
    with 1 show ?thesis by (simp add: piece_simps atom_def)
  next
    case 2
    then show ?thesis
      using assms(2) by (simp add: piece_simps atom_def parse_item_qmark apply_quantifier_none)
  next
    case 3
    then have "piece c = [92, c]" "atom c = Chr c" by (simp_all add: piece_def atom_def)
    then show ?thesis
      using assms(2) not_alnum_special [OF 3(3)]
      by (simp add: parse_item.simps group_kind_def parse_atom_def apply_quantifier_none)
  next
    case 4
    then have "piece c = [c]" "atom c = Chr c"
      by (simp_all add: piece_simps) (auto simp: atom_def ordinary_def)
    then show ?thesis
      using assms(2) 4
      by (simp add: parse_item.simps group_kind_def parse_atom_def apply_quantifier_none
          reSpecials_set ordinary_def)
  qed
qed

lemma piece_hd:
  assumes "ordinary c \<or> c \<in> reSpecials"
  shows "piece c \<noteq> [] \<and> hd (piece c) \<notin> {42, 43, 63, 123, 124, 41}"
  using assms by (auto simp: piece_def ordinary_def star_units qmark_units reSpecials_set)

lemma pieces_no_quantifier: "emitted p \<Longrightarrow> no_quantifier (concat (map piece p) @ [36])"
  using piece_hd by (cases p) (auto simp: no_quantifier_def)

lemma parse_terms_Cons:
  assumes "s \<noteq> []" "hd s \<notin> {124, 41}" "parse_item n s = Inr (r, t)" "parse_terms n t = Inr (q, u)"
  shows "parse_terms (Suc n) s = Inr (Seq r q, u)"
  using assms by (simp add: parse_terms.simps)

lemma parse_terms_end: "parse_terms (Suc (Suc n)) [36] = Inr (Seq Eol Eps, [])"
  by (simp add: parse_terms.simps parse_item.simps)

lemma parse_terms_pieces:
  assumes "emitted p" "Suc (length p) < n"
  shows "parse_terms n (concat (map piece p) @ [36]) = Inr (seqs p, [])"
  using assms
proof (induction p arbitrary: n)
  case Nil
  then have "n = Suc (Suc (n - 2))" by simp
  then obtain m where "n = Suc (Suc m)" by blast
  then show ?case using parse_terms_end by simp
next
  case (Cons c p)
  then have "n = Suc (Suc (n - 2))" by simp
  then obtain m where m: "n = Suc (Suc m)" by blast
  have c: "ordinary c \<or> c \<in> reSpecials" and p: "emitted p" using Cons.prems by auto
  show ?case
    unfolding m seqs.simps
  proof (rule parse_terms_Cons)
    show "parse_item (Suc m) (concat (map piece (c # p)) @ [36]) = Inr (atom c, concat (map piece p) @ [36])"
      using parse_item_piece [OF c pieces_no_quantifier [OF p], of m] by simp
    show "parse_terms (Suc m) (concat (map piece p) @ [36]) = Inr (seqs p, [])"
      using Cons.IH [OF p] Cons.prems m by simp
    show "concat (map piece (c # p)) @ [36] \<noteq> []" by simp
    show "hd (concat (map piece (c # p)) @ [36]) \<notin> {124, 41}"
      using piece_hd [OF c] by (simp add: hd_append)
  qed
qed

subsection \<open>The tree matches like the reference\<close>

lemma in_ranges_slash: "in_ranges (\<lambda>c. c) c [(47, 47)] \<longleftrightarrow> c = 47"
  by (auto simp: in_ranges_def)

lemma take_Suc_snoc_drop:
  "i \<le> j \<Longrightarrow> j < length f \<Longrightarrow> take (Suc j - i) (drop i f) = take (j - i) (drop i f) @ [f ! j]"
  by (simp add: Suc_diff_le take_Suc_conv_app_nth)

lemma star_run:
  assumes "i \<le> length f"
  shows "(i, j) \<in> {(a, b). b \<in> set (ends (\<lambda>c. c) (Class True [(47, 47)]) f a)}\<^sup>*
    \<longleftrightarrow> i \<le> j \<and> j \<le> length f \<and> 47 \<notin> set (take (j - i) (drop i f))" (is "_ \<in> ?R\<^sup>* \<longleftrightarrow> ?P j")
proof
  assume "(i, j) \<in> ?R\<^sup>*"
  then show "?P j"
  proof (induction rule: rtrancl_induct)
    case (step a b)
    then have "b = Suc a" "a < length f" "f ! a \<noteq> 47" by (auto simp: in_ranges_slash split: if_splits)
    with step.IH show ?case using take_Suc_snoc_drop [of i a f] by auto
  qed (simp add: assms)
next
  assume "?P j"
  then show "(i, j) \<in> ?R\<^sup>*"
  proof (induction "j - i" arbitrary: j)
    case (Suc n)
    then obtain k where k: "j = Suc k" "i \<le> k" "k < length f" by (cases j) auto
    have t: "take (j - i) (drop i f) = take (k - i) (drop i f) @ [f ! k]"
      using take_Suc_snoc_drop k by simp
    then have "(i, k) \<in> ?R\<^sup>*" using Suc k by simp
    moreover have "(k, j) \<in> ?R" using Suc.prems k t by (simp add: in_ranges_slash)
    ultimately show ?case by (rule rtrancl_into_rtrancl)
  qed simp
qed

lemma ends_seqs:
  assumes "i \<le> length f"
  shows "ends (\<lambda>c. c) (seqs p) f i \<noteq> [] \<longleftrightarrow> wild p (drop i f)"
  using assms
proof (induction p arbitrary: i)
  case Nil
  then show ?case by auto
next
  case (Cons c p)
  show ?case
  proof (cases "c = 42")
    case True
    have "ends (\<lambda>c. c) (seqs (c # p)) f i \<noteq> [] \<longleftrightarrow>
        (\<exists>j. i \<le> j \<and> j \<le> length f \<and> 47 \<notin> set (take (j - i) (drop i f)) \<and> wild p (drop j f))"
      unfolding seqs.simps ends_Seq True atom_def if_P [OF refl]
      using ends_star [OF Cons.prems, of "\<lambda>c. c"] star_run [OF Cons.prems] Cons.IH by auto
    also have "\<dots> \<longleftrightarrow> (\<exists>k\<le>length (drop i f). 47 \<notin> set (take k (drop i f)) \<and> wild p (drop k (drop i f)))"
    proof
      assume "\<exists>j. i \<le> j \<and> j \<le> length f \<and> 47 \<notin> set (take (j - i) (drop i f)) \<and> wild p (drop j f)"
      then obtain j where "i \<le> j" "j \<le> length f" "47 \<notin> set (take (j - i) (drop i f))" "wild p (drop j f)"
        by blast
      then show "\<exists>k\<le>length (drop i f). 47 \<notin> set (take k (drop i f)) \<and> wild p (drop k (drop i f))"
        by (intro exI [of _ "j - i"]) simp
    next
      assume "\<exists>k\<le>length (drop i f). 47 \<notin> set (take k (drop i f)) \<and> wild p (drop k (drop i f))"
      then obtain k where "k \<le> length f - i" "47 \<notin> set (take k (drop i f))" "wild p (drop (i + k) f)"
        by (auto simp: add.commute)
      then show "\<exists>j. i \<le> j \<and> j \<le> length f \<and> 47 \<notin> set (take (j - i) (drop i f)) \<and> wild p (drop j f)"
        using Cons.prems by (intro exI [of _ "i + k"]) simp
    qed
    finally show ?thesis using True by simp
  next
    case False
    show ?thesis
    proof (cases "i < length f")
      case True
      then have "drop i f = f ! i # drop (Suc i) f" by (simp add: Cons_nth_drop_Suc)
      with True False Cons.IH [of "Suc i"] show ?thesis by (auto simp: atom_def in_ranges_slash)
    next
      case out: False
      with False show ?thesis by (simp add: atom_def)
    qed
  qed
qed

subsection \<open>The beginning of a name\<close>

definition start_look :: "options \<Rightarrow> re" where
  "start_look os =
     (if opt os DotOpt
      then Look True (Seq (Alt (Seq Bol Eps) (Seq (Chr 47) Eps))
        (Seq (Rep (Chr 46) 1 (Some 2)) (Seq (Alt (Seq Eol Eps) (Seq (Chr 47) Eps)) Eps)))
      else Look True (Seq (Chr 46) Eps))"

definition start_ok :: "options \<Rightarrow> jsstring \<Rightarrow> bool" where
  "start_ok os f \<longleftrightarrow> (if opt os DotOpt then f \<noteq> [46] \<and> f \<noteq> [46, 46] else take 1 f \<noteq> [46])"

definition visible :: "jsstring \<Rightarrow> bool" where
  "visible f \<longleftrightarrow> f \<noteq> [] \<and> \<not> re_line_terminator (hd f)"

lemma ends_visible: "ends (\<lambda>c. c) (Look False (Seq Dot Eps)) f 0 = (if visible f then [0] else [])"
  by (cases f) (auto simp: visible_def)

lemma ends_start_look:
  assumes "47 \<notin> set f"
  shows "ends (\<lambda>c. c) (start_look os) f 0 = (if start_ok os f then [0] else [])"
proof (cases f)
  case Nil
  then show ?thesis by (auto simp: start_look_def start_ok_def Let_def)
next
  case (Cons a g)
  show ?thesis
  proof (cases g)
    case Nil
    then show ?thesis using Cons assms
      by (auto simp: start_look_def start_ok_def Let_def eval_nat_numeral)
  next
    case g: (Cons b h)
    show ?thesis using Cons g assms
      by (cases h) (auto simp: start_look_def start_ok_def Let_def eval_nat_numeral nth_Cons')
  qed
qed

subsection \<open>One path portion\<close>

lemma parse_item_group:
  assumes "s \<noteq> []" "hd s = 40" "group_kind s = Some (mk, t)" "parse_alts n t = Inr (r, 41 # u)" "no_quantifier u"
  shows "parse_item (Suc n) s = Inr (mk r, u)"
  using assms by (simp add: parse_item.simps apply_quantifier_none)

lemma parse_alts_single:
  assumes "parse_terms n s = Inr (r, t)" "t = [] \<or> hd t \<noteq> 124"
  shows "parse_alts (Suc n) s = Inr (r, t)"
  using assms by (auto simp: parse_alts.simps)

lemma parse_alts_two:
  assumes "parse_terms (Suc n) s = Inr (r, 124 # t)" "parse_terms n t = Inr (q, u)" "u = [] \<or> hd u \<noteq> 124"
  shows "parse_alts (Suc (Suc n)) s = Inr (Alt r q, u)"
  using assms parse_alts_single [OF assms(2,3)] by (simp add: parse_alts.simps(2) [of "Suc n"])

lemma parse_terms_stop: "t \<noteq> [] \<Longrightarrow> hd t \<in> {124, 41} \<Longrightarrow> parse_terms (Suc n) t = Inr (Eps, t)"
  by (auto simp: parse_terms.simps)

lemma parse_item_chars:
  "parse_item (Suc n) (94 # t) = Inr (Bol, t)" "parse_item (Suc n) (36 # t) = Inr (Eol, t)"
  "no_quantifier t \<Longrightarrow> parse_item (Suc n) (46 # t) = Inr (Dot, t)"
  "no_quantifier t \<Longrightarrow> parse_item (Suc n) (92 # 46 # t) = Inr (Chr 46, t)"
  "no_quantifier t \<Longrightarrow> parse_item (Suc n) (92 # 47 # t) = Inr (Chr 47, t)"
  by (simp_all add: parse_item.simps group_kind_def parse_atom_def apply_quantifier_none alnum_def)

text \<open>A group with one item, and a group with two alternatives of one item each.\<close>

lemma parse_alts_item:
  assumes "parse_item (Suc n) s = Inr (r, 41 # t)" "s \<noteq> []" "hd s \<notin> {124, 41}"
  shows "parse_alts (Suc (Suc (Suc n))) s = Inr (Seq r Eps, 41 # t)"
  using parse_alts_single [OF parse_terms_Cons [OF assms(2,3,1) parse_terms_stop]] by simp

lemma parse_alts_items:
  assumes "parse_item (Suc (Suc n)) s = Inr (r, 124 # t)" "s \<noteq> []" "hd s \<notin> {124, 41}"
    and "parse_item (Suc n) t = Inr (q, 41 # u)" "t \<noteq> []" "hd t \<notin> {124, 41}"
  shows "parse_alts (Suc (Suc (Suc (Suc n)))) s = Inr (Alt (Seq r Eps) (Seq q Eps), 41 # u)"
  using parse_alts_two [OF parse_terms_Cons [OF assms(2,3,1) parse_terms_stop]
      parse_terms_Cons [OF assms(5,6,4) parse_terms_stop]] by simp

lemma parse_item_visible:
  assumes "no_quantifier t"
  shows "parse_item (Suc (Suc (Suc (Suc n)))) (40 # 63 # 61 # 46 # 41 # t) = Inr (Look False (Seq Dot Eps), t)"
proof (rule parse_item_group [where mk = "Look False" and t = "46 # 41 # t", OF _ _ _ _ assms])
  show "parse_alts (Suc (Suc (Suc n))) (46 # 41 # t) = Inr (Seq Dot Eps, 41 # t)"
    by (rule parse_alts_item) (simp_all add: parse_item_chars no_quantifier_def)
qed (simp_all add: group_kind_def)

lemma parse_item_hidden:
  assumes "no_quantifier t"
  shows "parse_item (Suc (Suc (Suc (Suc n)))) (40 # 63 # 33 # 92 # 46 # 41 # t) = Inr (Look True (Seq (Chr 46) Eps), t)"
proof (rule parse_item_group [where mk = "Look True" and t = "92 # 46 # 41 # t", OF _ _ _ _ assms])
  show "parse_alts (Suc (Suc (Suc n))) (92 # 46 # 41 # t) = Inr (Seq (Chr 46) Eps, 41 # t)"
    by (rule parse_alts_item) (simp_all add: parse_item_chars no_quantifier_def)
qed (simp_all add: group_kind_def)

lemma parse_item_begin:
  assumes "no_quantifier t"
  shows "parse_item (Suc (Suc (Suc (Suc (Suc n))))) (40 # 63 # 58 # 94 # 124 # 92 # 47 # 41 # t)
    = Inr (Alt (Seq Bol Eps) (Seq (Chr 47) Eps), t)"
proof (rule parse_item_group [where mk = "\<lambda>r. r" and t = "94 # 124 # 92 # 47 # 41 # t", OF _ _ _ _ assms])
  show "parse_alts (Suc (Suc (Suc (Suc n)))) (94 # 124 # 92 # 47 # 41 # t)
      = Inr (Alt (Seq Bol Eps) (Seq (Chr 47) Eps), 41 # t)"
    by (rule parse_alts_items [where t = "92 # 47 # 41 # t"]) (simp_all add: parse_item_chars no_quantifier_def)
qed (simp_all add: group_kind_def)

lemma parse_item_finish:
  assumes "no_quantifier t"
  shows "parse_item (Suc (Suc (Suc (Suc (Suc n))))) (40 # 63 # 58 # 36 # 124 # 92 # 47 # 41 # t)
    = Inr (Alt (Seq Eol Eps) (Seq (Chr 47) Eps), t)"
proof (rule parse_item_group [where mk = "\<lambda>r. r" and t = "36 # 124 # 92 # 47 # 41 # t", OF _ _ _ _ assms])
  show "parse_alts (Suc (Suc (Suc (Suc n)))) (36 # 124 # 92 # 47 # 41 # t)
      = Inr (Alt (Seq Eol Eps) (Seq (Chr 47) Eps), 41 # t)"
    by (rule parse_alts_items [where t = "92 # 47 # 41 # t"]) (simp_all add: parse_item_chars no_quantifier_def)
qed (simp_all add: group_kind_def)

lemma braced_dots: "braced (49 # 44 # 50 # 125 # t) = Some ((1, Some 2), t)"
  by (simp add: braced_def is_digit_def digits_value_def)

lemma parse_item_dots:
  assumes "t \<noteq> []" "hd t \<noteq> 63"
  shows "parse_item (Suc n) (92 # 46 # 123 # 49 # 44 # 50 # 125 # t) = Inr (Rep (Chr 46) 1 (Some 2), t)"
  using assms
  by (simp add: parse_item.simps group_kind_def parse_atom_def alnum_def apply_quantifier_def quantifier_def braced_dots)

lemma parse_item_dot_names:
  assumes "no_quantifier t"
  shows "parse_item (Suc (Suc (Suc (Suc (Suc (Suc (Suc (Suc (Suc (Suc n))))))))))
      (40 # 63 # 33 # 40 # 63 # 58 # 94 # 124 # 92 # 47 # 41 # 92 # 46 # 123 # 49 # 44 # 50 # 125
       # 40 # 63 # 58 # 36 # 124 # 92 # 47 # 41 # 41 # t)
    = Inr (Look True (Seq (Alt (Seq Bol Eps) (Seq (Chr 47) Eps))
        (Seq (Rep (Chr 46) 1 (Some 2)) (Seq (Alt (Seq Eol Eps) (Seq (Chr 47) Eps)) Eps))), t)"
proof (rule parse_item_group [where mk = "Look True" and t = "40 # 63 # 58 # 94 # 124 # 92 # 47 # 41 # 92 # 46 # 123
      # 49 # 44 # 50 # 125 # 40 # 63 # 58 # 36 # 124 # 92 # 47 # 41 # 41 # t", OF _ _ _ parse_alts_single assms])
  show "parse_terms (Suc (Suc (Suc (Suc (Suc (Suc (Suc (Suc n))))))))
      (40 # 63 # 58 # 94 # 124 # 92 # 47 # 41 # 92 # 46 # 123 # 49 # 44 # 50 # 125
       # 40 # 63 # 58 # 36 # 124 # 92 # 47 # 41 # 41 # t)
    = Inr (Seq (Alt (Seq Bol Eps) (Seq (Chr 47) Eps))
        (Seq (Rep (Chr 46) 1 (Some 2)) (Seq (Alt (Seq Eol Eps) (Seq (Chr 47) Eps)) Eps)), 41 # t)"
    by (rule parse_terms_Cons [OF _ _ parse_item_begin], simp, simp, simp add: no_quantifier_def,
        rule parse_terms_Cons [OF _ _ parse_item_dots], simp, simp, simp, simp,
        rule parse_terms_Cons [OF _ _ parse_item_finish], simp, simp, simp add: no_quantifier_def,
        rule parse_terms_stop) simp_all
qed (simp_all add: group_kind_def)

lemma patternStart_units:
  assumes "take 1 p \<noteq> [46]"
  shows "patternStart os p =
    (if opt os DotOpt then [40, 63, 33, 40, 63, 58, 94, 124, 92, 47, 41, 92, 46, 123, 49, 44, 50, 125,
       40, 63, 58, 36, 124, 92, 47, 41, 41]
     else [40, 63, 33, 92, 46, 41])"
  using assms by (simp add: patternStart_def js_def of_char_def)

lemma parse_item_start:
  assumes "no_quantifier t" "take 1 p \<noteq> [46]"
  shows "parse_item (Suc (Suc (Suc (Suc (Suc (Suc (Suc (Suc (Suc (Suc n)))))))))) (patternStart os p @ t)
    = Inr (start_look os, t)"
  unfolding patternStart_units [OF assms(2)] start_look_def
  using parse_item_dot_names [OF assms(1)] parse_item_hidden [OF assms(1)] by simp

definition tree :: "options \<Rightarrow> jsstring \<Rightarrow> re" where
  "tree os p =
     (let body = Seq (Look False (Seq Dot Eps)) (seqs p)
      in Seq Bol (if wildcard (hd p) then Seq (start_look os) body else body))"

definition source :: "options \<Rightarrow> jsstring \<Rightarrow> jsstring" where
  "source os p = (if wildcard (hd p) then patternStart os p else []) @ js ''(?=.)'' @ concat (map piece p)"

lemma look_units: "js ''(?=.)'' = [40, 63, 61, 46, 41]"
  by (simp add: js_def of_char_def)

lemma wildcard_no_dot: "p \<noteq> [] \<Longrightarrow> wildcard (hd p) \<Longrightarrow> take 1 p \<noteq> [46]"
  by (cases p) (auto simp: wildcard_def)

lemma patternStart_hd: "take 1 p \<noteq> [46] \<Longrightarrow> patternStart os p \<noteq> [] \<and> hd (patternStart os p) = 40"
  by (simp add: patternStart_units)

lemma pieces_length: "length p \<le> length (concat (map piece p))"
proof (induction p)
  case (Cons c p)
  have "0 < length (piece c)" by (simp add: piece_def star_units qmark_units)
  with Cons show ?case unfolding list.map concat.simps length_append list.size by linarith
qed simp

lemma regexp_simple:
  assumes "emitted p" "p \<noteq> []"
  shows "regexp ([94] @ source os p @ [36]) = Inr (tree os p)"
proof -
  let ?T = "[94] @ source os p @ [36]"
  let ?ps = "concat (map piece p) @ [36]"
  let ?v = "40 # 63 # 61 # 46 # 41 # ?ps"
  have nq: "no_quantifier ?ps" by (rule pieces_no_quantifier [OF assms(1)])
  have "length p \<le> length (concat (map piece p))" by (rule pieces_length)
  then have "3 * length p + 21 \<le> 3 * length ?T" by (simp add: source_def look_units)
  then obtain m where m: "3 * length ?T = Suc (Suc (Suc (Suc (Suc (Suc (Suc (Suc (Suc (Suc (Suc (Suc m)))))))))))"
    and pm: "Suc (Suc (length p)) \<le> m"
    by (intro that [of "3 * length ?T - 12"]) simp_all
  have body: "parse_terms (Suc (Suc (Suc (Suc (Suc (m + k)))))) ?v = Inr (Seq (Look False (Seq Dot Eps)) (seqs p), [])" for k
    by (rule parse_terms_Cons [OF _ _ parse_item_visible [OF nq] parse_terms_pieces [OF assms(1)]])
      (use pm in simp_all)
  have rest: "parse_terms (3 * length ?T) (source os p @ [36]) =
      Inr (if wildcard (hd p) then Seq (start_look os) (Seq (Look False (Seq Dot Eps)) (seqs p))
           else Seq (Look False (Seq Dot Eps)) (seqs p), [])"
  proof (cases "wildcard (hd p)")
    case True
    have d: "take 1 p \<noteq> [46]" using wildcard_no_dot assms(2) True by blast
    have "parse_terms (3 * length ?T) (patternStart os p @ ?v) =
        Inr (Seq (start_look os) (Seq (Look False (Seq Dot Eps)) (seqs p)), [])"
      unfolding m
    proof (rule parse_terms_Cons [OF _ _ parse_item_start [OF _ d]])
      show "parse_terms (Suc (Suc (Suc (Suc (Suc (Suc (Suc (Suc (Suc (Suc (Suc m))))))))))) ?v
          = Inr (Seq (Look False (Seq Dot Eps)) (seqs p), [])"
        using body [of 6] by (simp add: numeral_eq_Suc)
    qed (use patternStart_hd [OF d] in \<open>simp_all add: no_quantifier_def hd_append\<close>)
    with True show ?thesis by (simp add: source_def look_units)
  next
    case False
    have "parse_terms (3 * length ?T) ?v = Inr (Seq (Look False (Seq Dot Eps)) (seqs p), [])"
      unfolding m using body [of 7] by (simp add: numeral_eq_Suc)
    with False show ?thesis by (simp add: source_def look_units)
  qed
  have bol: "parse_item (3 * length ?T) ?T = Inr (Bol, source os p @ [36])"
    unfolding m by (simp add: parse_item_chars)
  have "parse_terms (Suc (3 * length ?T)) ?T = Inr (tree os p, [])"
    unfolding tree_def Let_def by (rule parse_terms_Cons [OF _ _ bol rest]) simp_all
  then have "parse_alts (Suc (Suc (3 * length ?T))) ?T = Inr (tree os p, [])"
    by (rule parse_alts_single) simp
  then show ?thesis unfolding regexp_def by simp
qed

lemma re_test_tree:
  assumes "p \<noteq> []" "47 \<notin> set f"
  shows "re_test (\<lambda>c. c) (tree os p) f \<longleftrightarrow>
    (wildcard (hd p) \<longrightarrow> start_ok os f) \<and> visible f \<and> wild p f"
proof -
  let ?body = "Seq (Look False (Seq Dot Eps)) (seqs p)"
  have bol: "re_test (\<lambda>c. c) (Seq Bol r) f \<longleftrightarrow> ends (\<lambda>c. c) r f 0 \<noteq> []" for r
    unfolding re_test_def list_ex_iff ends_Seq by (auto simp del: upt_Suc)
  have body: "ends (\<lambda>c. c) ?body f 0 \<noteq> [] \<longleftrightarrow> visible f \<and> wild p f"
    using ends_seqs [of 0 f p] unfolding ends_Seq ends_visible by simp
  have start: "ends (\<lambda>c. c) (Seq (start_look os) ?body) f 0 \<noteq> [] \<longleftrightarrow> start_ok os f \<and> visible f \<and> wild p f"
    unfolding ends_Seq [of _ "start_look os"] ends_start_look [OF assms(2)] using body by simp
  show ?thesis unfolding tree_def Let_def bol using body start by simp
qed

lemma simple_notin: "simple p \<Longrightarrow> \<not> ordinary d \<Longrightarrow> \<not> wildcard d \<Longrightarrow> d \<notin> set p"
  by blast

lemma simple_emitted: "simple p \<Longrightarrow> emitted p"
  using wildcard_special by blast

lemma globUnescape_plain: "92 \<notin> set p \<Longrightarrow> globUnescape p = p"
  by (induction p rule: globUnescape.induct) auto

lemma pieces_hd: 
  assumes "simple p" "p \<noteq> []"
  shows "concat (map piece p) \<noteq> [] \<and> (hd (concat (map piece p)) \<in> set [46, 91, 40] \<longleftrightarrow> wildcard (hd p))"
proof -
  obtain c q where p: "p = c # q" using assms(2) by (cases p) auto
  then have "ordinary c \<or> wildcard c" using assms(1) by simp
  then have "piece c \<noteq> [] \<and> (hd (piece c) \<in> set [46, 91, 40] \<longleftrightarrow> wildcard c)"
    by (auto simp: piece_def ordinary_def wildcard_def star_units qmark_units reSpecials_set)
  then show ?thesis unfolding p by (simp add: hd_append)
qed

lemma glob_parse_simple:
  assumes "simple p" "p \<noteq> []" "length p \<le> 65536" "\<not> opt os Nocase" "opt os Noglobstar \<or> p \<noteq> [42, 42]"
  shows "glob_parse os p = Inr (if \<exists>c\<in>set p. wildcard c then Pattern (tree os p) (Some (source os p)) False else Text p)"
proof -
  let ?sub = "parse_fuel (length p) os True"
  have init: "calm (parse_init os)" "flushed (parse_init os) = ([], False)"
    using assms(4) by (simp_all add: calm_def parse_init_def flushed_def clearStateChar_None)
  from parse_chars_simple [OF init(1) assms(1), of os ?sub p 0] obtain st where
    st: "parse_chars os ?sub p 0 p (parse_init os) = Inr st" "calm st"
      "flushed st = (concat (map piece p), \<exists>c\<in>set p. wildcard c)"
    unfolding init(2) by auto
  have cl: "close_class ?sub p st = Inr st" "close_lists st = st"
    using st(2) by (simp_all add: calm_def close_class_def close_lists_def)
  let ?st = "clearStateChar st"
  have re: "ps_re ?st = concat (map piece p)" "ps_hasMagic ?st \<longleftrightarrow> (\<exists>c\<in>set p. wildcard c)"
    "\<not> ps_escaping ?st" "ps_negative ?st = []"
    using st(2,3) by (simp_all add: flushed_def calm_def)
  have fin: "parse_finish os False p ?st = source os p" if "\<exists>c\<in>set p. wildcard c"
    using that re pieces_hd [OF assms(1,2)] by (simp add: parse_finish_def Let_def source_def)
  have "92 \<notin> set p" using simple_notin [OF assms(1), of 92] by (simp add: ordinary_def wildcard_def)
  then have plain: "globUnescape p = p" by (rule globUnescape_plain)
  have "parse_result os False p (ps_hasMagic ?st) (parse_finish os False p ?st)
      = Inr (Part (if \<exists>c\<in>set p. wildcard c then Pattern (tree os p) (Some (source os p)) False else Text p))"
  proof (cases "\<exists>c\<in>set p. wildcard c")
    case True
    show ?thesis
      unfolding parse_result_def re(2) fin [OF True] regexp_simple [OF simple_emitted [OF assms(1)] assms(2)] using True assms(4) by simp
  next
    case False
    show ?thesis unfolding parse_result_def re(2) plain using False by simp
  qed
  then show ?thesis
    using assms(2,3,5) by (auto simp: glob_parse_def parse_fuel.simps st(1) cl Let_def)
qed

subsection \<open>Whole patterns\<close>

definition ref_stars :: "options \<Rightarrow> jsstring \<Rightarrow> bool" where
  "ref_stars os q \<longleftrightarrow> \<not> opt os Noglobstar \<and> q = [42, 42]"

definition ref_hit :: "options \<Rightarrow> jsstring \<Rightarrow> jsstring \<Rightarrow> bool" where
  "ref_hit os f q \<longleftrightarrow>
     (if \<exists>c\<in>set q. wildcard c then (wildcard (hd q) \<longrightarrow> start_ok os f) \<and> visible f \<and> wild q f
      else f = q)"

definition portion :: "options \<Rightarrow> jsstring \<Rightarrow> part" where
  "portion os q =
     (if ref_stars os q then GLOBSTAR
      else if \<exists>c\<in>set q. wildcard c then Pattern (tree os q) (Some (source os q)) False
      else Text q)"

lemma glob_parse_portion:
  assumes "simple q" "length q \<le> 65536" "\<not> opt os Nocase"
  shows "glob_parse os q = Inr (portion os q)"
proof -
  consider "q = []" | "ref_stars os q" | "q \<noteq> []" "\<not> ref_stars os q" by blast
  then show ?thesis
  proof cases
    case 1
    then show ?thesis by (simp add: glob_parse_def parse_fuel.simps portion_def ref_stars_def)
  next
    case 2
    then show ?thesis by (simp add: glob_parse_def parse_fuel.simps portion_def ref_stars_def)
  next
    case 3
    then show ?thesis
      using glob_parse_simple [OF assms(1) 3(1) assms(2,3)] by (auto simp: portion_def ref_stars_def)
  qed
qed

lemma portion_hit:
  assumes "47 \<notin> set f" "\<not> opt os Nocase" "\<not> ref_stars os q"
  shows "part_hit tab os f (portion os q) \<longleftrightarrow> ref_hit os f q"
proof (cases "\<exists>c\<in>set q. wildcard c")
  case True
  then have "q \<noteq> []" by auto
  from re_test_tree [OF this assms(1), of os] show ?thesis
    using True assms(3) by (simp add: portion_def part_hit_def ref_hit_def)
next
  case False
  then show ?thesis using assms(2,3) by (simp add: portion_def part_hit_def ref_hit_def)
qed

lemma map_js_total: "(\<And>x. x \<in> set xs \<Longrightarrow> f x = Inr (g x)) \<Longrightarrow> map_js f xs = Inr (map g xs)"
  by (induction xs) auto

lemma covers_map:
  assumes "\<And>q. stars' (h q) \<longleftrightarrow> stars q"
    and "\<And>f q. f \<in> S \<Longrightarrow> \<not> stars q \<Longrightarrow> hit' f (h q) \<longleftrightarrow> hit f q"
    and "set gs \<subseteq> S"
  shows "covers stars' hit' free (map h qs) gs \<longleftrightarrow> covers stars hit free qs gs"
  using assms(3)
proof (induction qs arbitrary: gs)
  case Nil
  then show ?case by (simp add: covers_Nil)
next
  case (Cons q qs)
  show ?case
  proof (cases "stars q")
    case True
    have "covers stars' hit' free (h q # map h qs) gs \<longleftrightarrow>
        (\<exists>ks fs. gs = ks @ fs \<and> list_all free ks \<and> (map h qs \<noteq> [] \<or> ks \<noteq> []) \<and> covers stars' hit' free (map h qs) fs)"
      unfolding covers_Cons [of stars'] using True assms(1) by auto
    also have "\<dots> \<longleftrightarrow> (\<exists>ks fs. gs = ks @ fs \<and> list_all free ks \<and> (qs \<noteq> [] \<or> ks \<noteq> []) \<and> covers stars hit free qs fs)"
      using Cons.IH Cons.prems by (metis Un_subset_iff map_is_Nil_conv set_append)
    also have "\<dots> \<longleftrightarrow> covers stars hit free (q # qs) gs"
      unfolding covers_Cons [of stars] using True by auto
    finally show ?thesis by simp
  next
    case False
    have "covers stars' hit' free (h q # map h qs) gs \<longleftrightarrow>
        (\<exists>f fs. gs = f # fs \<and> hit' f (h q) \<and> covers stars' hit' free (map h qs) fs)"
      unfolding covers_Cons [of stars'] using False assms(1) by auto
    also have "\<dots> \<longleftrightarrow> (\<exists>f fs. gs = f # fs \<and> hit f q \<and> covers stars hit free qs fs)"
      using Cons.IH Cons.prems assms(2) False by (metis insert_subset list.simps(15))
    also have "\<dots> \<longleftrightarrow> covers stars hit free (q # qs) gs"
      unfolding covers_Cons [of stars] using False by auto
    finally show ?thesis by simp
  qed
qed

lemma split_slashes_units: "q \<in> set (split_slashes p) \<Longrightarrow> set q \<subseteq> set p - {47} \<and> length q \<le> length p"
proof (induction p arbitrary: q rule: split_slashes.induct)
  case (2 c s)
  have hd: "hd (split_slashes s) \<in> set (split_slashes s)" by simp
  show ?case
  proof (cases "c = 47")
    case True
    then show ?thesis using 2 by (cases "s \<noteq> [] \<and> hd s = 47") fastforce+
  next
    case False
    have tl: "set (tl (split_slashes s)) \<subseteq> set (split_slashes s)" by (meson list.set_sel(2) subsetI split_slashes_neq_Nil)
    from False "2.prems" consider "q = c # hd (split_slashes s)" | "q \<in> set (tl (split_slashes s))" by auto
    then show ?thesis using "2.IH" False hd tl by cases fastforce+
  qed
qed simp

lemma Minimatch_simple:
  assumes "\<forall>c\<in>set p. ordinary c \<or> wildcard c \<or> c = 47" "p \<noteq> []" "trim p = p" "length p \<le> 65536"
    and "hd p \<noteq> 35" "\<not> has_braces p" "\<not> opt os Nocase"
  shows "Minimatch tk (Some p) os = Inr \<lparr>mm_options = os, mm_set = [map (portion os) (split_slashes p)],
    mm_pattern = p, mm_regexp = Null, mm_negate = False, mm_comment = False, mm_empty = False\<rparr>"
proof -
  have "ordinary (hd p) \<or> wildcard (hd p) \<or> hd p = 47" using assms(1,2) by (metis hd_in_set)
  then have "hd p \<noteq> 33" by (auto simp: ordinary_def wildcard_def)
  then have neg: "takeWhile (\<lambda>c. c = 33) p = []" by (cases p) auto
  have "take 1 p \<noteq> [35]" using assms(2,5) by (cases p) auto
  have q: "glob_parse os q = Inr (portion os q)" if "q \<in> set (split_slashes p)" for q
  proof (rule glob_parse_portion [OF _ _ assms(7)])
    show "simple q" using split_slashes_units [OF that] assms(1) by blast
    show "length q \<le> 65536" using split_slashes_units [OF that] assms(4) by simp
  qed
  have "map_js (glob_parse os) (split_slashes p) = Inr (map (portion os) (split_slashes p))"
    by (rule map_js_total) (rule q)
  moreover have "FalsePart \<notin> set (map (portion os) (split_slashes p))" by (auto simp: portion_def)
  ultimately show ?thesis
    using \<open>take 1 p \<noteq> [35]\<close> assms(2,3,6)
    by (simp add: Minimatch_def mm_make_def parseNegate_def neg braceExpand_def Let_def)
qed

text \<open>
  Claim C34: the whole path from a pattern to a decision.  For a pattern of ordinary characters,
  slashes, \<open>*\<close>, \<open>?\<close> and \<open>**\<close>, \<open>minimatch\<close> answers exactly as the reference: portions without
  wildcards match themselves, the others by \<open>wild\<close> and not hidden or empty names, \<open>**\<close> any run of
  portions.  The expressions that \<open>parse\<close> writes, read back as the language reads them, mean what
  the glob means.
\<close>

theorem minimatch_wildcards:
  assumes "\<forall>c\<in>set p. ordinary c \<or> wildcard c \<or> c = 47" "p \<noteq> []" "trim p = p" "length p \<le> 65536"
    and "hd p \<noteq> 35" "\<not> has_braces p" "\<not> opt os Nocase" "\<not> opt os MatchBase"
  shows "minimatch tk tab f (Some p) os =
    Inr (\<exists>gs. trimmed (split_slashes f) gs \<and>
      covers (ref_stars os) (ref_hit os) (\<lambda>g. \<not> unswallowable os g) (split_slashes p) gs)"
proof -
  let ?S = "{g. 47 \<notin> set g}"
  let ?free = "\<lambda>g. \<not> unswallowable os g"
  have S: "set gs \<subseteq> ?S" if "trimmed (split_slashes f) gs" for gs
  proof -
    have "set gs \<subseteq> set (split_slashes f)" using that by (auto simp: trimmed_def)
    then show ?thesis using split_slashes_units by blast
  qed
  have "covers is_globstar (part_hit tab os) ?free (map (portion os) (split_slashes p)) gs
      \<longleftrightarrow> covers (ref_stars os) (ref_hit os) ?free (split_slashes p) gs"
    if "trimmed (split_slashes f) gs" for gs
    by (rule covers_map [OF _ _ S [OF that]]) (auto simp: portion_hit assms(7), auto simp: portion_def split: if_splits)
  then have one: "matchOne tab os False (split_slashes f) (map (portion os) (split_slashes p)) \<longleftrightarrow>
      (\<exists>gs. trimmed (split_slashes f) gs \<and> covers (ref_stars os) (ref_hit os) ?free (split_slashes p) gs)"
    unfolding matchOne_covers by blast
  have "take 1 p \<noteq> [35]" using assms(2,5) by (cases p) auto
  then show ?thesis
    using assms(2,3,8) unfolding minimatch_def Minimatch_simple [OF assms(1-7)]
    by (simp add: match_def Let_def one)
qed

lemma minimatch_wildcards_witness:
  "minimatch (make_tokens [48] [49] [50] [51] [52]) plain_tables [97, 47, 120, 47, 98, 46, 99]
     (Some [97, 47, 42, 42, 47, 42, 46, 63]) [] = Inr True"
proof -
  let ?p = "[97, 47, 42, 42, 47, 42, 46, 63] :: jsstring"
  let ?f = "[97, 47, 120, 47, 98, 46, 99] :: jsstring"
  have p: "split_slashes ?p = [[97], [42, 42], [42, 46, 63]]" and f: "split_slashes ?f = [[97], [120], [98, 46, 99]]"
    by simp_all
  have last: "ref_hit [] [98, 46, 99] [42, 46, 63]"
    by (simp add: ref_hit_def wildcard_def start_ok_def opt_def visible_def re_line_terminator_def)
      (rule exI [of _ 1], simp)
  have "covers (ref_stars []) (ref_hit []) (\<lambda>g. \<not> unswallowable [] g) [[97], [42, 42], [42, 46, 63]]
      ([97] # [[120]] @ [[98, 46, 99]])"
    by (intro covers.one covers.many covers.none last)
      (simp_all add: ref_stars_def opt_def ref_hit_def wildcard_def unswallowable_def)
  then have cov: "\<exists>gs. trimmed (split_slashes ?f) gs \<and>
      covers (ref_stars []) (ref_hit []) (\<lambda>g. \<not> unswallowable [] g) (split_slashes ?p) gs"
    unfolding p f trimmed_def by auto
  have "minimatch (make_tokens [48] [49] [50] [51] [52]) plain_tables ?f (Some ?p) [] =
    Inr (\<exists>gs. trimmed (split_slashes ?f) gs \<and>
      covers (ref_stars []) (ref_hit []) (\<lambda>g. \<not> unswallowable [] g) (split_slashes ?p) gs)"
    by (rule minimatch_wildcards)
      (simp_all add: ordinary_def wildcard_def trim_def white_space_def opt_def)
  with cov show ?thesis by simp
qed

subsection \<open>A bracket left open at the end\<close>

lemma parse_chars_append:
  "parse_chars os sub pattern i (s @ t) st =
   bind_js (parse_chars os sub pattern i s st) (parse_chars os sub pattern (i + length s) t)"
proof (induction s arbitrary: i st)
  case (Cons c s)
  then show ?case by (cases "parse_char os sub pattern i c st") simp_all
qed simp

lemma undefined_units: "undefined_text = [117, 110, 100, 101, 102, 105, 110, 101, 100]"
  by (simp add: undefined_text_def js_def of_char_def)

lemma pieces_undefined: "concat (map piece (p @ 91 # undefined_text)) = concat (map piece p) @ [92, 91] @ undefined_text"
  by (simp add: undefined_units piece_def reSpecials_set)

lemma emitted_undefined: "emitted p \<Longrightarrow> emitted (p @ 91 # undefined_text)"
  by (auto simp: undefined_units ordinary_def reSpecials_set)

lemma takeWhile_snoc: "set (takeWhile P (p @ [c])) \<subseteq> insert c (set (takeWhile P p))"
  by (induction p) auto

lemma has_braces_snoc: "\<not> has_braces p \<Longrightarrow> c \<noteq> 125 \<Longrightarrow> \<not> has_braces (p @ [c])"
proof (induction p)
  case (Cons d p)
  then show ?case using takeWhile_snoc [of "\<lambda>d. \<not> re_line_terminator d" p c] by auto
qed simp

lemma trim_snoc:
  assumes "trim p = p" "p \<noteq> []" "\<not> white_space c"
  shows "trim (p @ [c]) = p @ [c]"
proof -
  have "dropWhile white_space p = p"
  proof (rule ccontr)
    assume "dropWhile white_space p \<noteq> p"
    then have "length (dropWhile white_space p) < length p"
      by (metis append_Nil dropWhile_eq_self_iff length_dropWhile_le linorder_not_less order_le_imp_less_or_eq
          takeWhile_dropWhile_id length_append less_add_same_cancel2 length_greater_0_conv)
    then show False using assms(1) length_dropWhile_le [of white_space "rev (dropWhile white_space p)"]
      unfolding trim_def by (metis length_rev leD)
  qed
  then have "\<not> white_space (hd p)" using assms(2) by (metis hd_dropWhile)
  then have "dropWhile white_space (p @ [c]) = p @ [c]" using assms(2) by (cases p) auto
  then show ?thesis unfolding trim_def using assms(3) by simp
qed

lemma split_slashes_single: "47 \<notin> set p \<Longrightarrow> split_slashes p = [p]"
  by (induction p) auto

lemma glob_parse_open_bracket:
  assumes "simple p" "\<exists>c\<in>set p. wildcard c" "length p < 65536" "\<not> opt os Nocase"
  shows "\<exists>src. glob_parse os (p @ [91]) = Inr (Pattern (tree os (p @ 91 # undefined_text)) src False)"
proof -
  let ?p = "p @ [91]" and ?u = "p @ 91 # undefined_text"
  let ?sub = "parse_fuel (length ?p) os True"
  have p: "p \<noteq> []" using assms(2) by auto
  have init: "calm (parse_init os)" "flushed (parse_init os) = ([], False)"
    using assms(4) by (simp_all add: calm_def parse_init_def flushed_def clearStateChar_None)
  from parse_chars_simple [OF init(1) assms(1), of os ?sub ?p 0] obtain st where
    st: "parse_chars os ?sub ?p 0 p (parse_init os) = Inr st" "calm st"
      "flushed st = (concat (map piece p), True)"
    unfolding init(2) using assms(2) by auto
  let ?st = "on_open_class (length p) st"
  have run: "parse_chars os ?sub ?p 0 ?p (parse_init os) = Inr ?st"
    using st(1,2) by (simp add: parse_chars_append parse_char_def calm_def)
  have f: "ps_inClass ?st" "ps_classStart ?st = int (length p)" "ps_hasMagic ?st" "\<not> ps_escaping ?st"
    "ps_lists ?st = []" "ps_negative ?st = []" "ps_stateChar ?st = None"
    "take (nat (ps_reClassStart ?st)) (ps_re ?st) = concat (map piece p)"
    using st(2,3) by (simp_all add: on_open_class_def Let_def calm_def flushed_def)
  have "?sub [] = Inr (Part (Text []))" by (simp add: parse_fuel.simps)
  then obtain st1 where st1: "close_class ?sub ?p ?st = Inr st1" "ps_re st1 = concat (map piece ?u)"
    "ps_hasMagic st1" "\<not> ps_escaping st1" "ps_lists st1 = []" "ps_negative st1 = []" "ps_stateChar st1 = None"
    unfolding pieces_undefined using f by (simp add: close_class_def nat_add_distrib)
  have lists: "clearStateChar (close_lists st1) = st1"
    using st1 by (simp add: close_lists_def clearStateChar_None)
  have start: "patternStart os ?p = patternStart os ?u" "wildcard (hd ?u) = wildcard (hd p)"
    using p by (cases p; simp add: patternStart_def)+
  have hd: "concat (map piece ?u) \<noteq> []" "hd (concat (map piece ?u)) \<in> set [46, 91, 40] \<longleftrightarrow> wildcard (hd p)"
    using pieces_hd [OF assms(1) p] unfolding pieces_undefined by simp_all
  have fin: "parse_finish os False ?p st1 = source os ?u"
    using st1 hd start by (simp add: parse_finish_def Let_def source_def del: map_append concat_append)
  have "emitted ?u" by (rule emitted_undefined [OF simple_emitted [OF assms(1)]])
  from regexp_simple [OF this, of os] have "regexp ([94] @ source os ?u @ [36]) = Inr (tree os ?u)" by simp
  then have res: "parse_result os False ?p (ps_hasMagic st1) (parse_finish os False ?p st1)
      = Inr (Part (Pattern (tree os ?u) (Some (source os ?u)) False))"
    unfolding parse_result_def fin using st1(3) assms(4) by simp
  have "?p \<noteq> [42, 42]" "length ?p \<le> 65536" using assms(3) by auto
  then have "glob_parse os ?p = Inr (Pattern (tree os ?u) (Some (source os ?u)) False)"
    unfolding glob_parse_def parse_fuel.simps run using st1(1) res by (simp add: lists)
  then show ?thesis by blast
qed

text \<open>
  Claim C35: an opening bracket at the end of a pattern with other wildcards is read as the text
  \<open>[undefined\<close>: the pattern \<open>*[\<close> does not match the name \<open>x[\<close>, and matches \<open>x[undefined\<close>.  (The
  nested call of \<open>parse\<close> returns the empty string, of which the code reads the entry 0.)
\<close>

theorem open_bracket_reads_undefined:
  assumes "simple p" "\<exists>c\<in>set p. wildcard c" "length p < 65536" "trim p = p" "hd p \<noteq> 35"
    and "47 \<notin> set f" "f \<noteq> []" "\<not> has_braces p"
  shows "minimatch tk tab f (Some (p @ [91])) [] =
    Inr ((wildcard (hd p) \<longrightarrow> start_ok [] f) \<and> visible f \<and> wild (p @ 91 # undefined_text) f)"
proof -
  let ?p = "p @ [91]" and ?u = "p @ 91 # undefined_text"
  have p: "p \<noteq> []" using assms(2) by auto
  have "ordinary (hd p) \<or> wildcard (hd p)" using assms(1) p by (metis hd_in_set)
  then have hd: "hd p \<noteq> 33" by (auto simp: ordinary_def wildcard_def)
  obtain src where parse: "glob_parse [] ?p = Inr (Pattern (tree [] ?u) src False)"
    using glob_parse_open_bracket [OF assms(1-3), of "[]"] by (auto simp: opt_def)
  have slash: "47 \<notin> set ?p" using simple_notin [OF assms(1), of 47] by (simp add: ordinary_def wildcard_def)
  have nb: "\<not> has_braces ?p" by (rule has_braces_snoc [OF assms(8)]) simp
  have trim: "trim ?p = ?p" by (rule trim_snoc [OF assms(4) p]) (simp add: white_space_def)
  have neg: "takeWhile (\<lambda>c. c = 33) ?p = []" "take 1 ?p \<noteq> [35]" using hd p assms(5) by (cases p; simp)+
  have mm: "Minimatch tk (Some ?p) [] = Inr \<lparr>mm_options = [], mm_set = [[Pattern (tree [] ?u) src False]],
      mm_pattern = ?p, mm_regexp = Null, mm_negate = False, mm_comment = False, mm_empty = False\<rparr>"
    using neg by (simp add: Minimatch_def mm_make_def trim parseNegate_def braceExpand_def Let_def nb
        split_slashes_single [OF slash] parse opt_def)
  have "?u \<noteq> []" "hd ?u = hd p" using p by simp_all
  then show ?thesis
    using neg re_test_tree [of ?u f "[]"] assms(6)
    by (simp add: minimatch_def mm trim match_def Let_def split_slashes_single part_hit_def opt_def)
qed

lemma wild_open_bracket:
  "wild ([42] @ 91 # undefined_text) ([120, 91] @ undefined_text)" "\<not> wild ([42] @ 91 # undefined_text) [120, 91]"
proof -
  show "wild ([42] @ 91 # undefined_text) ([120, 91] @ undefined_text)"
    by (simp add: undefined_units) (rule exI [of _ 1], simp)
  have "k \<le> 2 \<Longrightarrow> k = 0 \<or> k = 1 \<or> k = (2 :: nat)" for k by auto
  then show "\<not> wild ([42] @ 91 # undefined_text) [120, 91]"
    by (auto simp: undefined_units drop_Cons')
qed

lemma open_bracket_reads_undefined_witness:
  "minimatch (make_tokens [48] [49] [50] [51] [52]) plain_tables [120, 91] (Some ([42] @ [91])) [] = Inr False
   \<and> minimatch (make_tokens [48] [49] [50] [51] [52]) plain_tables ([120, 91] @ undefined_text)
       (Some ([42] @ [91])) [] = Inr True"
proof -
  have hyps: "simple [42]" "\<exists>c\<in>set [42]. wildcard c" "length [42 :: code_unit] < 65536"
    "trim [42] = [42]" "hd [42 :: code_unit] \<noteq> 35" "\<not> has_braces [42]"
    by (simp_all add: wildcard_def trim_def white_space_def)
  have f: "47 \<notin> set ([120, 91] :: jsstring)" "([120, 91] :: jsstring) \<noteq> []"
    "47 \<notin> set ([120, 91] @ undefined_text)" "[120, 91] @ undefined_text \<noteq> []"
    by (simp_all add: undefined_units)
  have v: "visible ([120, 91] @ undefined_text)" "start_ok [] ([120, 91] @ undefined_text)"
    by (simp_all add: visible_def re_line_terminator_def start_ok_def opt_def)
  show ?thesis
    using open_bracket_reads_undefined [OF hyps(1-5) f(1,2) hyps(6)]
      open_bracket_reads_undefined [OF hyps(1-5) f(3,4) hyps(6)] wild_open_bracket v by simp
qed

end
