(* ===== verification/Tinyseg.thy ===== *)
theory Tinyseg
  imports Tinyseg_Tables
begin

text \<open>
  The segmenter of \<open>tinyseg.js\<close>: a boundary before a character is placed when the sum of the
  weights of the six characters around it, of their types and of the last three decisions is
  positive.
\<close>

section \<open>The segmenter\<close>

text \<open>The classes of the constructor, in order, each with its letter.\<close>

definition chartype :: "((code_unit \<times> code_unit) list \<times> code_unit) list" where
  "chartype =
     [([(19968, 19968), (20108, 20108), (19977, 19977), (22235, 22235), (20116, 20116), (20845, 20845),
        (19971, 19971), (20843, 20843), (20061, 20061), (21313, 21313), (30334, 30334), (21315, 21315),
        (19975, 19975), (20740, 20740), (20806, 20806)], 77),
      ([(19968, 40864), (12293, 12293), (12294, 12294), (12533, 12533), (12534, 12534)], 72),
      ([(12353, 12435)], 73),
      ([(12449, 12532), (12540, 12540), (65393, 65437), (65438, 65438), (65392, 65392)], 75),
      ([(97, 122), (65, 90), (65345, 65370), (65313, 65338)], 65),
      ([(48, 57), (65296, 65305)], 78)]"

fun ctype_of :: "((code_unit \<times> code_unit) list \<times> code_unit) list \<Rightarrow> code_unit \<Rightarrow> jsstring" where
  "ctype_of [] c = [79]"
| "ctype_of ((rs, t) # ts) c = (if list_ex (\<lambda>(a, b). a \<le> c \<and> c \<le> b) rs then [t] else ctype_of ts c)"

definition ctype :: "code_unit \<Rightarrow> jsstring" where
  "ctype c = ctype_of chartype c"

text \<open>\<open>ts_(table[key])\<close>: a missing weight counts 0.\<close>

definition ts :: "weights \<Rightarrow> jsstring \<Rightarrow> int" where
  "ts t k = (case map_of t k of None \<Rightarrow> 0 | Some v \<Rightarrow> v)"

definition BIAS :: int where
  "BIAS = -332"

text \<open>The score at index \<open>i\<close> of the padded lists, with the last three decisions.\<close>

definition score :: "jsstring list \<Rightarrow> jsstring list \<Rightarrow> nat \<Rightarrow> jsstring \<Rightarrow> jsstring \<Rightarrow> jsstring \<Rightarrow> int" where
  "score seg ct i p1 p2 p3 =
     (let w1 = seg ! (i - 3); w2 = seg ! (i - 2); w3 = seg ! (i - 1);
          w4 = seg ! i; w5 = seg ! (i + 1); w6 = seg ! (i + 2);
          c1 = ct ! (i - 3); c2 = ct ! (i - 2); c3 = ct ! (i - 1);
          c4 = ct ! i; c5 = ct ! (i + 1); c6 = ct ! (i + 2)
      in BIAS
       + ts UP1_table p1 + ts UP2_table p2 + ts UP3_table p3
       + ts BP1_table (p1 @ p2) + ts BP2_table (p2 @ p3)
       + ts UW1_table w1 + ts UW2_table w2 + ts UW3_table w3
       + ts UW4_table w4 + ts UW5_table w5 + ts UW6_table w6
       + ts BW1_table (w2 @ w3) + ts BW2_table (w3 @ w4) + ts BW3_table (w4 @ w5)
       + ts TW1_table (w1 @ w2 @ w3) + ts TW2_table (w2 @ w3 @ w4)
       + ts TW3_table (w3 @ w4 @ w5) + ts TW4_table (w4 @ w5 @ w6)
       + ts UC1_table c1 + ts UC2_table c2 + ts UC3_table c3
       + ts UC4_table c4 + ts UC5_table c5 + ts UC6_table c6
       + ts BC1_table (c2 @ c3) + ts BC2_table (c3 @ c4) + ts BC3_table (c4 @ c5)
       + ts TC1_table (c1 @ c2 @ c3) + ts TC2_table (c2 @ c3 @ c4)
       + ts TC3_table (c3 @ c4 @ c5) + ts TC4_table (c4 @ c5 @ c6)
       + ts UQ1_table (p1 @ c1) + ts UQ2_table (p2 @ c2) + ts UQ3_table (p3 @ c3)
       + ts BQ1_table (p2 @ c2 @ c3) + ts BQ2_table (p2 @ c3 @ c4)
       + ts BQ3_table (p3 @ c2 @ c3) + ts BQ4_table (p3 @ c3 @ c4)
       + ts TQ1_table (p2 @ c1 @ c2 @ c3) + ts TQ2_table (p2 @ c2 @ c3 @ c4)
       + ts TQ3_table (p3 @ c1 @ c2 @ c3) + ts TQ4_table (p3 @ c2 @ c3 @ c4))"

text \<open>The loop over the indices \<open>i, \<dots>, i + n - 1\<close>; \<open>result\<close> and \<open>word\<close> are the variables of the
  source.\<close>

fun segment_loop ::
  "jsstring list \<Rightarrow> jsstring list \<Rightarrow> nat \<Rightarrow> nat \<Rightarrow> jsstring \<Rightarrow> jsstring \<Rightarrow> jsstring
   \<Rightarrow> jsstring list \<Rightarrow> jsstring \<Rightarrow> jsstring list" where
  "segment_loop seg ct i 0 p1 p2 p3 result word = result @ [word]"
| "segment_loop seg ct i (Suc n) p1 p2 p3 result word =
     (if score seg ct i p1 p2 p3 > 0
      then segment_loop seg ct (Suc i) n p2 p3 [66] (result @ [word]) (seg ! i)
      else segment_loop seg ct (Suc i) n p2 p3 [79] result (word @ seg ! i))"

definition padded :: "jsstring \<Rightarrow> jsstring list" where
  "padded input = [js ''B3'', js ''B2'', js ''B1''] @ map (\<lambda>c. [c]) input @ [js ''E1'', js ''E2'', js ''E3'']"

definition padded_types :: "jsstring \<Rightarrow> jsstring list" where
  "padded_types input = [[79], [79], [79]] @ map ctype input @ [[79], [79], [79]]"

definition segment :: "jsstring option \<Rightarrow> jsstring list" where
  "segment input =
     (case input of
        None \<Rightarrow> []
      | Some s \<Rightarrow>
          if s = [] then []
          else
            let seg = padded s
            in segment_loop seg (padded_types s) 4 (length seg - 7) [85] [85] [85] [] (seg ! 3))"

section \<open>The segments make up the text\<close>

lemma padded_nth: "i < length s \<Longrightarrow> padded s ! (i + 3) = [s ! i]"
  by (simp add: padded_def nth_append nth_Cons')

lemma segment_loop_concat:
  assumes "j + n = length s" "0 < j"
  shows "concat (segment_loop (padded s) ct (j + 3) n p1 p2 p3 result word) = concat result @ word @ drop j s"
  using assms
proof (induction n arbitrary: j p1 p2 p3 result word)
  case (Suc n)
  have "drop j s = s ! j # drop (Suc j) s" using Suc.prems by (simp add: Cons_nth_drop_Suc)
  moreover have "padded s ! (j + 3) = [s ! j]" using Suc.prems by (intro padded_nth) simp
  ultimately show ?case
    using Suc.IH [of "Suc j"] Suc.prems by simp
qed simp

lemma segment_loop_nonempty:
  assumes "j + n = length s" "word \<noteq> []" "[] \<notin> set result"
  shows "[] \<notin> set (segment_loop (padded s) ct (j + 3) n p1 p2 p3 result word)"
  using assms
proof (induction n arbitrary: j p1 p2 p3 result word)
  case (Suc n)
  have "padded s ! (j + 3) = [s ! j]" using Suc.prems by (intro padded_nth) simp
  then show ?case using Suc.IH [of "Suc j"] Suc.prems by simp
qed simp

text \<open>
  Claim C7: segmentation loses and adds nothing.  For every text the segments are not empty and
  their concatenation is the text; only a missing or empty text gives no segment.
\<close>

theorem segment_partitions:
  "concat (segment (Some s)) = s \<and> [] \<notin> set (segment (Some s)) \<and> (segment (Some s) = [] \<longleftrightarrow> s = [])"
proof (cases s)
  case (Cons c t)
  have hd: "padded s ! 3 = [c]" using padded_nth [of 0 s] Cons by simp
  have len: "length (padded s) - 7 = length t" using Cons by (simp add: padded_def)
  have seg: "segment (Some s) = segment_loop (padded s) (padded_types s) (1 + 3) (length t) [85] [85] [85] [] [c]"
    using Cons hd len by (simp add: segment_def Let_def)
  have n: "1 + length t = length s" using Cons by simp
  have "concat (segment (Some s)) = s"
    unfolding seg using segment_loop_concat [OF n, of "padded_types s" "[85]" "[85]" "[85]" "[]" "[c]"] Cons by simp
  moreover have "[] \<notin> set (segment (Some s))"
    unfolding seg by (rule segment_loop_nonempty [OF n]) simp_all
  ultimately show ?thesis using Cons by auto
qed (simp add: segment_def)

section \<open>Scores are exact\<close>







section \<open>How far a decision looks\<close>

text \<open>The positions where segments begin.\<close>

definition starts :: "jsstring list \<Rightarrow> nat set" where
  "starts xs = {length (concat (take m xs)) | m. m < length xs}"

lemma starts_image: "starts xs = (\<lambda>m. length (concat (take m xs))) ` {..<length xs}"
  by (auto simp: starts_def)

lemma starts_snoc: "starts (xs @ [w]) = insert (length (concat xs)) (starts xs)"
  unfolding starts_image length_append_singleton lessThan_Suc by (auto simp: image_iff)

text \<open>The decisions of the loop.\<close>

fun decisions :: "jsstring list \<Rightarrow> jsstring list \<Rightarrow> nat \<Rightarrow> nat \<Rightarrow> jsstring \<Rightarrow> jsstring \<Rightarrow> jsstring \<Rightarrow> bool list" where
  "decisions seg ct i 0 p1 p2 p3 = []"
| "decisions seg ct i (Suc n) p1 p2 p3 =
     (let b = score seg ct i p1 p2 p3 > 0
      in b # decisions seg ct (Suc i) n p2 p3 (if b then [66] else [79]))"

lemma length_decisions [simp]: "length (decisions seg ct i n p1 p2 p3) = n"
  by (induction n arbitrary: i p1 p2 p3) (simp_all add: Let_def)

lemma shift_starts:
  "{j + k | k. k < Suc n \<and> (b # ds) ! k} = (if b then {j :: nat} else {}) \<union> {Suc j + k | k. k < n \<and> ds ! k}"
  by (auto simp: less_Suc_eq_0_disj)

lemma segment_loop_starts:
  assumes "j + n = length s" "length (concat result @ word) = j"
  shows "starts (segment_loop (padded s) ct (j + 3) n p1 p2 p3 result word) =
    starts (result @ [word]) \<union> {j + k | k. k < n \<and> decisions (padded s) ct (j + 3) n p1 p2 p3 ! k}"
  using assms
proof (induction n arbitrary: j p1 p2 p3 result word)
  case (Suc n)
  have pad: "padded s ! (j + 3) = [s ! j]" using Suc.prems by (intro padded_nth) simp
  let ?b = "score (padded s) ct (j + 3) p1 p2 p3 > 0"
  let ?ds = "decisions (padded s) ct (Suc (j + 3)) n p2 p3 (if ?b then [66] else [79])"
  have ds: "decisions (padded s) ct (j + 3) (Suc n) p1 p2 p3 = ?b # ?ds" by (simp add: Let_def)
  show ?case
  proof (cases ?b)
    case True
    have "starts (segment_loop (padded s) ct (Suc j + 3) n p2 p3 [66] (result @ [word]) [s ! j])
        = starts ((result @ [word]) @ [[s ! j]]) \<union> {Suc j + k | k. k < n \<and> ?ds ! k}"
      using Suc.IH [of "Suc j" "result @ [word]" "[s ! j]" p2 p3 "[66]"] Suc.prems True by simp
    then show ?thesis
      unfolding ds shift_starts starts_snoc [of "result @ [word]"] using True Suc.prems pad by (simp add: add.commute)
  next
    case False
    have "starts (segment_loop (padded s) ct (Suc j + 3) n p2 p3 [79] result (word @ [s ! j]))
        = starts (result @ [word @ [s ! j]]) \<union> {Suc j + k | k. k < n \<and> ?ds ! k}"
      using Suc.IH [of "Suc j" result "word @ [s ! j]" p2 p3 "[79]"] Suc.prems False by simp
    then show ?thesis
      unfolding ds shift_starts starts_snoc using False pad by simp
  qed
qed simp

lemma score_window:
  assumes "\<forall>k\<le>i + 2. seg ! k = seg' ! k \<and> ct ! k = ct' ! k"
  shows "score seg ct i p1 p2 p3 = score seg' ct' i p1 p2 p3"
proof -
  have "seg ! k = seg' ! k" "ct ! k = ct' ! k" if "k \<le> i + 2" for k using assms that by auto
  then show ?thesis unfolding score_def Let_def by simp
qed

lemma decisions_window:
  assumes "\<forall>k<N. seg ! k = seg' ! k \<and> ct ! k = ct' ! k"
  shows "k < n \<Longrightarrow> k < n' \<Longrightarrow> i + k + 2 < N \<Longrightarrow>
    decisions seg ct i n p1 p2 p3 ! k = decisions seg' ct' i n' p1 p2 p3 ! k"
proof (induction n arbitrary: i k n' p1 p2 p3)
  case (Suc n)
  then obtain m where m: "n' = Suc m" by (cases n') auto
  have sc: "score seg ct i p1 p2 p3 = score seg' ct' i p1 p2 p3"
    by (rule score_window) (use assms Suc.prems in auto)
  show ?case
  proof (cases k)
    case 0
    then show ?thesis by (simp add: m sc Let_def)
  next
    case (Suc l)
    then show ?thesis using Suc.IH [of l m "Suc i"] Suc.prems m by (simp add: sc Let_def)
  qed
qed simp

lemma padded_prefix:
  assumes "take n s = take n s'" "n \<le> length s" "n \<le> length s'" "k < n + 3"
  shows "padded s ! k = padded s' ! k \<and> padded_types s ! k = padded_types s' ! k"
proof (cases "k < 3")
  case True
  then have "k = 0 \<or> k = 1 \<or> k = 2" by auto
  then show ?thesis by (auto simp: padded_def padded_types_def)
next
  case False
  then obtain l where l: "k = l + 3" "l < n" using assms(4) by (metis add.commute add_less_cancel_right le_add_diff_inverse not_less)
  then have "s ! l = s' ! l" by (metis assms(1) nth_take)
  moreover have "padded_types r ! (l + 3) = ctype (r ! l)" if "n \<le> length r" for r
    using that l(2) by (simp add: padded_types_def nth_append nth_Cons')
  ultimately show ?thesis using assms(2,3) l padded_nth [of l s] padded_nth [of l s'] by simp
qed

lemma segment_starts:
  assumes "s \<noteq> []"
  shows "starts (segment (Some s)) =
    insert 0 {1 + k | k. k < length s - 1 \<and> decisions (padded s) (padded_types s) 4 (length s - 1) [85] [85] [85] ! k}"
proof -
  obtain c t where s: "s = c # t" using assms by (cases s) auto
  have "padded s ! 3 = [c]" using padded_nth [of 0 s] s by simp
  then have seg: "segment (Some s) = segment_loop (padded s) (padded_types s) (1 + 3) (length s - 1) [85] [85] [85] [] [c]"
    using s by (simp add: segment_def Let_def padded_def)
  have "starts ([] @ [[c]]) = {0}" by (simp add: starts_def)
  then show ?thesis
    unfolding seg using segment_loop_starts [of 1 "length s - 1" s "[]" "[c]" "padded_types s" "[85]" "[85]" "[85]"] s
    by simp
qed

text \<open>
  Claim C37: whether a segment begins at a character is decided by the text up to two characters
  further.  Two texts with a common beginning of \<open>n\<close> characters have the same segment starts at
  the positions before \<open>n - 2\<close>.
\<close>

theorem segment_lookahead:
  assumes "take n s = take n s'" "n \<le> length s" "n \<le> length s'" "j + 2 < n"
  shows "j \<in> starts (segment (Some s)) \<longleftrightarrow> j \<in> starts (segment (Some s'))"
proof (cases j)
  case 0
  have "s \<noteq> []" "s' \<noteq> []" using assms by auto
  then show ?thesis using 0 by (simp add: segment_starts)
next
  case (Suc k)
  have ne: "s \<noteq> []" "s' \<noteq> []" using assms by auto
  have "decisions (padded s) (padded_types s) 4 (length s - 1) [85] [85] [85] ! k =
      decisions (padded s') (padded_types s') 4 (length s' - 1) [85] [85] [85] ! k"
    by (rule decisions_window [where N = "n + 3"]) (use padded_prefix [OF assms(1-3)] assms Suc in auto)
  then show ?thesis
    using Suc assms ne by (auto simp: segment_starts)
qed

lemma segment_lookahead_witness:
  "1 \<in> starts (segment (Some [97, 98, 99, 100])) \<longleftrightarrow> 1 \<in> starts (segment (Some [97, 98, 99, 100, 12354]))"
  by (rule segment_lookahead [of 4]) simp_all

end
