(* ===== verification/Callbacks.thy ===== *)
theory Callbacks
  imports Prelude
begin

text \<open>
  Four small modules of the bundle on functions and callbacks: \<open>once\<close> and \<open>onceStrict\<close> (module 21),
  \<open>wrappy\<close> (module 29), \<open>inflight\<close> (module 18) and \<open>path-is-absolute\<close> (module 23).  The functions of
  clients are arguments; they act on a state of their own, of type \<open>'w\<close>, and may throw.
\<close>

section \<open>once\<close>

text \<open>The properties that the code keeps on the function it returns; \<open>None\<close> is \<open>undefined\<close>.\<close>

record 'v once_state =
  once_called :: bool
  once_value :: "'v option"

definition once_new :: "'v once_state" where
  "once_new = \<lparr>once_called = False, once_value = None\<rparr>"

definition once_call ::
  "('w \<Rightarrow> 'w \<times> (js_error + 'v)) \<Rightarrow> 'v once_state \<times> 'w \<Rightarrow> ('v once_state \<times> 'w) \<times> (js_error + 'v option)" where
  "once_call fn = (\<lambda>(f, w).
     if once_called f then ((f, w), Inr (once_value f))
     else
       let f1 = f\<lparr>once_called := True\<rparr>
       in case fn w of
            (w', Inl e) \<Rightarrow> ((f1, w'), Inl e)
          | (w', Inr v) \<Rightarrow> ((f1\<lparr>once_value := Some v\<rparr>, w'), Inr (Some v)))"

definition onceError :: "jsstring \<Rightarrow> jsstring" where
  "onceError name =
     (if name = [] then js ''Function wrapped with `once`'' else name)
     @ js '' shouldn'' @ [39] @ js ''t be called more than once''"

definition onceStrict_call ::
  "jsstring \<Rightarrow> ('w \<Rightarrow> 'w \<times> (js_error + 'v)) \<Rightarrow> 'v once_state \<times> 'w \<Rightarrow> ('v once_state \<times> 'w) \<times> (js_error + 'v option)" where
  "onceStrict_call name fn = (\<lambda>(f, w).
     if once_called f then ((f, w), Inl (JsError (onceError name)))
     else
       let f1 = f\<lparr>once_called := True\<rparr>
       in case fn w of
            (w', Inl e) \<Rightarrow> ((f1, w'), Inl e)
          | (w', Inr v) \<Rightarrow> ((f1\<lparr>once_value := Some v\<rparr>, w'), Inr (Some v)))"

text \<open>\<open>n\<close> calls in a row, with their results.\<close>

fun calls :: "('s \<Rightarrow> 's \<times> 'r) \<Rightarrow> nat \<Rightarrow> 's \<Rightarrow> 's \<times> 'r list" where
  "calls f 0 s = (s, [])"
| "calls f (Suc n) s = (let (s1, r) = f s; (s2, rs) = calls f n s1 in (s2, r # rs))"

lemma once_called_fixed: "once_called f \<Longrightarrow> calls (once_call fn) n (f, w) = ((f, w), replicate n (Inr (once_value f)))"
  by (induction n) (simp_all add: once_call_def)

lemma onceStrict_called_fixed:
  "once_called f \<Longrightarrow> calls (onceStrict_call name fn) n (f, w) = ((f, w), replicate n (Inl (JsError (onceError name))))"
  by (induction n) (simp_all add: onceStrict_call_def)

lemma once_result:
  "once_call fn (once_new, w) =
     ((\<lparr>once_called = True, once_value = (case snd (fn w) of Inl e \<Rightarrow> None | Inr v \<Rightarrow> Some v)\<rparr>, fst (fn w)),
      case snd (fn w) of Inl e \<Rightarrow> Inl e | Inr v \<Rightarrow> Inr (Some v))"
  "onceStrict_call name fn (once_new, w) =
     ((\<lparr>once_called = True, once_value = (case snd (fn w) of Inl e \<Rightarrow> None | Inr v \<Rightarrow> Some v)\<rparr>, fst (fn w)),
      case snd (fn w) of Inl e \<Rightarrow> Inl e | Inr v \<Rightarrow> Inr (Some v))"
  by (auto simp: once_call_def onceStrict_call_def once_new_def split: prod.split sum.split)

text \<open>
  However often the wrapped function is called, the function itself runs once.  With \<open>once\<close> every
  later call returns the first value, \<open>undefined\<close> when the first call threw; with \<open>onceStrict\<close> it
  throws.
\<close>

lemma once_runs_once:
  "calls (once_call fn) (Suc n) (once_new, w) = (s, rs) \<Longrightarrow> snd s = fst (fn w) \<and>
     (case snd (fn w) of Inl e \<Rightarrow> rs = Inl e # replicate n (Inr None) | Inr v \<Rightarrow> rs = replicate (Suc n) (Inr (Some v)))"
  by (auto simp: once_result(1) once_called_fixed split: sum.splits)

lemma onceStrict_runs_once:
  "calls (onceStrict_call name fn) (Suc n) (once_new, w) = (s, rs) \<Longrightarrow> snd s = fst (fn w) \<and>
     tl rs = replicate n (Inl (JsError (onceError name)))"
  by (auto simp: once_result(2) onceStrict_called_fixed)

section \<open>wrappy\<close>

text \<open>A value is a function, known by a number, or something else; \<open>Undefined\<close> has no keys to list.
  The own properties of the functions are the state.\<close>

datatype js_value = Fun nat | Undefined | Primitive nat

type_synonym 'v properties = "nat \<Rightarrow> (jsstring \<times> 'v) list"

definition copy_keys :: "(jsstring \<times> 'v) list \<Rightarrow> (jsstring \<times> 'v) list \<Rightarrow> (jsstring \<times> 'v) list" where
  "copy_keys from to = fold (\<lambda>(k, v). set_key k v) from to"

text \<open>\<open>wrappy(fn)\<close> gives the new function \<open>w\<close> the keys of \<open>fn\<close>.\<close>

definition wrappy_new :: "js_value \<Rightarrow> nat \<Rightarrow> 'v properties \<Rightarrow> js_error + 'v properties" where
  "wrappy_new fn w props =
     (case fn of Fun i \<Rightarrow> Inr (props(w := copy_keys (props i) (props w))) | _ \<Rightarrow> Inl TypeError)"

text \<open>The call of the wrapper; \<open>ret\<close> is what \<open>fn\<close> returned for the arguments.\<close>

definition wrapper_call :: "js_value \<Rightarrow> js_value list \<Rightarrow> 'v properties \<Rightarrow> js_error + js_value \<times> 'v properties" where
  "wrapper_call ret args props =
     (let cb = (if args = [] then Undefined else last args)
      in case ret of
           Fun r \<Rightarrow>
             if ret = cb then Inr (ret, props)
             else
               (case cb of
                  Undefined \<Rightarrow> Inl TypeError
                | Fun c \<Rightarrow> Inr (ret, props(r := copy_keys (props c) (props r)))
                | Primitive _ \<Rightarrow> Inr (ret, props))
         | _ \<Rightarrow> Inr (ret, props))"

text \<open>The decorations of the callback arrive on the function that is returned.\<close>

lemma wrapper_keeps_decorations:
  assumes "distinct (map fst (props c))" "wrapper_call (Fun r) (args @ [Fun c]) props = Inr (ret, props')"
    "map_of (props c) k = Some v"
  shows "map_of (props' r) k = Some v"
  using assms by (auto simp: wrapper_call_def Let_def copy_keys_def map_of_fold_set_key split: if_splits)

section \<open>inflight\<close>

type_synonym requests = "jsstring \<Rightarrow> nat list option"

text \<open>The second component tells whether the caller got a function to call when the work is done.\<close>

definition inflight :: "jsstring \<Rightarrow> nat \<Rightarrow> requests \<Rightarrow> requests \<times> bool" where
  "inflight key cb reqs =
     (case reqs key of
        Some cbs \<Rightarrow> (reqs(key := Some (cbs @ [cb])), False)
      | None \<Rightarrow> (reqs(key := Some [cb]), True))"

text \<open>What a callback does: it changes its state, makes requests and may throw.\<close>

type_synonym 'w callback = "nat \<Rightarrow> 'w \<Rightarrow> 'w \<times> (jsstring \<times> nat) list \<times> bool"

definition make_requests :: "(jsstring \<times> nat) list \<Rightarrow> requests \<Rightarrow> requests" where
  "make_requests rs reqs = fold (\<lambda>(k, cb) q. fst (inflight k cb q)) rs reqs"

text \<open>The loop of \<open>RES\<close> over the callbacks that were there when it began; the result lists those
  that were called and tells whether the last one threw.\<close>

fun run_callbacks :: "'w callback \<Rightarrow> nat list \<Rightarrow> requests \<Rightarrow> 'w \<Rightarrow> requests \<times> 'w \<times> nat list \<times> bool" where
  "run_callbacks act [] reqs w = (reqs, w, [], False)"
| "run_callbacks act (cb # cbs) reqs w =
     (case act cb w of
        (w1, rs, threw) \<Rightarrow>
          let reqs1 = make_requests rs reqs
          in if threw then (reqs1, w1, [cb], True)
             else (case run_callbacks act cbs reqs1 w1 of (reqs2, w2, hs, t) \<Rightarrow> (reqs2, w2, cb # hs, t)))"

record 'w inflight_result =
  res_requests :: requests
  res_world :: 'w
  res_called :: "nat list"
  res_threw :: bool
  res_again :: bool

text \<open>\<open>RES\<close>, with its \<open>finally\<close> block; \<open>res_again\<close> says that it queued itself for the next tick.
  \<open>None\<close> stands for the error of reading the length of a missing list.\<close>

definition RES :: "'w callback \<Rightarrow> jsstring \<Rightarrow> requests \<Rightarrow> 'w \<Rightarrow> 'w inflight_result option" where
  "RES act key reqs w =
     (case reqs key of
        None \<Rightarrow> None
      | Some cbs \<Rightarrow>
          (case run_callbacks act cbs reqs w of
             (reqs1, w1, hs, threw) \<Rightarrow>
               let cbs1 = (case reqs1 key of None \<Rightarrow> [] | Some c \<Rightarrow> c);
                   again = length cbs < length cbs1
               in Some \<lparr>res_requests = reqs1(key := if again then Some (drop (length cbs) cbs1) else None),
                        res_world = w1, res_called = hs, res_threw = threw, res_again = again\<rparr>))"

text \<open>The requests that the called callbacks made for a key, in order.\<close>

fun made_for :: "'w callback \<Rightarrow> jsstring \<Rightarrow> nat list \<Rightarrow> 'w \<Rightarrow> nat list" where
  "made_for act key [] w = []"
| "made_for act key (cb # cbs) w =
     (case act cb w of
        (w1, rs, threw) \<Rightarrow>
          map snd (filter (\<lambda>(k, c). k = key) rs) @ (if threw then [] else made_for act key cbs w1))"

lemma make_requests_key:
  assumes "reqs key = Some cbs"
  shows "make_requests rs reqs key = Some (cbs @ map snd (filter (\<lambda>(k, c). k = key) rs))"
  using assms
proof (induction rs arbitrary: reqs cbs)
  case (Cons r rs)
  obtain k c where r: "r = (k, c)" by (cases r)
  have "fst (inflight k c reqs) key = Some (if k = key then cbs @ [c] else cbs)"
    using Cons.prems by (auto simp: inflight_def split: option.split)
  from Cons.IH [of "fst (inflight k c reqs)", OF this] r show ?case by (auto simp: make_requests_def)
qed (simp add: make_requests_def)

lemma run_callbacks_key:
  assumes "reqs key = Some all" "run_callbacks act cbs reqs w = (reqs1, w1, hs, threw)"
  shows "reqs1 key = Some (all @ made_for act key cbs w)"
  using assms
proof (induction cbs arbitrary: reqs all w hs)
  case (Cons cb cbs)
  obtain w' rs t where a: "act cb w = (w', rs, t)" by (cases "act cb w")
  have key: "make_requests rs reqs key = Some (all @ map snd (filter (\<lambda>(k, c). k = key) rs))"
    by (rule make_requests_key [of reqs, OF Cons.prems(1)])
  show ?case
  proof (cases t)
    case True
    with Cons.prems a key show ?thesis by (simp add: Let_def)
  next
    case False
    obtain reqs2 w2 hs2 t2 where r: "run_callbacks act cbs (make_requests rs reqs) w' = (reqs2, w2, hs2, t2)"
      by (metis prod_cases4)
    have "reqs2 = reqs1" using Cons.prems(2) a False r by (simp add: Let_def)
    moreover have "w2 = w1" "t2 = threw" using Cons.prems(2) a False r by (simp_all add: Let_def)
    ultimately show ?thesis using Cons.IH [of "make_requests rs reqs", OF key, of w' hs2] r a False by simp
  qed
qed simp

lemma run_callbacks_called:
  "run_callbacks act cbs reqs w = (reqs1, w1, hs, threw) \<Longrightarrow> prefix hs cbs \<and> (\<not> threw \<longrightarrow> hs = cbs)"
proof (induction cbs arbitrary: reqs w hs)
  case (Cons cb cbs)
  obtain w' rs t where a: "act cb w = (w', rs, t)" by (cases "act cb w")
  obtain reqs2 w2 hs2 t2 where r: "run_callbacks act cbs (make_requests rs reqs) w' = (reqs2, w2, hs2, t2)"
    by (metis prod_cases4)
  show ?case using Cons.prems Cons.IH [of "make_requests rs reqs" w' hs2] a r
    by (cases t) (auto simp: Let_def)
qed simp

text \<open>
  Claim C38: when the work for a key is done, the callbacks waiting for it are called in order, each
  once, up to one that throws; those that asked for the key meanwhile wait, in order, for one more
  tick, and without such callbacks the key is free again.
\<close>

theorem inflight_calls_each_once:
  assumes "reqs key = Some cbs" "RES act key reqs w = Some res"
  shows "prefix (res_called res) cbs \<and> (\<not> res_threw res \<longrightarrow> res_called res = cbs) \<and>
    (let late = made_for act key cbs w
     in res_again res = (late \<noteq> []) \<and> res_requests res key = (if late = [] then None else Some late))"
proof -
  obtain reqs1 w1 hs threw where r: "run_callbacks act cbs reqs w = (reqs1, w1, hs, threw)"
    by (metis prod_cases4)
  from run_callbacks_key [of reqs, OF assms(1) r] run_callbacks_called [OF r] show ?thesis
    using assms r by (auto simp: RES_def Let_def)
qed

definition sample_callback :: "unit callback" where
  "sample_callback cb w = (w, if cb = 1 then [(js ''k'', 3)] else [], False)"

lemma inflight_calls_each_once_witness:
  "\<exists>res. RES sample_callback (js ''k'') [js ''k'' \<mapsto> [1, 2]] () = Some res \<and> res_called res = [1, 2]
     \<and> res_again res \<and> res_requests res (js ''k'') = Some [3]"
proof -
  let ?reqs = "[js ''k'' \<mapsto> [1, 2]] :: requests"
  have k: "?reqs (js ''k'') = Some [1, 2]" by simp
  obtain res where r: "RES sample_callback (js ''k'') ?reqs () = Some res" and t: "\<not> res_threw res"
    by (simp add: RES_def sample_callback_def Let_def)
  have "made_for sample_callback (js ''k'') [1, 2] () = [3]" by (simp add: sample_callback_def)
  with inflight_calls_each_once [of ?reqs, OF k r] t r show ?thesis by (auto simp: Let_def)
qed

section \<open>path-is-absolute\<close>

definition posix :: "jsstring \<Rightarrow> bool" where
  "posix path \<longleftrightarrow> path \<noteq> [] \<and> hd path = 47"

definition path_sep :: "code_unit \<Rightarrow> bool" where
  "path_sep c \<longleftrightarrow> c = 92 \<or> c = 47"

definition drive_letter :: "code_unit \<Rightarrow> bool" where
  "drive_letter c \<longleftrightarrow> (97 \<le> c \<and> c \<le> 122) \<or> (65 \<le> c \<and> c \<le> 90)"

text \<open>The first group of the expression: a drive, a network share, or nothing.\<close>

definition split_device :: "jsstring \<Rightarrow> jsstring \<times> jsstring" where
  "split_device path =
     (if 2 \<le> length path \<and> drive_letter (path ! 0) \<and> path ! 1 = 58 then (take 2 path, drop 2 path)
      else if 2 \<le> length path \<and> path_sep (path ! 0) \<and> path_sep (path ! 1) then
        (let r = drop 2 path;
             server = takeWhile (\<lambda>c. \<not> path_sep c) r; r1 = dropWhile (\<lambda>c. \<not> path_sep c) r;
             seps = takeWhile path_sep r1; r2 = dropWhile path_sep r1;
             share = takeWhile (\<lambda>c. \<not> path_sep c) r2; r3 = dropWhile (\<lambda>c. \<not> path_sep c) r2
         in if server \<noteq> [] \<and> seps \<noteq> [] \<and> share \<noteq> [] then (take 2 path @ server @ seps @ share, r3)
            else ([], path))
      else ([], path))"

definition win32 :: "jsstring \<Rightarrow> bool" where
  "win32 path \<longleftrightarrow>
     (case split_device path of
        (device, rest) \<Rightarrow>
          let isUnc = (device \<noteq> [] \<and> \<not> (2 \<le> length device \<and> device ! 1 = 58))
          in (rest \<noteq> [] \<and> path_sep (hd rest)) \<or> isUnc)"

text \<open>A Windows path is absolute iff it begins with a separator, after a drive or at once.\<close>

lemma split_device_cases:
  "split_device path = (take 2 path, drop 2 path) \<and> 2 \<le> length path \<and> drive_letter (path ! 0) \<and> path ! 1 = 58
   \<or> split_device path = ([], path) \<and> \<not> (2 \<le> length path \<and> drive_letter (path ! 0) \<and> path ! 1 = 58)
   \<or> (\<exists>d r. split_device path = (take 2 path @ d, r) \<and> 2 \<le> length path \<and> path_sep (path ! 0) \<and> path_sep (path ! 1))"
  unfolding split_device_def Let_def by (simp split: if_split)

lemma drive_not_sep: "drive_letter c \<Longrightarrow> \<not> path_sep c"
  by (auto simp: drive_letter_def path_sep_def)

lemma win32_iff:
  "win32 path \<longleftrightarrow>
     path \<noteq> [] \<and> path_sep (hd path) \<or>
     3 \<le> length path \<and> drive_letter (path ! 0) \<and> path ! 1 = 58 \<and> path_sep (path ! 2)"
  using split_device_cases [of path]
proof (elim disjE exE conjE)
  assume d: "split_device path = (take 2 path, drop 2 path)" "2 \<le> length path" "drive_letter (path ! 0)" "path ! 1 = 58"
  then obtain a b r where p: "path = a # b # r" by (cases path; cases "tl path") auto
  then show ?thesis using d drive_not_sep [of a] by (cases r) (auto simp: win32_def Let_def)
next
  assume d: "split_device path = ([], path)" "\<not> (2 \<le> length path \<and> drive_letter (path ! 0) \<and> path ! 1 = 58)"
  then have "\<not> (3 \<le> length path \<and> drive_letter (path ! 0) \<and> path ! 1 = 58 \<and> path_sep (path ! 2))" by linarith
  then show ?thesis unfolding win32_def d(1) Let_def by auto
next
  fix d r
  assume d: "split_device path = (take 2 path @ d, r)" "2 \<le> length path" "path_sep (path ! 0)" "path_sep (path ! 1)"
  then obtain a b q where p: "path = a # b # q" by (cases path; cases "tl path") auto
  have "\<not> path_sep 58" by (simp add: path_sep_def)
  then show ?thesis using d p by (auto simp: win32_def Let_def)
qed

end
