(* ===== verification/Ethabi.thy ===== *)
theory Ethabi
  imports Prelude
begin

text \<open>
  The codec of \<open>src/libraries/ethabi-nostd\<close>: parameter kinds and tokens, the encoder with its
  intermediate form, and the decoder over 32-byte slices.  A byte is an 8-bit word, a slice a list
  of 32 bytes.  The numbers of \<open>ethereum_types\<close> and the hash of \<open>tiny_keccak\<close> are arguments: \<open>'u\<close> is
  the type of 256-bit integers, \<open>to_word\<close> and \<open>of_word\<close> their conversions.  The type \<open>u32\<close> is \<open>nat\<close>
  with the wrap-around written out, as the arithmetic of a release build has it.  \<open>Panic\<close>, not an error
  of the library, stands for an index out of range.  Memory is unbounded: that reserving room for the
  number of components a message announces may fail is not modelled.
\<close>

section \<open>Kinds, tokens, errors\<close>

type_synonym byte = "8 word"
type_synonym slot = "byte list"

datatype abi_error = InvalidName | InvalidData | Panic

datatype param_kind =
    AddressK
  | BytesK
  | IntK nat
  | UintK nat
  | BoolK
  | StringK
  | ArrayK param_kind
  | FixedBytesK nat
  | FixedArrayK param_kind nat
  | TupleK "param_kind list"

datatype 'u token =
    AddressT "byte list"
  | FixedBytesT "byte list"
  | BytesT "byte list"
  | IntT 'u
  | UintT 'u
  | BoolT bool
  | StringT "byte list"
  | FixedArrayT "'u token list"
  | ArrayT "'u token list"
  | TupleT "'u token list"

definition is_empty_bytes_valid_encoding :: "param_kind \<Rightarrow> bool" where
  "is_empty_bytes_valid_encoding t =
     (case t of FixedBytesK len \<Rightarrow> len = 0 | FixedArrayK _ len \<Rightarrow> len = 0 | _ \<Rightarrow> False)"

fun is_dynamic :: "param_kind \<Rightarrow> bool" where
  "is_dynamic BytesK = True"
| "is_dynamic StringK = True"
| "is_dynamic (ArrayK _) = True"
| "is_dynamic (FixedArrayK t _) = is_dynamic t"
| "is_dynamic (TupleK ts) = list_ex is_dynamic ts"
| "is_dynamic _ = False"

fun token_is_dynamic :: "'u token \<Rightarrow> bool" where
  "token_is_dynamic (BytesT _) = True"
| "token_is_dynamic (StringT _) = True"
| "token_is_dynamic (ArrayT _) = True"
| "token_is_dynamic (FixedArrayT ks) = list_ex token_is_dynamic ks"
| "token_is_dynamic (TupleT ks) = list_ex token_is_dynamic ks"
| "token_is_dynamic _ = False"

text \<open>\<open>iter().all\<close> over checks that may panic, the value \<open>None\<close>.\<close>

fun all_check :: "bool option list \<Rightarrow> bool option" where
  "all_check [] = Some True"
| "all_check (None # cs) = None"
| "all_check (Some b # cs) = (if b then all_check cs else Some False)"

fun type_check :: "'u token \<Rightarrow> param_kind \<Rightarrow> bool option" where
  "type_check (AddressT _) t = Some (t = AddressK)"
| "type_check (BytesT _) t = Some (t = BytesK)"
| "type_check (IntT _) t = Some (case t of IntK _ \<Rightarrow> True | _ \<Rightarrow> False)"
| "type_check (UintT _) t = Some (case t of UintK _ \<Rightarrow> True | _ \<Rightarrow> False)"
| "type_check (BoolT _) t = Some (t = BoolK)"
| "type_check (StringT _) t = Some (t = StringK)"
| "type_check (FixedBytesT bs) t = Some (case t of FixedBytesK sz \<Rightarrow> length bs \<le> sz | _ \<Rightarrow> False)"
| "type_check (ArrayT ks) t =
     (case t of ArrayK t' \<Rightarrow> all_check (map (\<lambda>k. type_check k t') ks) | _ \<Rightarrow> Some False)"
| "type_check (FixedArrayT ks) t =
     (case t of
        FixedArrayK t' sz \<Rightarrow>
          if sz = length ks then all_check (map (\<lambda>k. type_check k t') ks) else Some False
      | _ \<Rightarrow> Some False)"
| "type_check (TupleT ks) t =
     (case t of
        TupleK ts \<Rightarrow>
          all_check (map2 (\<lambda>f t'. f t') (map type_check ks) ts @ replicate (length ks - length ts) None)
      | _ \<Rightarrow> Some False)"

definition types_check :: "'u token list \<Rightarrow> param_kind list \<Rightarrow> bool option" where
  "types_check ks ts =
     (if length ts = length ks then all_check (map2 (\<lambda>t k. type_check k t) ts ks) else Some False)"

definition to_address :: "'u token \<Rightarrow> byte list option" where
  "to_address k = (case k of AddressT a \<Rightarrow> Some a | _ \<Rightarrow> None)"

definition to_fixed_bytes :: "'u token \<Rightarrow> byte list option" where
  "to_fixed_bytes k = (case k of FixedBytesT b \<Rightarrow> Some b | _ \<Rightarrow> None)"

definition to_bytes :: "'u token \<Rightarrow> byte list option" where
  "to_bytes k = (case k of BytesT b \<Rightarrow> Some b | _ \<Rightarrow> None)"

definition to_int :: "'u token \<Rightarrow> 'u option" where
  "to_int k = (case k of IntT i \<Rightarrow> Some i | _ \<Rightarrow> None)"

definition to_uint :: "'u token \<Rightarrow> 'u option" where
  "to_uint k = (case k of UintT i \<Rightarrow> Some i | _ \<Rightarrow> None)"

definition to_bool :: "'u token \<Rightarrow> bool option" where
  "to_bool k = (case k of BoolT b \<Rightarrow> Some b | _ \<Rightarrow> None)"

definition to_string :: "'u token \<Rightarrow> byte list option" where
  "to_string k = (case k of StringT b \<Rightarrow> Some b | _ \<Rightarrow> None)"

definition to_fixed_array :: "'u token \<Rightarrow> 'u token list option" where
  "to_fixed_array k = (case k of FixedArrayT ks \<Rightarrow> Some ks | _ \<Rightarrow> None)"

definition to_array :: "'u token \<Rightarrow> 'u token list option" where
  "to_array k = (case k of ArrayT ks \<Rightarrow> Some ks | _ \<Rightarrow> None)"

definition to_tuple :: "'u token \<Rightarrow> 'u token list option" where
  "to_tuple k = (case k of TupleT ks \<Rightarrow> Some ks | _ \<Rightarrow> None)"

section \<open>Encoder\<close>

definition u32 :: "nat \<Rightarrow> nat" where
  "u32 n = n mod 2 ^ 32"

definition pad_u32 :: "nat \<Rightarrow> slot" where
  "pad_u32 v = replicate 28 0 @
     [word_of_nat (v div 2 ^ 24), word_of_nat (v div 2 ^ 16), word_of_nat (v div 2 ^ 8), word_of_nat v]"

definition pad_fixed_bytes :: "byte list \<Rightarrow> slot list" where
  "pad_fixed_bytes bytes =
     (let len = (length bytes + 31) div 32
      in map (\<lambda>i.
           let to_copy = (if i = len - 1 then (if length bytes mod 32 = 0 then 32 else length bytes mod 32) else 32);
               offset = 32 * i
           in take to_copy (drop offset bytes) @ replicate (32 - to_copy) 0) [0..<len])"

definition pad_bytes :: "byte list \<Rightarrow> slot list" where
  "pad_bytes bytes = pad_u32 (u32 (length bytes)) # pad_fixed_bytes bytes"

datatype mediate =
    Raw "slot list"
  | Prefixed "slot list"
  | PrefixedArray "mediate list"
  | PrefixedArrayWithLength "mediate list"
  | RawTuple "mediate list"
  | PrefixedTuple "mediate list"

definition head_len :: "mediate \<Rightarrow> nat" where
  "head_len m =
     (case m of
        Raw raw \<Rightarrow> u32 (32 * u32 (length raw))
      | RawTuple ms \<Rightarrow> u32 (32 * u32 (length ms))
      | _ \<Rightarrow> 32)"

fun tail_len :: "mediate \<Rightarrow> nat" where
  "tail_len (Raw _) = 0"
| "tail_len (RawTuple _) = 0"
| "tail_len (Prefixed pre) = u32 (u32 (length pre) * 32)"
| "tail_len (PrefixedArray ms) = fold (\<lambda>m acc. u32 (u32 (acc + head_len m) + tail_len m)) ms 0"
| "tail_len (PrefixedArrayWithLength ms) = fold (\<lambda>m acc. u32 (u32 (acc + head_len m) + tail_len m)) ms 32"
| "tail_len (PrefixedTuple ms) = fold (\<lambda>m acc. u32 (u32 (acc + head_len m) + tail_len m)) ms 0"

fun head :: "mediate \<Rightarrow> nat \<Rightarrow> slot list" where
  "head (Raw raw) o1 = raw"
| "head (RawTuple ms) o1 = concat (map (\<lambda>m. head m 0) ms)"
| "head _ o1 = [pad_u32 o1]"

text \<open>\<open>encode_head_tail\<close>, with the tails as an argument so that the recursion through \<open>tail\<close> is
  plain.\<close>

definition head_tail :: "mediate list \<Rightarrow> slot list list \<Rightarrow> slot list" where
  "head_tail ms tails =
     (let heads_len = fold (\<lambda>m acc. u32 (acc + head_len m)) ms 0
      in fst (fold (\<lambda>m (acc, offset). (acc @ head m offset, u32 (offset + tail_len m))) ms ([], heads_len))
         @ concat tails)"

fun tail :: "mediate \<Rightarrow> slot list" where
  "tail (Raw _) = []"
| "tail (RawTuple _) = []"
| "tail (PrefixedTuple ms) = head_tail ms (map tail ms)"
| "tail (Prefixed raw) = raw"
| "tail (PrefixedArray ms) = head_tail ms (map tail ms)"
| "tail (PrefixedArrayWithLength ms) = pad_u32 (u32 (length ms)) # head_tail ms (map tail ms)"

definition encode_head_tail :: "mediate list \<Rightarrow> slot list" where
  "encode_head_tail ms = head_tail ms (map tail ms)"

fun encode_token :: "('u \<Rightarrow> slot) \<Rightarrow> 'u token \<Rightarrow> mediate" where
  "encode_token to_word (AddressT a) = Raw [replicate 12 0 @ a]"
| "encode_token to_word (BytesT b) = Prefixed (pad_bytes b)"
| "encode_token to_word (StringT b) = Prefixed (pad_bytes b)"
| "encode_token to_word (FixedBytesT b) = Raw (pad_fixed_bytes b)"
| "encode_token to_word (IntT i) = Raw [to_word i]"
| "encode_token to_word (UintT i) = Raw [to_word i]"
| "encode_token to_word (BoolT b) = Raw [replicate 31 0 @ [if b then 1 else 0]]"
| "encode_token to_word (ArrayT ks) = PrefixedArrayWithLength (map (encode_token to_word) ks)"
| "encode_token to_word (FixedArrayT ks) =
     (if token_is_dynamic (FixedArrayT ks) then PrefixedArray (map (encode_token to_word) ks)
      else Raw (encode_head_tail (map (encode_token to_word) ks)))"
| "encode_token to_word (TupleT ks) =
     (if token_is_dynamic (TupleT ks) then PrefixedTuple (map (encode_token to_word) ks)
      else RawTuple (map (encode_token to_word) ks))"

definition encode :: "('u \<Rightarrow> slot) \<Rightarrow> 'u token list \<Rightarrow> byte list" where
  "encode to_word ks = concat (encode_head_tail (map (encode_token to_word) ks))"

definition encode_function_u8 ::
  "(byte list \<Rightarrow> byte list) \<Rightarrow> ('u \<Rightarrow> slot) \<Rightarrow> byte list \<Rightarrow> 'u token list \<Rightarrow> byte list" where
  "encode_function_u8 keccak4 to_word signature inputs = keccak4 signature @ encode to_word inputs"

section \<open>Decoder\<close>

fun slices_from :: "nat \<Rightarrow> byte list \<Rightarrow> slot list" where
  "slices_from 0 data = []"
| "slices_from (Suc n) data = take 32 data # slices_from n (drop 32 data)"

definition slice_data :: "byte list \<Rightarrow> abi_error + slot list" where
  "slice_data data =
     (if length data mod 32 \<noteq> 0 then Inl InvalidData else Inr (slices_from (length data div 32) data))"

definition as_u32 :: "slot \<Rightarrow> abi_error + nat" where
  "as_u32 s =
     (if \<not> list_all (\<lambda>x. x = 0) (take 28 s) then Inl InvalidData
      else Inr (unat (s ! 28) * 2 ^ 24 + unat (s ! 29) * 2 ^ 16 + unat (s ! 30) * 2 ^ 8 + unat (s ! 31)))"

definition as_bool :: "slot \<Rightarrow> abi_error + bool" where
  "as_bool s = (if \<not> list_all (\<lambda>x. x = 0) (take 31 s) then Inl InvalidData else Inr (s ! 31 = 1))"

definition peek :: "slot list \<Rightarrow> nat \<Rightarrow> abi_error + slot" where
  "peek slices position = (if position < length slices then Inr (slices ! position) else Inl InvalidData)"

definition take_bytes :: "slot list \<Rightarrow> nat \<Rightarrow> nat \<Rightarrow> abi_error + byte list \<times> nat" where
  "take_bytes slices position len =
     (let slices_len = (len + 31) div 32
      in if position + slices_len \<le> length slices \<or> slices_len = 0
         then Inr (take len (concat (take slices_len (drop position slices))), position + slices_len)
         else Inl InvalidData)"

text \<open>\<open>&slices[n..]\<close>, which panics when \<open>n\<close> is past the end.\<close>

definition slices_after :: "slot list \<Rightarrow> nat \<Rightarrow> abi_error + slot list" where
  "slices_after slices n = (if n \<le> length slices then Inr (drop n slices) else Inl Panic)"

text \<open>The loops over components: each is decoded where the one before ended.\<close>

fun decode_seq ::
  "(slot list \<Rightarrow> nat \<Rightarrow> abi_error + 'u token \<times> nat) list \<Rightarrow> slot list \<Rightarrow> nat \<Rightarrow> abi_error + 'u token list \<times> nat" where
  "decode_seq [] slices offset = Inr ([], offset)"
| "decode_seq (d # ds) slices offset =
     bind_js (d slices offset) (\<lambda>(k, offset1).
       bind_js (decode_seq ds slices offset1) (\<lambda>(ks, offset2). Inr (k # ks, offset2)))"

text \<open>The offset of a dynamic part, in slices.\<close>

definition peek_offset :: "slot list \<Rightarrow> nat \<Rightarrow> abi_error + nat" where
  "peek_offset slices offset = bind_js (peek slices offset) (\<lambda>s. bind_js (as_u32 s) (\<lambda>n. Inr (n div 32)))"

definition decode_bytes :: "slot list \<Rightarrow> nat \<Rightarrow> abi_error + byte list" where
  "decode_bytes slices offset =
     bind_js (peek_offset slices offset) (\<lambda>len_offset.
       bind_js (peek slices len_offset) (\<lambda>s. bind_js (as_u32 s) (\<lambda>len.
         bind_js (take_bytes slices (len_offset + 1) len) (\<lambda>(bytes, _). Inr bytes))))"

fun decode_param :: "(slot \<Rightarrow> 'u) \<Rightarrow> param_kind \<Rightarrow> slot list \<Rightarrow> nat \<Rightarrow> abi_error + 'u token \<times> nat" where
  "decode_param of_word AddressK = (\<lambda>slices offset.
     bind_js (peek slices offset) (\<lambda>s. Inr (AddressT (drop 12 s), offset + 1)))"
| "decode_param of_word (IntK _) = (\<lambda>slices offset.
     bind_js (peek slices offset) (\<lambda>s. Inr (IntT (of_word s), offset + 1)))"
| "decode_param of_word (UintK _) = (\<lambda>slices offset.
     bind_js (peek slices offset) (\<lambda>s. Inr (UintT (of_word s), offset + 1)))"
| "decode_param of_word BoolK = (\<lambda>slices offset.
     bind_js (peek slices offset) (\<lambda>s. bind_js (as_bool s) (\<lambda>b. Inr (BoolT b, offset + 1))))"
| "decode_param of_word (FixedBytesK len) = (\<lambda>slices offset.
     bind_js (take_bytes slices offset len) (\<lambda>(bytes, new_offset). Inr (FixedBytesT bytes, new_offset)))"
| "decode_param of_word BytesK = (\<lambda>slices offset.
     bind_js (decode_bytes slices offset) (\<lambda>bytes. Inr (BytesT bytes, offset + 1)))"
| "decode_param of_word StringK = (\<lambda>slices offset.
     bind_js (decode_bytes slices offset) (\<lambda>bytes. Inr (StringT bytes, offset + 1)))"
| "decode_param of_word (ArrayK t) = (\<lambda>slices offset.
     bind_js (peek_offset slices offset) (\<lambda>len_offset.
       bind_js (peek slices len_offset) (\<lambda>s. bind_js (as_u32 s) (\<lambda>len.
         bind_js (slices_after slices (len_offset + 1)) (\<lambda>rest.
           bind_js (decode_seq (replicate len (decode_param of_word t)) rest 0) (\<lambda>(ks, _).
             Inr (ArrayT ks, offset + 1)))))))"
| "decode_param of_word (FixedArrayK t len) = (\<lambda>slices offset.
     if is_dynamic t then
       bind_js (peek_offset slices offset) (\<lambda>n. bind_js (slices_after slices n) (\<lambda>rest.
         bind_js (decode_seq (replicate len (decode_param of_word t)) rest 0) (\<lambda>(ks, _).
           Inr (FixedArrayT ks, offset + 1))))
     else
       bind_js (decode_seq (replicate len (decode_param of_word t)) slices offset) (\<lambda>(ks, new_offset).
         Inr (FixedArrayT ks, new_offset)))"
| "decode_param of_word (TupleK ts) = (\<lambda>slices offset.
     if list_ex is_dynamic ts then
       bind_js (peek_offset slices offset) (\<lambda>n. bind_js (slices_after slices n) (\<lambda>rest.
         bind_js (decode_seq (map (decode_param of_word) ts) rest 0) (\<lambda>(ks, _).
           Inr (TupleT ks, offset + 1))))
     else
       bind_js (decode_seq (map (decode_param of_word) ts) slices offset) (\<lambda>(ks, new_offset).
         Inr (TupleT ks, new_offset)))"

definition decode :: "(slot \<Rightarrow> 'u) \<Rightarrow> param_kind list \<Rightarrow> byte list \<Rightarrow> abi_error + 'u token list" where
  "decode of_word types data =
     (if \<not> list_all is_empty_bytes_valid_encoding types \<and> data = [] then Inl InvalidName
      else
        bind_js (slice_data data) (\<lambda>slices.
          bind_js (decode_seq (map (decode_param of_word) types) slices 0) (\<lambda>(ks, _). Inr ks)))"

end
