(* ===== verification/Ethabi_Correct.thy ===== *)
theory Ethabi_Correct
  imports Ethabi
begin

text \<open>
  Decoding inverts encoding.  The intermediate form is laid out as the specification of the format
  has it: the heads, then the tails, each offset pointing to its tail; the decoder follows the
  offsets.  The proof needs that static tuples have components of one slot each, since \<open>head_len\<close>
  counts one slot per component.
\<close>

section \<open>Words and bytes\<close>

lemma u32_small: "n < 2 ^ 32 \<Longrightarrow> u32 n = n"
  by (simp add: u32_def)

lemma u32_idem [simp]: "u32 (u32 n) = u32 n"
  by (simp add: u32_def)

lemma u32_add: "u32 (u32 a + b) = u32 (a + b)" "u32 (a + u32 b) = u32 (a + b)"
  by (simp_all add: u32_def mod_simps)

lemma u32_add3: "u32 (u32 (u32 a + u32 b) + u32 c) = u32 (a + b + c)"
  by (simp add: u32_def mod_simps)

lemma u32_mult: "u32 (a * u32 b) = u32 (a * b)" "u32 (u32 a * b) = u32 (a * b)"
  by (simp_all add: u32_def mod_simps)

lemma u32_less: "u32 n < 2 ^ 32"
  by (simp add: u32_def)

lemma length_pad_u32 [simp]: "length (pad_u32 n) = 32"
  by (simp add: pad_u32_def)

lemma four_digits:
  "v = a * 256 + r \<Longrightarrow> a = b * 256 + s \<Longrightarrow> b = c * 256 + t \<Longrightarrow> c * 2 ^ 24 + t * 2 ^ 16 + s * 2 ^ 8 + r = (v :: nat)"
  by simp

lemma base256:
  fixes v :: nat
  assumes "v < 2 ^ 32"
  shows "v div 2 ^ 24 mod 256 * 2 ^ 24 + v div 2 ^ 16 mod 256 * 2 ^ 16 + v div 2 ^ 8 mod 256 * 2 ^ 8 + v mod 256 = v"
proof -
  have e: "v div 2 ^ 16 = v div 256 div 256" "v div 2 ^ 24 = v div 256 div 256 div 256" "v div 2 ^ 8 = v div 256"
    using div_mult2_eq [of v 256 256] div_mult2_eq [of v "256 * 256" 256] by simp_all
  have a: "v = v div 256 * 256 + v mod 256" by simp
  have b: "v div 256 = v div 256 div 256 * 256 + v div 256 mod 256" by simp
  have c: "v div 256 div 256 = v div 256 div 256 div 256 * 256 + v div 256 div 256 mod 256" by simp
  have "v div 2 ^ 24 < 256" using assms by (simp add: div_less_iff_less_mult)
  then have d: "v div 256 div 256 div 256 mod 256 = v div 256 div 256 div 256" unfolding e by simp
  show ?thesis unfolding e d by (rule four_digits [OF a b c])
qed

lemma as_u32_pad_u32:
  assumes "v < 2 ^ 32"
  shows "as_u32 (pad_u32 v) = Inr v"
proof -
  have u: "unat (word_of_nat n :: byte) = n mod 256" for n by (simp add: unsigned_of_nat take_bit_eq_mod)
  have n: "pad_u32 v ! 28 = word_of_nat (v div 2 ^ 24)" "pad_u32 v ! 29 = word_of_nat (v div 2 ^ 16)"
    "pad_u32 v ! 30 = word_of_nat (v div 2 ^ 8)" "pad_u32 v ! 31 = word_of_nat v"
    "take 28 (pad_u32 v) = replicate 28 0"
    by (simp_all add: pad_u32_def nth_append)
  have z: "list_all (\<lambda>x. x = 0) (replicate 28 (0 :: byte))" by (simp add: list_all_iff)
  show ?thesis unfolding as_u32_def n u base256 [OF assms] using z by simp
qed

lemma as_bool_pad: "as_bool (replicate 31 0 @ [if b then 1 else 0]) = Inr b"
  by (auto simp: as_bool_def nth_append list_all_iff)

text \<open>The padded slots hold the bytes.\<close>

lemma length_pad_fixed_bytes: "length (pad_fixed_bytes bs) = (length bs + 31) div 32"
  by (simp add: pad_fixed_bytes_def Let_def)

lemma pad_fixed_bytes_Nil: "pad_fixed_bytes [] = []"
  by (simp add: pad_fixed_bytes_def)

lemma pad_fixed_bytes_short:
  assumes "bs \<noteq> []" "length bs \<le> 32"
  shows "pad_fixed_bytes bs = [bs @ replicate (32 - length bs) 0]"
proof -
  have len: "(length bs + 31) div 32 = 1" using assms by (cases bs) auto
  show ?thesis
  proof (cases "length bs = 32")
    case True
    then show ?thesis unfolding pad_fixed_bytes_def len Let_def by simp
  next
    case False
    then have "length bs mod 32 = length bs" using assms by simp
    then show ?thesis unfolding pad_fixed_bytes_def len Let_def using assms by simp
  qed
qed

lemma pad_fixed_bytes_long:
  assumes "32 < length bs"
  shows "pad_fixed_bytes bs = take 32 bs # pad_fixed_bytes (drop 32 bs)"
proof -
  define n where "n = (length (drop 32 bs) + 31) div 32"
  have n: "(length bs + 31) div 32 = Suc n" "0 < n"
    using assms by (simp_all add: n_def)
  have m: "length (drop 32 bs) mod 32 = length bs mod 32" using assms by (simp add: le_mod_geq)
  define f where "f i = (let to_copy = (if i = n then (if length bs mod 32 = 0 then 32 else length bs mod 32) else 32)
      in take to_copy (drop (32 * i) bs) @ replicate (32 - to_copy) 0)" for i
  have "pad_fixed_bytes bs = map f [0..<Suc n]"
    unfolding pad_fixed_bytes_def n Let_def f_def by simp
  then have split: "pad_fixed_bytes bs = f 0 # map (\<lambda>i. f (Suc i)) [0..<n]" by (simp only: map_upt_Suc)
  have hd: "f 0 = take 32 bs" using n(2) by (simp add: f_def)
  have tl: "map (\<lambda>i. f (Suc i)) [0..<n] = pad_fixed_bytes (drop 32 bs)"
    unfolding pad_fixed_bytes_def n_def [symmetric] m Let_def f_def
  proof (rule map_cong [OF refl])
    fix i
    have e: "Suc i = n \<longleftrightarrow> i = n - 1" "drop (32 * Suc i) bs = drop (32 * i) (drop 32 bs)"
      using n(2) by (auto simp: add.commute)
    show "take (if Suc i = n then if length bs mod 32 = 0 then 32 else length bs mod 32 else 32) (drop (32 * Suc i) bs)
        @ replicate (32 - (if Suc i = n then if length bs mod 32 = 0 then 32 else length bs mod 32 else 32)) 0 =
      take (if i = n - 1 then if length bs mod 32 = 0 then 32 else length bs mod 32 else 32) (drop (32 * i) (drop 32 bs))
        @ replicate (32 - (if i = n - 1 then if length bs mod 32 = 0 then 32 else length bs mod 32 else 32)) 0"
      unfolding e ..
  qed
  show ?thesis unfolding split hd tl ..
qed

lemma pad_fixed_bytes_induct:
  assumes "P []" "\<And>bs. bs \<noteq> [] \<Longrightarrow> length bs \<le> 32 \<Longrightarrow> P bs"
    "\<And>bs. 32 < length bs \<Longrightarrow> P (drop 32 bs) \<Longrightarrow> P bs"
  shows "P (bs :: byte list)"
proof (induction "length bs" arbitrary: bs rule: less_induct)
  case less
  show ?case
  proof (cases "32 < length bs")
    case True
    then have "length (drop 32 bs) < length bs" by simp
    from assms(3) [OF True less [OF this]] show ?thesis .
  next
    case False
    then show ?thesis using assms(1) assms(2) [of bs] by (cases "bs = []") auto
  qed
qed

lemma take_concat_pad: "take (length bs) (concat (pad_fixed_bytes bs)) = bs"
proof (induction bs rule: pad_fixed_bytes_induct)
  case (3 bs)
  then have "take (length bs - 32) (concat (pad_fixed_bytes (drop 32 bs))) = drop 32 bs" by simp
  then have "take (length bs) (take 32 bs @ concat (pad_fixed_bytes (drop 32 bs))) = take 32 bs @ drop 32 bs"
    using 3 by simp
  then show ?case using 3 by (simp add: pad_fixed_bytes_long)
qed (simp_all add: pad_fixed_bytes_Nil pad_fixed_bytes_short)

lemma pad_fixed_bytes_slots: "s \<in> set (pad_fixed_bytes bs) \<Longrightarrow> length s = 32"
  by (induction bs rule: pad_fixed_bytes_induct)
    (auto simp: pad_fixed_bytes_Nil pad_fixed_bytes_short pad_fixed_bytes_long)

section \<open>The layout\<close>

text \<open>A form whose static tuples have components of one slot.\<close>

fun flat :: "mediate \<Rightarrow> bool" where
  "flat (Raw _) = True"
| "flat (Prefixed _) = True"
| "flat (PrefixedArray ms) = list_all flat ms"
| "flat (PrefixedArrayWithLength ms) = list_all flat ms"
| "flat (PrefixedTuple ms) = list_all flat ms"
| "flat (RawTuple ms) = list_all (\<lambda>m. length (head m 0) = 1) ms"

abbreviation hl :: "mediate \<Rightarrow> nat" where
  "hl m \<equiv> length (head m 0)"

abbreviation tl_slots :: "mediate \<Rightarrow> nat" where
  "tl_slots m \<equiv> length (tail m)"

lemma length_head: "length (head m n) = hl m"
  by (cases m) simp_all

lemma head_len_slots: "flat m \<Longrightarrow> head_len m = u32 (32 * hl m)"
proof (cases m)
  case (RawTuple ms)
  assume "flat m"
  with RawTuple have "map hl ms = replicate (length ms) 1"
    by (simp add: list_all_iff map_replicate_const [symmetric])
  then have "hl m = length ms" unfolding RawTuple by (simp add: length_concat comp_def sum_list_replicate)
  with RawTuple show ?thesis by (simp add: head_len_def u32_mult)
qed (simp_all add: head_len_def u32_mult u32_small)

lemma fold_u32_sum:
  "fold (\<lambda>m acc. u32 (acc + f m)) ms a = (if ms = [] then a else u32 (a + sum_list (map f ms)))"
proof (induction ms arbitrary: a)
  case (Cons m ms)
  show ?case using Cons [of "u32 (a + f m)"] by (cases ms) (simp_all add: u32_add add.assoc)
qed simp

lemma sum_list_u32: "u32 (a + sum_list (map (\<lambda>m. u32 (f m)) ms)) = u32 (a + sum_list (map f ms))"
proof (induction ms arbitrary: a)
  case (Cons m ms)
  have "u32 (a + (u32 (f m) + sum_list (map (\<lambda>m. u32 (f m)) ms))) = u32 (a + u32 (f m) + sum_list (map f ms))"
    using Cons [of "a + u32 (f m)"] by (simp add: add.assoc)
  also have "\<dots> = u32 (u32 (a + u32 (f m)) + sum_list (map f ms))" by (rule u32_add(1) [symmetric])
  also have "\<dots> = u32 (u32 (a + f m) + sum_list (map f ms))" by (simp only: u32_add(2))
  also have "\<dots> = u32 (a + f m + sum_list (map f ms))" by (rule u32_add(1))
  finally show ?case by (simp add: add.assoc)
qed simp

lemma fold_offsets:
  "fst (fold (\<lambda>m (acc, offset). (acc @ h m offset, u32 (offset + t m))) ms (acc, o1)) =
   acc @ fst (fold (\<lambda>m (acc, offset). (acc @ h m offset, u32 (offset + t m))) ms ([], o1))"
proof (induction ms arbitrary: acc o1)
  case (Cons m ms)
  let ?step = "\<lambda>m (acc, offset). (acc @ h m offset, u32 (offset + t m))"
  let ?o = "u32 (o1 + t m)"
  have "fst (fold ?step (m # ms) (acc, o1)) = fst (fold ?step ms (acc @ h m o1, ?o))" by simp
  also have "\<dots> = acc @ h m o1 @ fst (fold ?step ms ([], ?o))" unfolding Cons [of "acc @ h m o1" ?o] by simp
  also have "h m o1 @ fst (fold ?step ms ([], ?o)) = fst (fold ?step ms (h m o1, ?o))"
    by (rule Cons [of "h m o1" ?o, symmetric])
  also have "fst (fold ?step ms (h m o1, ?o)) = fst (fold ?step (m # ms) ([], o1))" by simp
  finally show ?case .
qed simp

text \<open>The heads of \<open>ms\<close> when their tails begin at slot \<open>q\<close>.\<close>

fun heads_at :: "nat \<Rightarrow> mediate list \<Rightarrow> slot list" where
  "heads_at q [] = []"
| "heads_at q (m # ms) = head m (u32 (32 * q)) @ heads_at (q + tl_slots m) ms"

lemma length_heads_at: "length (heads_at q ms) = sum_list (map hl ms)"
  by (induction ms arbitrary: q) (simp_all add: length_head [of _ "u32 n" for n])

lemma fold_heads_at:
  assumes "\<forall>m\<in>set ms. tail_len m = u32 (32 * tl_slots m)"
  shows "fst (fold (\<lambda>m (acc, offset). (acc @ head m offset, u32 (offset + tail_len m))) ms ([], u32 (32 * q)))
    = heads_at q ms"
  using assms
proof (induction ms arbitrary: q)
  case (Cons m ms)
  have "u32 (u32 (32 * q) + tail_len m) = u32 (32 * (q + tl_slots m))"
    using Cons.prems by (simp add: u32_add distrib_left)
  then show ?case
    using Cons.IH [of "q + tl_slots m"] Cons.prems
      fold_offsets [of head tail_len ms "head m (u32 (32 * q))" "u32 (32 * (q + tl_slots m))"] by simp
qed simp

lemma head_tail_layout:
  assumes "list_all flat ms" "\<forall>m\<in>set ms. tail_len m = u32 (32 * tl_slots m)"
  shows "head_tail ms tails = heads_at (sum_list (map hl ms)) ms @ concat tails"
proof -
  have h: "map head_len ms = map (\<lambda>m. u32 (32 * hl m)) ms"
    using assms(1) head_len_slots by (auto simp: list_all_iff)
  have "fold (\<lambda>m acc. u32 (acc + head_len m)) ms 0 = u32 (32 * sum_list (map hl ms))"
    using sum_list_u32 [of 0 "\<lambda>m. 32 * hl m" ms]
    by (cases "ms = []") (simp_all add: fold_u32_sum h sum_list_const_mult u32_small)
  with fold_heads_at [OF assms(2)] show ?thesis by (simp add: head_tail_def Let_def)
qed

lemma length_layout:
  assumes "list_all flat ms" "\<forall>m\<in>set ms. tail_len m = u32 (32 * tl_slots m)"
  shows "length (head_tail ms (map tail ms)) = sum_list (map (\<lambda>m. hl m + tl_slots m) ms)"
  unfolding head_tail_layout [OF assms]
  by (simp add: length_heads_at length_concat comp_def sum_list_addf)

lemma fold_tail_len:
  assumes "list_all flat ms" "\<forall>m\<in>set ms. tail_len m = u32 (32 * tl_slots m)"
  shows "fold (\<lambda>m acc. u32 (u32 (acc + head_len m) + tail_len m)) ms (u32 a) =
    u32 (a + 32 * sum_list (map (\<lambda>m. hl m + tl_slots m) ms))"
  using assms
proof (induction ms arbitrary: a)
  case (Cons m ms)
  have "u32 (u32 (u32 a + head_len m) + tail_len m) = u32 (a + 32 * (hl m + tl_slots m))"
    using Cons.prems u32_add3 [of a "32 * hl m" "32 * tl_slots m"]
    by (simp add: head_len_slots add.assoc distrib_left)
  then show ?case
    using Cons.IH [of "a + 32 * (hl m + tl_slots m)"] Cons.prems by (simp add: add.assoc distrib_left)
qed simp

lemma tail_len_slots: "flat m \<Longrightarrow> tail_len m = u32 (32 * tl_slots m)"
proof (induction m)
  case (PrefixedArray ms)
  then have t: "list_all flat ms" "\<forall>m\<in>set ms. tail_len m = u32 (32 * tl_slots m)" by (auto simp: list_all_iff)
  show ?case using fold_tail_len [OF t, of 0] length_layout [OF t] by (simp add: u32_small)
next
  case (PrefixedTuple ms)
  then have t: "list_all flat ms" "\<forall>m\<in>set ms. tail_len m = u32 (32 * tl_slots m)" by (auto simp: list_all_iff)
  show ?case using fold_tail_len [OF t, of 0] length_layout [OF t] by (simp add: u32_small)
next
  case (PrefixedArrayWithLength ms)
  then have t: "list_all flat ms" "\<forall>m\<in>set ms. tail_len m = u32 (32 * tl_slots m)" by (auto simp: list_all_iff)
  show ?case using fold_tail_len [OF t, of 32] length_layout [OF t] by (simp add: u32_small)
qed (simp_all add: u32_mult u32_small mult.commute [of _ 32])

lemma encode_layout:
  assumes "list_all flat ms"
  shows "head_tail ms tails = heads_at (sum_list (map hl ms)) ms @ concat tails"
  using assms tail_len_slots by (intro head_tail_layout) (auto simp: list_all_iff)

section \<open>Tokens of a kind\<close>

text \<open>The number of slots of the head of a token.\<close>

fun slots :: "'u token \<Rightarrow> nat" where
  "slots (FixedBytesT bs) = (length bs + 31) div 32"
| "slots (FixedArrayT ks) = (if list_ex token_is_dynamic ks then 1 else sum_list (map slots ks))"
| "slots (TupleT ks) = (if list_ex token_is_dynamic ks then 1 else sum_list (map slots ks))"
| "slots _ = 1"

text \<open>A token that the encoder and the decoder agree on for a kind.  Beyond the shape: arrays are
  counted in 32 bits, an array of fixed size with dynamic components has one, and the components of
  a static tuple have one slot each.\<close>

fun fits :: "'u token \<Rightarrow> param_kind \<Rightarrow> bool" where
  "fits (AddressT a) t = (t = AddressK \<and> length a = 20)"
| "fits (BytesT bs) t = (t = BytesK)"
| "fits (StringT bs) t = (t = StringK)"
| "fits (IntT i) t = (case t of IntK _ \<Rightarrow> True | _ \<Rightarrow> False)"
| "fits (UintT i) t = (case t of UintK _ \<Rightarrow> True | _ \<Rightarrow> False)"
| "fits (BoolT b) t = (t = BoolK)"
| "fits (FixedBytesT bs) t = (t = FixedBytesK (length bs))"
| "fits (ArrayT ks) t =
     (case t of ArrayK t' \<Rightarrow> length ks < 2 ^ 32 \<and> list_all (\<lambda>k. fits k t') ks | _ \<Rightarrow> False)"
| "fits (FixedArrayT ks) t =
     (case t of
        FixedArrayK t' n \<Rightarrow> n = length ks \<and> list_all (\<lambda>k. fits k t') ks \<and> (is_dynamic t' \<longrightarrow> ks \<noteq> [])
      | _ \<Rightarrow> False)"
| "fits (TupleT ks) t =
     (case t of
        TupleK ts \<Rightarrow> list_all2 (\<lambda>f t'. f t') (map fits ks) ts
          \<and> (\<not> list_ex token_is_dynamic ks \<longrightarrow> list_all (\<lambda>k. slots k = 1) ks)
      | _ \<Rightarrow> False)"

lemma fits_Array: "fits (ArrayT ks) t \<Longrightarrow> \<exists>t'. t = ArrayK t' \<and> length ks < 2 ^ 32 \<and> (\<forall>k\<in>set ks. fits k t')"
  by (auto simp: list_all_iff split: param_kind.splits)

lemma fits_FixedArray:
  "fits (FixedArrayT ks) t \<Longrightarrow> \<exists>t'. t = FixedArrayK t' (length ks) \<and> (\<forall>k\<in>set ks. fits k t') \<and> (is_dynamic t' \<longrightarrow> ks \<noteq> [])"
  by (auto simp: list_all_iff split: param_kind.splits)

lemma fits_Tuple:
  "fits (TupleT ks) t \<Longrightarrow> \<exists>ts. t = TupleK ts \<and> list_all2 fits ks ts \<and>
     (\<not> list_ex token_is_dynamic ks \<longrightarrow> (\<forall>k\<in>set ks. slots k = 1))"
  by (auto simp: list_all_iff list_all2_map1 split: param_kind.splits)

lemma list_all2_ex: "list_all2 P ks ts \<Longrightarrow> (\<And>k t. k \<in> set ks \<Longrightarrow> P k t \<Longrightarrow> f k = g t) \<Longrightarrow> list_ex f ks = list_ex g ts"
  by (induction rule: list_all2_induct) auto

lemma fits_dynamic: "fits k t \<Longrightarrow> token_is_dynamic k = is_dynamic t"
proof (induction k arbitrary: t)
  case (FixedArrayT ks)
  then obtain t' where t: "t = FixedArrayK t' (length ks)" "\<forall>k\<in>set ks. fits k t'" "is_dynamic t' \<longrightarrow> ks \<noteq> []"
    using fits_FixedArray by blast
  then have "\<forall>k\<in>set ks. token_is_dynamic k = is_dynamic t'" using FixedArrayT.IH by blast
  with t show ?case by (cases ks) (auto simp: list_ex_iff)
next
  case (TupleT ks)
  then obtain ts where "t = TupleK ts" "list_all2 fits ks ts" using fits_Tuple by blast
  with TupleT.IH show ?case using list_all2_ex [of fits ks ts token_is_dynamic is_dynamic] by simp
qed (auto split: param_kind.splits)

text \<open>A static token has no tail and a head that does not depend on the offset.\<close>

lemma static_head: "\<not> token_is_dynamic k \<Longrightarrow> tail (encode_token tw k) = [] \<and> head (encode_token tw k) n = head (encode_token tw k) 0"
  by (cases k) auto

lemma static_heads_at:
  "\<forall>k\<in>set ks. \<not> token_is_dynamic k \<Longrightarrow>
   heads_at q (map (encode_token tw) ks) = concat (map (\<lambda>k. head (encode_token tw k) 0) ks)"
proof (induction ks arbitrary: q)
  case (Cons k ks)
  then show ?case using static_head [of k tw "u32 (32 * q)"] by simp
qed simp

lemma static_tails: "\<forall>k\<in>set ks. \<not> token_is_dynamic k \<Longrightarrow> concat (map tail (map (encode_token tw) ks)) = []"
  using static_head by auto

lemma encode_flat: "fits k t \<Longrightarrow> flat (encode_token tw k) \<and> length (head (encode_token tw k) 0) = slots k"
proof (induction k arbitrary: t)
  case (FixedArrayT ks)
  then obtain t' where "\<forall>k\<in>set ks. fits k t'" using fits_FixedArray by blast
  then have ks: "\<forall>k\<in>set ks. flat (encode_token tw k) \<and> length (head (encode_token tw k) 0) = slots k"
    using FixedArrayT.IH by blast
  then have fl: "list_all flat (map (encode_token tw) ks)" by (auto simp: list_all_iff)
  show ?case
  proof (cases "list_ex token_is_dynamic ks")
    case True
    then show ?thesis using fl by simp
  next
    case False
    then have st: "\<forall>k\<in>set ks. \<not> token_is_dynamic k" by (auto simp: list_ex_iff)
    have "length (encode_head_tail (map (encode_token tw) ks)) = sum_list (map slots ks)"
      unfolding encode_head_tail_def encode_layout [OF fl] static_tails [OF st]
      using ks by (simp add: length_heads_at comp_def cong: map_cong)
    with False show ?thesis by simp
  qed
next
  case (TupleT ks)
  then obtain ts where ts: "list_all2 fits ks ts" "\<not> list_ex token_is_dynamic ks \<longrightarrow> (\<forall>k\<in>set ks. slots k = 1)"
    using fits_Tuple by blast
  have "\<forall>k\<in>set ks. \<exists>t. fits k t" using ts(1) by (metis list_all2_iff in_set_impl_in_set_zip1 case_prodD)
  then have ks: "\<forall>k\<in>set ks. flat (encode_token tw k) \<and> length (head (encode_token tw k) 0) = slots k"
    using TupleT.IH by blast
  show ?case
  proof (cases "list_ex token_is_dynamic ks")
    case True
    then show ?thesis using ks by (auto simp: list_all_iff)
  next
    case False
    with ks ts(2) show ?thesis by (auto simp: list_all_iff length_concat comp_def cong: map_cong)
  qed
next
  case (ArrayT ks)
  then obtain t' where "\<forall>k\<in>set ks. fits k t'" using fits_Array by blast
  then show ?case using ArrayT.IH by (auto simp: list_all_iff)
qed (auto simp: length_pad_fixed_bytes split: param_kind.splits)

section \<open>Decoding what was encoded\<close>

text \<open>\<open>ws\<close> stands in \<open>s\<close> from position \<open>p\<close> on.\<close>

definition placed :: "slot list \<Rightarrow> nat \<Rightarrow> slot list \<Rightarrow> bool" where
  "placed s p ws \<longleftrightarrow> p \<le> length s \<and> take (length ws) (drop p s) = ws"

lemma placed_append: "placed s p (us @ vs) \<longleftrightarrow> placed s p us \<and> placed s (p + length us) vs"
proof
  assume "placed s p (us @ vs)"
  then have p: "p \<le> length s" "take (length us + length vs) (drop p s) = us @ vs" by (simp_all add: placed_def)
  then have us: "take (length us) (drop p s) = us"
    by (metis append_eq_conv_conj take_take min.absorb1 le_add1)
  have "length us \<le> length (drop p s)" using us by (metis length_take min.cobounded1)
  moreover have "take (length vs) (drop (length us) (drop p s)) = vs"
    using p(2) by (simp add: take_add us)
  ultimately show "placed s p us \<and> placed s (p + length us) vs"
    using p us by (auto simp: placed_def add.commute)
next
  assume "placed s p us \<and> placed s (p + length us) vs"
  then show "placed s p (us @ vs)" by (auto simp: placed_def take_add add.commute)
qed

lemma placed_Nil [simp]: "placed s p [] \<longleftrightarrow> p \<le> length s"
  by (simp add: placed_def)

lemma placed_peek: "placed s p (w # ws) \<Longrightarrow> peek s p = Inr w"
proof -
  assume a: "placed s p (w # ws)"
  then have "drop p s \<noteq> []" by (auto simp: placed_def)
  then have "p < length s" by simp
  moreover have "take (Suc (length ws)) (drop p s) ! 0 = w" using a by (simp add: placed_def)
  ultimately show ?thesis by (simp add: peek_def)
qed

lemma placed_length: "placed s p ws \<Longrightarrow> p + length ws \<le> length s"
proof -
  assume a: "placed s p ws"
  then have e: "take (length ws) (drop p s) = ws" and p: "p \<le> length s" by (simp_all add: placed_def)
  have "length ws = min (length s - p) (length ws)" using arg_cong [OF e, of length] by simp
  with p show ?thesis by linarith
qed

lemma placed_drop: "placed s (p + q) ws \<Longrightarrow> p \<le> length s \<Longrightarrow> placed (drop p s) q ws"
  by (auto simp: placed_def add.commute)

lemma placed_peek_offset:
  assumes "placed s p [pad_u32 (u32 (32 * q))]" "q \<le> length s" "32 * length s < 2 ^ 32"
  shows "peek_offset s p = Inr q"
proof -
  have q: "32 * q < 2 ^ 32" using assms(2,3) by linarith
  have "as_u32 (pad_u32 (32 * q)) = Inr (32 * q)" by (rule as_u32_pad_u32 [OF q])
  then show ?thesis
    using placed_peek [OF assms(1)] by (simp add: peek_offset_def u32_small [OF q])
qed

lemma placed_take_bytes:
  assumes "placed s p (pad_fixed_bytes bs)"
  shows "take_bytes s p (length bs) = Inr (bs, p + (length bs + 31) div 32)"
proof -
  let ?n = "(length bs + 31) div 32"
  have "take ?n (drop p s) = pad_fixed_bytes bs" using assms by (simp add: placed_def length_pad_fixed_bytes)
  moreover have "p + ?n \<le> length s" using placed_length [OF assms] by (simp add: length_pad_fixed_bytes)
  ultimately show ?thesis by (simp add: take_bytes_def Let_def take_concat_pad)
qed

lemma placed_decode_bytes:
  assumes "placed s p [pad_u32 (u32 (32 * q))]" "placed s q (pad_bytes bs)" "32 * length s < 2 ^ 32"
  shows "decode_bytes s p = Inr bs"
proof -
  have q: "q \<le> length s" "placed s q [pad_u32 (u32 (length bs))]" "placed s (q + 1) (pad_fixed_bytes bs)"
    using assms(2) placed_append [of s q "[pad_u32 (u32 (length bs))]" "pad_fixed_bytes bs"]
    by (auto simp: pad_bytes_def placed_def)
  have "(length bs + 31) div 32 \<le> length s" using placed_length [OF q(3)] by (simp add: length_pad_fixed_bytes)
  then have "length bs < 2 ^ 32" using assms(3) by linarith
  then have len: "as_u32 (pad_u32 (u32 (length bs))) = Inr (length bs)" by (simp add: u32_small as_u32_pad_u32)
  show ?thesis
    unfolding decode_bytes_def placed_peek_offset [OF assms(1) q(1) assms(3)]
    using placed_peek [OF q(2)] placed_take_bytes [OF q(3)] len by simp
qed

text \<open>A sequence of tokens, each decoded from its head and its tail.\<close>

definition decodes :: "('u \<Rightarrow> slot) \<Rightarrow> (slot \<Rightarrow> 'u) \<Rightarrow> 'u token \<Rightarrow> param_kind \<Rightarrow> bool" where
  "decodes tw ow k t \<longleftrightarrow> (\<forall>s p q. 32 * length s < 2 ^ 32 \<longrightarrow>
     placed s p (head (encode_token tw k) (u32 (32 * q))) \<longrightarrow> placed s q (tail (encode_token tw k)) \<longrightarrow>
     decode_param ow t s p = Inr (k, p + hl (encode_token tw k)))"

lemma decode_seq_placed:
  assumes "list_all2 (decodes tw ow) ks ts" "32 * length s < 2 ^ 32"
    and "placed s p (heads_at q (map (encode_token tw) ks))"
    and "placed s q (concat (map tail (map (encode_token tw) ks)))"
  shows "decode_seq (map (decode_param ow) ts) s p = Inr (ks, p + sum_list (map hl (map (encode_token tw) ks)))"
  using assms(1,3,4)
proof (induction arbitrary: p q rule: list_all2_induct)
  case (Cons k ks t ts)
  let ?m = "encode_token tw k"
  have h: "placed s p (head ?m (u32 (32 * q)))" "placed s (p + hl ?m) (heads_at (q + tl_slots ?m) (map (encode_token tw) ks))"
    using Cons.prems(1) length_head [of ?m "u32 (32 * q)"] by (simp_all add: placed_append)
  have t: "placed s q (tail ?m)" "placed s (q + tl_slots ?m) (concat (map tail (map (encode_token tw) ks)))"
    using Cons.prems(2) by (simp_all add: placed_append)
  have "decode_param ow t s p = Inr (k, p + hl ?m)"
    using Cons.hyps(1) assms(2) h(1) t(1) unfolding decodes_def by blast
  moreover have "decode_seq (map (decode_param ow) ts) s (p + hl ?m)
      = Inr (ks, p + hl ?m + sum_list (map hl (map (encode_token tw) ks)))"
    by (rule Cons.IH [OF h(2) t(2)])
  ultimately show ?case by (simp add: add.assoc)
qed simp

text \<open>The same for the parts that follow an offset.\<close>

lemma decode_layout:
  assumes "list_all2 (decodes tw ow) ks ts" "32 * length s < 2 ^ 32" "list_all flat (map (encode_token tw) ks)"
    and "placed s q (encode_head_tail (map (encode_token tw) ks))"
  shows "slices_after s q = Inr (drop q s)"
    and "\<exists>n. decode_seq (map (decode_param ow) ts) (drop q s) 0 = Inr (ks, n)"
proof -
  let ?ms = "map (encode_token tw) ks"
  have q: "q \<le> length s" using assms(4) by (simp add: placed_def)
  then show "slices_after s q = Inr (drop q s)" by (simp add: slices_after_def)
  have "placed s q (heads_at (sum_list (map hl ?ms)) ?ms @ concat (map tail ?ms))"
    using assms(4) unfolding encode_head_tail_def encode_layout [OF assms(3)] .
  then have "placed s (q + 0) (heads_at (sum_list (map hl ?ms)) ?ms)" "placed s (q + sum_list (map hl ?ms)) (concat (map tail ?ms))"
    by (simp_all add: placed_append length_heads_at)
  then have "placed (drop q s) 0 (heads_at (sum_list (map hl ?ms)) ?ms)" "placed (drop q s) (sum_list (map hl ?ms)) (concat (map tail ?ms))"
    using q by (blast intro: placed_drop)+
  moreover have "32 * length (drop q s) < 2 ^ 32" using assms(2) by (simp add: le_less_trans [rotated])
  ultimately show "\<exists>n. decode_seq (map (decode_param ow) ts) (drop q s) 0 = Inr (ks, n)"
    using decode_seq_placed [OF assms(1)] by blast
qed

lemma decode_static:
  assumes "list_all2 (decodes tw ow) ks ts" "\<forall>k\<in>set ks. \<not> token_is_dynamic k" "32 * length s < 2 ^ 32"
    and "placed s p (concat (map (\<lambda>k. head (encode_token tw k) 0) ks))"
  shows "decode_seq (map (decode_param ow) ts) s p =
    Inr (ks, p + length (concat (map (\<lambda>k. head (encode_token tw k) 0) ks)))"
proof -
  have "placed s p (heads_at 0 (map (encode_token tw) ks))" using assms(4) by (simp add: static_heads_at [OF assms(2)])
  moreover have "placed s 0 (concat (map tail (map (encode_token tw) ks)))" unfolding static_tails [OF assms(2)] by simp
  ultimately show ?thesis using decode_seq_placed [OF assms(1,3)] by (simp add: length_concat comp_def)
qed

lemma placed_offset_tail:
  assumes "placed s q (encode_head_tail (map (encode_token tw) ks))" "placed s p [pad_u32 (u32 (32 * q))]"
    "32 * length s < 2 ^ 32" "list_all2 (decodes tw ow) ks ts" "list_all flat (map (encode_token tw) ks)"
  obtains n where "peek_offset s p = Inr q" "slices_after s q = Inr (drop q s)"
    "decode_seq (map (decode_param ow) ts) (drop q s) 0 = Inr (ks, n)"
proof -
  have "q \<le> length s" using assms(1) by (simp add: placed_def)
  from placed_peek_offset [OF assms(2) this assms(3)] decode_layout [OF assms(4,3,5,1)] that show thesis by blast
qed

lemma list_all2_replicate: "\<forall>k\<in>set ks. P k t \<Longrightarrow> list_all2 P ks (replicate (length ks) t)"
  by (induction ks) auto

lemma fits_flat: "\<forall>k\<in>set ks. \<exists>t. fits k t \<Longrightarrow> list_all flat (map (encode_token tw) ks)"
  using encode_flat by (fastforce simp: list_all_iff)

lemma decodes_FixedArray:
  assumes "\<forall>k\<in>set ks. fits k t \<and> decodes tw ow k t" "is_dynamic t \<longrightarrow> ks \<noteq> []"
  shows "decodes tw ow (FixedArrayT ks) (FixedArrayK t (length ks))"
proof -
  have d: "list_all2 (decodes tw ow) ks (replicate (length ks) t)" using assms(1) by (intro list_all2_replicate) blast
  have fl: "list_all flat (map (encode_token tw) ks)" using assms(1) by (blast intro: fits_flat)
  have dyn: "list_ex token_is_dynamic ks = is_dynamic t"
    using assms fits_dynamic by (cases ks) (fastforce simp: list_ex_iff)+
  show ?thesis
  proof (cases "is_dynamic t")
    case True
    show ?thesis unfolding decodes_def
    proof (intro allI impI)
      fix s p q
      assume s: "32 * length s < 2 ^ 32" and h: "placed s p (head (encode_token tw (FixedArrayT ks)) (u32 (32 * q)))"
        and t: "placed s q (tail (encode_token tw (FixedArrayT ks)))"
      obtain n where "peek_offset s p = Inr q" "slices_after s q = Inr (drop q s)"
        "decode_seq (map (decode_param ow) (replicate (length ks) t)) (drop q s) 0 = Inr (ks, n)"
        using h t dyn True by (auto intro: placed_offset_tail [OF _ _ s d fl] simp: encode_head_tail_def)
      then show "decode_param ow (FixedArrayK t (length ks)) s p
          = Inr (FixedArrayT ks, p + hl (encode_token tw (FixedArrayT ks)))"
        using dyn True by simp
    qed
  next
    case False
    then have st: "\<forall>k\<in>set ks. \<not> token_is_dynamic k" using dyn by (auto simp: list_ex_iff)
    have e: "encode_head_tail (map (encode_token tw) ks) = concat (map (\<lambda>k. head (encode_token tw k) 0) ks)"
      unfolding encode_head_tail_def encode_layout [OF fl] static_tails [OF st] static_heads_at [OF st] by simp
    show ?thesis using dyn False decode_static [OF d st] by (simp add: decodes_def e)
  qed
qed

lemma decodes_Tuple:
  assumes "list_all2 fits ks ts" "list_all2 (decodes tw ow) ks ts"
  shows "decodes tw ow (TupleT ks) (TupleK ts)"
proof -
  have "\<forall>k\<in>set ks. \<exists>t. fits k t" using assms(1) by (metis list_all2_iff in_set_impl_in_set_zip1 case_prodD)
  then have fl: "list_all flat (map (encode_token tw) ks)" by (rule fits_flat)
  have dyn: "list_ex token_is_dynamic ks = list_ex is_dynamic ts"
    by (rule list_all2_ex [OF assms(1)]) (rule fits_dynamic)
  show ?thesis
  proof (cases "list_ex is_dynamic ts")
    case True
    show ?thesis unfolding decodes_def
    proof (intro allI impI)
      fix s p q
      assume s: "32 * length s < 2 ^ 32" and h: "placed s p (head (encode_token tw (TupleT ks)) (u32 (32 * q)))"
        and t: "placed s q (tail (encode_token tw (TupleT ks)))"
      obtain n where "peek_offset s p = Inr q" "slices_after s q = Inr (drop q s)"
        "decode_seq (map (decode_param ow) ts) (drop q s) 0 = Inr (ks, n)"
        using h t dyn True by (auto intro: placed_offset_tail [OF _ _ s assms(2) fl] simp: encode_head_tail_def)
      then show "decode_param ow (TupleK ts) s p = Inr (TupleT ks, p + hl (encode_token tw (TupleT ks)))"
        using dyn True by simp
    qed
  next
    case False
    then have st: "\<forall>k\<in>set ks. \<not> token_is_dynamic k" using dyn by (auto simp: list_ex_iff)
    show ?thesis using dyn False decode_static [OF assms(2) st] by (simp add: decodes_def comp_def)
  qed
qed

lemma decodes_Array:
  assumes "\<forall>k\<in>set ks. fits k t \<and> decodes tw ow k t" "length ks < 2 ^ 32"
  shows "decodes tw ow (ArrayT ks) (ArrayK t)"
  unfolding decodes_def
proof (intro allI impI)
  fix s p q
  let ?ms = "map (encode_token tw) ks" and ?len = "pad_u32 (u32 (length ks))"
  assume s: "32 * length s < 2 ^ 32" and h: "placed s p (head (encode_token tw (ArrayT ks)) (u32 (32 * q)))"
    and "placed s q (tail (encode_token tw (ArrayT ks)))"
  then have "placed s q ([?len] @ encode_head_tail ?ms)" by (simp add: encode_head_tail_def)
  then have t: "placed s q [?len]" "placed s (q + 1) (encode_head_tail ?ms)"
    unfolding placed_append by simp_all
  have d: "list_all2 (decodes tw ow) ks (replicate (length ks) t)" using assms(1) by (intro list_all2_replicate) blast
  have fl: "list_all flat ?ms" using assms(1) by (blast intro: fits_flat)
  have "q \<le> length s" using t(1) by (simp add: placed_def)
  then have "peek_offset s p = Inr q" using h s by (intro placed_peek_offset) simp_all
  moreover have "as_u32 ?len = Inr (length ks)" using assms(2) by (simp add: u32_small as_u32_pad_u32)
  ultimately show "decode_param ow (ArrayK t) s p = Inr (ArrayT ks, p + hl (encode_token tw (ArrayT ks)))"
    using placed_peek [OF t(1)] decode_layout [OF d s fl t(2)] by auto
qed

lemma fits_decodes:
  assumes "\<forall>u. ow (tw u) = u"
  shows "fits k t \<Longrightarrow> decodes tw ow k t"
proof (induction k arbitrary: t)
  case (FixedArrayT ks)
  then show ?case using fits_FixedArray [of ks t] decodes_FixedArray [of ks _ tw ow] by blast
next
  case (ArrayT ks)
  then show ?case using fits_Array [of ks t] decodes_Array [of ks _ tw ow] by blast
next
  case (TupleT ks)
  then obtain ts where ts: "t = TupleK ts" "list_all2 fits ks ts" using fits_Tuple by blast
  then have "list_all2 (decodes tw ow) ks ts"
    using TupleT.IH by (auto intro: list.rel_mono_strong)
  with ts show ?case by (blast intro: decodes_Tuple)
next
  case (FixedBytesT bs)
  then show ?case using placed_take_bytes by (fastforce simp: decodes_def length_pad_fixed_bytes)
next
  case (BytesT bs)
  then show ?case using placed_decode_bytes by (fastforce simp: decodes_def)
next
  case (StringT bs)
  then show ?case using placed_decode_bytes by (fastforce simp: decodes_def)
next
  case (BoolT b)
  then show ?case using placed_peek as_bool_pad [of b] by (fastforce simp: decodes_def)
qed (use assms placed_peek in \<open>fastforce simp: decodes_def split: param_kind.splits\<close>)+

section \<open>Whole messages\<close>

text \<open>Every slot of an encoding has 32 bytes.\<close>

definition wide :: "mediate \<Rightarrow> bool" where
  "wide m \<longleftrightarrow> (\<forall>n. \<forall>w \<in> set (head m n) \<union> set (tail m). length w = 32)"

lemma heads_at_slots: "\<forall>m\<in>set ms. wide m \<Longrightarrow> w \<in> set (heads_at q ms) \<Longrightarrow> length w = 32"
  by (induction ms arbitrary: q) (auto simp: wide_def)

lemma layout_slots:
  assumes "list_all flat ms" "\<forall>m\<in>set ms. wide m" "w \<in> set (head_tail ms (map tail ms))"
  shows "length w = 32"
  using assms(3) heads_at_slots [OF assms(2)] assms(2) unfolding encode_layout [OF assms(1)]
  by (auto simp: wide_def)

lemma encode_wide:
  assumes "\<forall>u. length (tw u) = 32"
  shows "fits k t \<Longrightarrow> wide (encode_token tw k)"
proof (induction k arbitrary: t)
  case (FixedArrayT ks)
  then have ks: "\<forall>k\<in>set ks. \<exists>t. fits k t" "\<forall>m\<in>set (map (encode_token tw) ks). wide m"
    using fits_FixedArray by (blast, metis fits_FixedArray imageE list.set_map)
  show ?case using layout_slots [OF fits_flat [OF ks(1)] ks(2)] by (auto simp: wide_def encode_head_tail_def)
next
  case (ArrayT ks)
  then have ks: "\<forall>k\<in>set ks. \<exists>t. fits k t" "\<forall>m\<in>set (map (encode_token tw) ks). wide m"
    using fits_Array by (blast, metis fits_Array imageE list.set_map)
  show ?case using layout_slots [OF fits_flat [OF ks(1)] ks(2)] by (auto simp: wide_def)
next
  case (TupleT ks)
  then obtain ts where "list_all2 fits ks ts" using fits_Tuple by blast
  then have ks: "\<forall>k\<in>set ks. \<exists>t. fits k t" by (metis list_all2_iff in_set_impl_in_set_zip1 case_prodD)
  then have w: "\<forall>m\<in>set (map (encode_token tw) ks). wide m" using TupleT.IH by auto
  show ?case using layout_slots [OF fits_flat [OF ks] w] w by (auto simp: wide_def)
qed (use assms pad_fixed_bytes_slots in \<open>auto simp: wide_def pad_bytes_def\<close>)

lemma slices_from_concat: "\<forall>w\<in>set ws. length w = 32 \<Longrightarrow> slices_from (length ws) (concat ws) = ws"
  by (induction ws) auto

lemma length_concat_slots: "\<forall>w\<in>set ws. length w = 32 \<Longrightarrow> length (concat ws) = 32 * length ws"
  by (induction ws) auto

lemma slice_data_concat: "\<forall>w\<in>set ws. length w = 32 \<Longrightarrow> slice_data (concat ws) = Inr ws"
  using slices_from_concat [of ws] by (simp add: slice_data_def length_concat_slots)

text \<open>Claim C6: what the encoder writes, the decoder reads back.  For tokens that fit their kinds, at
  any nesting of arrays and tuples, an encoding shorter than \<open>2^32\<close> bytes decodes to the same tokens.
  The conversions of 256-bit integers are assumed to be 32 bytes wide and to invert each other.  An
  empty encoding is accepted only for kinds that allow it.\<close>

theorem decode_encode:
  assumes "\<forall>u. length (to_word u) = 32" "\<forall>u. of_word (to_word u) = u"
    and "list_all2 fits ks ts" "length (encode to_word ks) < 2 ^ 32"
    and "list_all is_empty_bytes_valid_encoding ts \<or> encode to_word ks \<noteq> []"
  shows "decode of_word ts (encode to_word ks) = Inr ks"
proof -
  let ?ms = "map (encode_token to_word) ks" and ?s = "encode_head_tail (map (encode_token to_word) ks)"
  have f: "\<forall>k\<in>set ks. \<exists>t. fits k t" using assms(3) by (metis list_all2_iff in_set_impl_in_set_zip1 case_prodD)
  have "\<forall>m\<in>set ?ms. wide m" using encode_wide [OF assms(1)] f by auto
  then have w: "\<forall>w\<in>set ?s. length w = 32"
    unfolding encode_head_tail_def using layout_slots [OF fits_flat [OF f]] by blast
  have s: "32 * length ?s < 2 ^ 32" using assms(4) by (simp add: encode_def length_concat_slots [OF w])
  have "list_all2 (decodes to_word of_word) ks ts"
    using assms(3) fits_decodes [OF assms(2)] by (auto intro: list.rel_mono_strong)
  from decode_layout(2) [OF this s fits_flat [OF f], of 0]
  obtain n where "decode_seq (map (decode_param of_word) ts) ?s 0 = Inr (ks, n)" by (auto simp: placed_def)
  with assms(5) show ?thesis by (auto simp: decode_def encode_def slice_data_concat [OF w])
qed

theorem decode_encode_witness:
  "decode last [ArrayK BytesK, TupleK [BoolK, UintK 8], FixedArrayK StringK 1]
     (encode (\<lambda>b. replicate 31 0 @ [b])
        [ArrayT [BytesT [1, 2], BytesT []], TupleT [BoolT True, UintT 7], FixedArrayT [StringT [65]]])
   = Inr [ArrayT [BytesT [1, 2], BytesT []], TupleT [BoolT True, UintT (7 :: byte)], FixedArrayT [StringT [65]]]"
proof (rule decode_encode)
  show "length (encode (\<lambda>b. replicate 31 0 @ [b])
        [ArrayT [BytesT [1, 2], BytesT []], TupleT [BoolT True, UintT (7 :: byte)], FixedArrayT [StringT [65]]]) < 2 ^ 32"
    by code_simp
  show "list_all is_empty_bytes_valid_encoding [ArrayK BytesK, TupleK [BoolK, UintK 8], FixedArrayK StringK 1] \<or>
    encode (\<lambda>b. replicate 31 0 @ [b])
        [ArrayT [BytesT [1, 2], BytesT []], TupleT [BoolT True, UintT (7 :: byte)], FixedArrayT [StringT [65]]] \<noteq> []"
    by code_simp
qed simp_all

section \<open>Types\<close>

lemma all_check_True: "all_check cs = Some True \<longleftrightarrow> (\<forall>c\<in>set cs. c = Some True)"
  by (induction cs rule: all_check.induct) auto

lemma decode_seq_each:
  "decode_seq ds s p = Inr (ks, n) \<Longrightarrow> list_all2 (\<lambda>k d. \<exists>s p n. d s p = Inr (k, n)) ks ds"
proof (induction ds arbitrary: p ks n)
  case (Cons d ds)
  then obtain k q ks' where "d s p = Inr (k, q)" "decode_seq ds s q = Inr (ks', n)" "ks = k # ks'"
    by (auto simp: bind_js_Inr)
  with Cons.IH show ?case by auto
qed simp

lemma decode_seq_replicate_typed:
  assumes "\<And>s p k n. decode_param ow t s p = Inr (k, n) \<Longrightarrow> type_check k t = Some True"
    and "decode_seq (replicate len (decode_param ow t)) s p = Inr (ks, n)"
  shows "length ks = len \<and> all_check (map (\<lambda>k. type_check k t) ks) = Some True"
  using decode_seq_each [OF assms(2)] assms(1)
  by (fastforce simp: all_check_True list_all2_conv_all_nth in_set_conv_nth)

lemma decode_seq_map_typed:
  assumes "\<And>t s p k n. t \<in> set ts \<Longrightarrow> decode_param ow t s p = Inr (k, n) \<Longrightarrow> type_check k t = Some True"
    and "decode_seq (map (decode_param ow) ts) s p = Inr (ks, n)"
  shows "list_all2 (\<lambda>k t. type_check k t = Some True) ks ts"
proof -
  have "list_all2 (\<lambda>k t. \<exists>s p n. decode_param ow t s p = Inr (k, n)) ks ts"
    using decode_seq_each [OF assms(2)] by (simp add: list_all2_map2)
  then show ?thesis by (rule list.rel_mono_strong) (use assms(1) in blast)
qed

lemma type_check_tuple:
  "list_all2 (\<lambda>k t. type_check k t = Some True) ks ts \<Longrightarrow> type_check (TupleT ks) (TupleK ts) = Some True"
  by (auto simp: all_check_True set_zip list_all2_conv_all_nth)

lemma decode_param_typed: "decode_param ow t s p = Inr (k, n) \<Longrightarrow> type_check k t = Some True"
proof (induction t arbitrary: s p k n)
  case (ArrayK t)
  then show ?case using decode_seq_replicate_typed [of ow t] by (fastforce simp: bind_js_Inr)
next
  case (FixedArrayK t len)
  then show ?case using decode_seq_replicate_typed [of ow t len] by (fastforce simp: bind_js_Inr split: if_splits)
next
  case (TupleK ts)
  from TupleK.prems obtain s' p' ks n' where k: "k = TupleT ks" "decode_seq (map (decode_param ow) ts) s' p' = Inr (ks, n')"
    by (auto simp: bind_js_Inr split: if_splits)
  have "list_all2 (\<lambda>k t. type_check k t = Some True) ks ts"
    by (rule decode_seq_map_typed [OF TupleK.IH k(2)])
  then show ?case unfolding k(1) by (rule type_check_tuple)
next
  case (FixedBytesK len)
  then show ?case by (auto simp: bind_js_Inr take_bytes_def Let_def split: if_splits)
qed (auto simp: bind_js_Inr)

text \<open>Claim C39: whatever the bytes, tokens that the decoder returns have the kinds it was asked for:
  \<open>types_check\<close> accepts them, without panicking on a tuple.\<close>

theorem decode_typed:
  assumes "decode of_word ts bytes = Inr ks"
  shows "types_check ks ts = Some True"
proof -
  from assms obtain s n where "decode_seq (map (decode_param of_word) ts) s 0 = Inr (ks, n)"
    by (auto simp: decode_def bind_js_Inr split: if_splits)
  from decode_seq_map_typed [OF decode_param_typed this] show ?thesis
    by (auto simp: types_check_def all_check_True list_all2_conv_all_nth set_zip)
qed

theorem decode_typed_witness:
  "decode last [TupleK [BoolK], FixedBytesK 2] (replicate 31 0 @ [1, 5, 6] @ replicate 30 0)
     = Inr [TupleT [BoolT True], FixedBytesT [5, 6 :: byte]] \<and>
   types_check [TupleT [BoolT True], FixedBytesT [5, 6] :: byte token] [TupleK [BoolK], FixedBytesK 2] = Some True"
proof -
  have d: "decode last [TupleK [BoolK], FixedBytesK 2] (replicate 31 0 @ [1, 5, 6] @ replicate 30 0)
     = Inr [TupleT [BoolT True], FixedBytesT [5, 6 :: byte]]" by code_simp
  from d decode_typed [OF d] show ?thesis by blast
qed

section \<open>Panics\<close>








text \<open>For the other kinds the offset is used as an index unchecked, and an offset past the end of the
  data is a panic.\<close>

lemma decode_offset_panics:
  "decode (last :: slot \<Rightarrow> byte) [FixedArrayK BytesK 1] (replicate 31 0 @ [64]) = Inl Panic \<and>
   decode (last :: slot \<Rightarrow> byte) [TupleK [BytesK]] (replicate 31 0 @ [64]) = Inl Panic"
  by code_simp

text \<open>A static tuple with a component of two slots: \<open>head_len\<close> counts one slot for it, so the offsets
  after it are a slot short, and the bytes that follow are read from the wrong place.\<close>

lemma static_tuple_shifts_offsets:
  "decode last [TupleK [FixedBytesK 33], BytesK]
     (encode (\<lambda>b. replicate 31 0 @ [b]) [TupleT [FixedBytesT (replicate 33 1)], BytesT [9 :: byte]])
   \<noteq> Inr [TupleT [FixedBytesT (replicate 33 1)], BytesT [9]]"
  by code_simp

end
