(* ===== verification/Spec2Isabelle.thy ===== *)
theory Spec2Isabelle
  imports Prelude Wordcut_Types Wordcut_Dict Wordcut_Rules Wordcut_Core Wordcut_Correct
    Wordcut_Main Node_Path Js_Strings Balanced_Match Brace_Expansion Brace_Correct
    Events Events_Correct Process_Queue Process_Timers Regexp Minimatch Minimatch_Match Minimatch_Wild
    Tinyseg_Tables Tinyseg Callbacks Ethabi Ethabi_Correct
begin

text \<open>
  A verification library for the JavaScript of the repository and for the ABI codec of its Rust
  libraries.  Most of the JavaScript is the search of
  the documentation site: \<open>src/docs/site/assets/javascripts/lunr/wordcut.js\<close>, a bundle of numbered
  modules around a segmenter for Thai text, and \<open>tinyseg.js\<close> in the same directory, a segmenter for
  Japanese text.

  \<^bold>\<open>Conventions.\<close>  A string is the list of its UTF-16 code units, 16-bit words, written
  \<open>js ''abc''\<close> for ASCII text (\<open>Prelude\<close>).  Code that may throw returns a value of a sum type, the
  error on the left, composed with \<open>bind_js\<close>.  Objects used as dictionaries are association lists
  (\<open>set_key\<close>) or maps.  Numbers are \<open>nat\<close> or \<open>int\<close> where the source stays far below \<open>2^53\<close>, which is
  proved where it is not obvious.  Functions that clients pass in are arguments; they act on a state
  of the client and may throw, and where the source lets them call back into the module, so does the
  model.  A loop that may run forever is a \<open>partial_function (option)\<close>, and returning is proved.

  \<^bold>\<open>The Thai segmenter\<close> (modules 1 to 8).  \<open>Wordcut_Types\<close> holds the acceptors and their tags,
  \<open>Wordcut_Dict\<close> the dictionary (\<open>dictSeek\<close>, \<open>addWords\<close>, \<open>addFiles\<close>, \<open>dict_transit\<close>), \<open>Wordcut_Rules\<close>
  the rules for Latin and Thai text, \<open>Wordcut_Core\<close> the running acceptors, the path records and the
  loops of \<open>WordcutCore\<close>, \<open>Wordcut_Main\<close> the entry points \<open>init\<close>, \<open>cut\<close>, \<open>cutIntoArray\<close>.  A text is
  read once; at every position the acceptors that are in a final state propose segments, the best is
  kept in a record that points back to the start of the segment, and the records are followed back
  from the end.  Shown: the bisection is a linear scan and the dictionary acceptor recognises exactly
  the words; every rule recognises its language; the back pointers descend, so that the walk back
  ends; the segments are not empty and make up the text; a text of \<open>n\<close> dictionary words gets at most
  \<open>n\<close> segments, none unknown; two defects of the merge mark and of the left boundary.

  \<^bold>\<open>Paths\<close> (module 22) in \<open>Node_Path\<close>: \<open>normalize\<close>, \<open>resolve\<close>, \<open>relative\<close>, \<open>join\<close>, \<open>dirname\<close>,
  \<open>basename\<close>, \<open>extname\<close>.  The in-place loop of \<open>normalizeArray\<close> is a walk with a stack of names;
  \<open>resolve\<close> is changing directory; \<open>relative\<close> inverts it.

  \<^bold>\<open>Braces\<close> (modules 10, 11 and 13).  \<open>Balanced_Match\<close> finds the leftmost balanced pair,
  \<open>Brace_Expansion\<close> expands; the fuel of \<open>expand\<close> is one more than the number of closing braces, and
  never runs out.  \<open>Brace_Correct\<close> gives the results for alternatives and ranges, and the step of 0 on
  which the code does not end.

  \<^bold>\<open>Events\<close> (module 14).  \<open>Events\<close> models every method of \<open>EventEmitter\<close>, with clients that may change
  the registry from inside a call; the fuel bounds the depth of nested calls.  \<open>Events_Correct\<close>: the
  invariant, the snapshot that an emission works on, the refinement of a list per event, \<open>once\<close>, and
  two errors.

  \<^bold>\<open>The process shim\<close> (module 24).  \<open>Process_Queue\<close> is the queue of \<open>nextTick\<close> with its timers, a
  step relation whose reachable states lose nothing and keep the order; \<open>Process_Timers\<close> is the
  choice of timer functions.

  \<^bold>\<open>Globs\<close> (module 20).  \<open>Regexp\<close> models the regular expressions of the language as far as the matcher
  generates them, from their text to a match.  \<open>Minimatch\<close> models the module: options, the state
  machine \<open>parse\<close> with one definition per case, the compiled object, \<open>matchOne\<close>, \<open>match\<close>, \<open>minimatch\<close>,
  \<open>makeRe\<close>.  The fuel of \<open>parse_fuel\<close> is the length of the pattern, enough because nested calls are on
  shorter texts.  \<open>Minimatch_Match\<close>: \<open>matchOne\<close> decides a declarative reference, partial matches
  prune soundly, negation, options.  \<open>Minimatch_Wild\<close>: for patterns of ordinary characters, \<open>*\<close>, \<open>?\<close>
  and \<open>**\<close> the whole way from the pattern through the generated expression to the answer agrees with a
  reference matcher; a bracket left open is misread.

  \<^bold>\<open>Small modules.\<close>  \<open>Callbacks\<close>: \<open>once\<close>, \<open>wrappy\<close>, \<open>inflight\<close>, \<open>path-is-absolute\<close> (modules 21, 29, 18
  and 23).

  \<^bold>\<open>The Japanese segmenter.\<close>  \<open>Tinyseg_Tables\<close> holds the 42 weight tables, \<open>Tinyseg\<close> the scores and the
  loop: the segments make up the text, scores are exact, and a decision looks two characters ahead.

  \<^bold>\<open>The ABI codec\<close> (\<open>src/libraries/ethabi-nostd\<close>, Rust).  \<open>Ethabi\<close> models kinds, tokens, the type
  check, the encoder with its intermediate form and the decoder; 256-bit integers and the hash are
  parameters, \<open>u32\<close> wraps.  \<open>Ethabi_Correct\<close>: the layout of heads, offsets and tails in slots, and from
  it that decoding inverts encoding for the tokens that \<open>fits\<close> describes; decoded tokens have the kinds
  asked for; where the decoder can panic and where not; a static tuple with a wide component shifts
  the offsets after it.

  \<^bold>\<open>Not modelled.\<close>  The modules of the bundle for assertions, file-system globbing, inspection of
  values and the general collection library: the first three work on arbitrary values or on a file
  system that the bundle replaces by an empty module, and the segmenter uses of the last only loops
  that the model writes out.  The command-line utilities and example scripts, which pass fixed
  arguments to third-party libraries.  The other Rust parts of the repository: pallets, precompiles,
  runtimes and the node, whose behaviour is mostly that of the framework's macros and traits.
\<close>

end
